(* ===== verification/Prelude.thy ===== *)
theory Prelude
  imports Complex_Main "HOL-Library.AList"
begin

text \<open>
  What the component theories share: the named collections their proofs feed, the
  exceptions of \<^verbatim>\<open>src/src/llm_serving/exceptions.py\<close> next to the Python exceptions the
  handlers tell apart, the result type of code that may raise, and lemmas on Python
  dictionaries.  A Python \<^verbatim>\<open>dict\<close> or \<^verbatim>\<open>OrderedDict\<close> is an association list in insertion
  order: \<open>AList.update\<close> overwrites in place or appends, as assignment to a key does, and
  \<open>AList.delete\<close> is \<^verbatim>\<open>pop\<close>.
\<close>

named_theorems step_simps \<open>defining equations of the operations of a component\<close>
named_theorems inv_intros \<open>preservation of the component invariants\<close>

section \<open>Exceptions\<close>

datatype exn =
    ModelNotLoadedError
  | GenerationTimeoutError
  | GenerationError string
  | CircuitOpenError
  | QueueFullError
  | RateLimitExceededError
  | RedisError string
  | RuntimeError string
  | TimeoutError
  | CancelledError
  | OtherException string

text \<open>
  The class tests of the handlers' \<^verbatim>\<open>except\<close> clauses.  \<^verbatim>\<open>GenerationTimeoutError\<close> is declared as
  a subclass of \<^verbatim>\<open>TimeoutError\<close>; \<^verbatim>\<open>CancelledError\<close> is a \<^verbatim>\<open>BaseException\<close>, which
  \<^verbatim>\<open>except Exception\<close> does not catch.
\<close>

definition is_TimeoutError :: "exn \<Rightarrow> bool" where
  "is_TimeoutError e \<longleftrightarrow> e = TimeoutError \<or> e = GenerationTimeoutError"

definition is_Exception :: "exn \<Rightarrow> bool" where
  "is_Exception e \<longleftrightarrow> e \<noteq> CancelledError"

type_synonym 'a result = "exn + 'a"

text \<open>
  Code that threads an external state (Redis) and may raise: the state survives an exception.
\<close>

type_synonym ('a, 's) action = "'s \<Rightarrow> 'a result \<times> 's"

definition ret :: "'a \<Rightarrow> ('a, 's) action" where
  "ret a s = (Inr a, s)"

definition raise :: "exn \<Rightarrow> ('a, 's) action" where
  "raise e s = (Inl e, s)"

definition bind :: "('a, 's) action \<Rightarrow> ('a \<Rightarrow> ('b, 's) action) \<Rightarrow> ('b, 's) action" where
  "bind m f s = (case m s of (Inl e, s') \<Rightarrow> (Inl e, s') | (Inr a, s') \<Rightarrow> f a s')"

lemma bind_simps [simp]:
  "m s = (Inl e, s') \<Longrightarrow> bind m f s = (Inl e, s')"
  "m s = (Inr a, s') \<Longrightarrow> bind m f s = f a s'"
  by (simp_all add: bind_def)

section \<open>Lists\<close>

lemma sum_list_nonneg_int: "(\<And>x. x \<in> set xs \<Longrightarrow> 0 \<le> f x) \<Longrightarrow> 0 \<le> sum_list (map f xs)"
  for f :: "'a \<Rightarrow> int"
  by (induction xs) auto

lemma sum_list_drop_le:
  fixes f :: "'a \<Rightarrow> int"
  assumes "\<And>x. x \<in> set xs \<Longrightarrow> 0 \<le> f x"
  shows "sum_list (map f (drop n xs)) \<le> sum_list (map f xs)"
  using assms
proof (induction xs arbitrary: n)
  case (Cons x xs)
  have IH: "sum_list (map f (drop m xs)) \<le> sum_list (map f xs)" for m
    by (rule Cons.IH) (simp add: Cons.prems)
  have "0 \<le> f x" by (simp add: Cons.prems)
  then show ?case
    by (cases n) (use IH in \<open>auto simp: add_increasing\<close>)
qed simp

lemma sum_list_take_drop:
  fixes f :: "'a \<Rightarrow> 'b::comm_monoid_add"
  shows "sum_list (map f (take n xs)) + sum_list (map f (drop n xs)) = sum_list (map f xs)"
  by (metis append_take_drop_id map_append sum_list_append)

lemma remdups_snoc: "remdups (xs @ [x]) = removeAll x (remdups xs) @ [x]"
  by (induction xs) auto

text \<open>Python's \<^verbatim>\<open>xs[a:b]\<close>.\<close>

definition py_index :: "'a list \<Rightarrow> int \<Rightarrow> nat" where
  "py_index xs i = nat (if i < 0 then max 0 (i + int (length xs)) else min i (int (length xs)))"

definition py_slice :: "'a list \<Rightarrow> int \<Rightarrow> int \<Rightarrow> 'a list" where
  "py_slice xs a b = drop (py_index xs a) (take (py_index xs b) xs)"

lemma py_slice_nat [simp]:
  "0 \<le> a \<Longrightarrow> 0 \<le> b \<Longrightarrow> py_slice xs a b = drop (nat a) (take (nat b) xs)"
  by (auto simp: py_slice_def py_index_def min_def)

section \<open>Dictionaries as association lists\<close>

abbreviation keys :: "('k \<times> 'v) list \<Rightarrow> 'k list" where
  "keys d \<equiv> map fst d"

lemma map_of_eq_Some_distinct:
  "distinct (keys d) \<Longrightarrow> map_of d k = Some v \<longleftrightarrow> (k, v) \<in> set d"
  by (auto simp: map_of_is_SomeI dest: map_of_SomeD)

lemma map_of_key: "map_of d k = Some v \<Longrightarrow> k \<in> set (keys d)"
  by (metis map_of_eq_None_iff option.distinct(1) set_map)

lemma keys_delete: "keys (AList.delete k d) = removeAll k (keys d)"
  by (induction d) auto

lemma in_delete_iff [simp]: "(k', v) \<in> set (AList.delete k d) \<longleftrightarrow> k' \<noteq> k \<and> (k', v) \<in> set d"
  by (auto simp: AList.delete_eq)

lemma delete_notin: "k \<notin> set (keys d) \<Longrightarrow> AList.delete k d = d"
  by (induction d) auto

lemma sum_list_delete:
  fixes f :: "'v \<Rightarrow> 'b::ab_group_add"
  assumes "distinct (keys d)" and "map_of d k = Some v"
  shows "sum_list (map (f \<circ> snd) (AList.delete k d)) = sum_list (map (f \<circ> snd) d) - f v"
  using assms
proof (induction d)
  case (Cons a d)
  obtain k' v' where a: "a = (k', v')" by force
  show ?case
  proof (cases "k' = k")
    case True
    with Cons.prems a have "k \<notin> set (keys d)" by auto
    with True Cons.prems a show ?thesis by (simp add: delete_notin)
  next
    case False
    with Cons a show ?thesis by simp
  qed
qed simp

lemma sum_list_update:
  fixes f :: "'v \<Rightarrow> 'b::ab_group_add"
  assumes "distinct (keys d)"
  shows "sum_list (map (f \<circ> snd) (AList.update k v d)) =
    sum_list (map (f \<circ> snd) d) - (case map_of d k of None \<Rightarrow> 0 | Some w \<Rightarrow> f w) + f v"
  using assms
proof (induction d)
  case (Cons a d)
  obtain k' v' where a: "a = (k', v')" by force
  show ?case
  proof (cases "k' = k")
    case True
    with a show ?thesis by simp
  next
    case False
    with Cons a show ?thesis by (simp split: option.splits)
  qed
qed simp

lemma update_fresh: "h \<notin> set (keys d) \<Longrightarrow> AList.update h e d = d @ [(h, e)]"
  by (induction d) auto

lemma set_update_subset: "set (AList.update k v d) \<subseteq> insert (k, v) (set d)"
  by (induction d) auto

lemma set_delete_subset: "set (AList.delete k d) \<subseteq> set d"
  by (auto simp: AList.delete_eq)

lemma length_delete_le: "length (AList.delete k d) \<le> length d"
  by (simp add: AList.delete_eq)

lemma length_delete_in:
  "distinct (keys d) \<Longrightarrow> k \<in> set (keys d) \<Longrightarrow> Suc (length (AList.delete k d)) = length d"
  by (induction d) (auto simp: delete_notin)

lemma distinct_drop_keys: "distinct (keys d) \<Longrightarrow> distinct (keys (drop n d))"
  by (simp add: drop_map [symmetric])

end
