(* ===== verification/Float_Arith.thy ===== *)
theory Float_Arith
  imports Prelude
begin

text \<open>
  Floating-point numbers.  A Python \<^verbatim>\<open>float\<close> (and a Lua number) is an IEEE 754 binary64; a
  value is modelled by the rational it denotes and every operation by the exact result
  rounded to 53 significant bits, ties to even (\<open>fl64\<close>).  Infinities, NaN, overflow and
  subnormals do not occur at the magnitudes the program uses and are not modelled.  Lua's
  \<^verbatim>\<open>tostring\<close> prints with \<^verbatim>\<open>"%.14g"\<close>, that is, rounds to 14 significant decimal digits
  (\<open>fmt14\<close>).  Both are instances of one function, \<open>rnd_sig\<close>, and of one contract, the locale
  \<open>rounding\<close>; the exact arithmetic (\<open>id\<close>) is a third.
\<close>

section \<open>Rounding to the nearest integer, ties to even\<close>

definition rhe :: "rat \<Rightarrow> int" where
  "rhe x = (let f = \<lfloor>x\<rfloor>; d = x - of_int f in
     if d < 1/2 then f else if 1/2 < d then f + 1 else if even f then f else f + 1)"

lemma rhe_of_int [simp]: "rhe (of_int n) = n"
  by (simp add: rhe_def)

lemma rhe_of_nat [simp]: "rhe (of_nat n) = int n"
  using rhe_of_int [of "int n"] by (simp del: rhe_of_int)

lemma rhe_bounds: "\<lfloor>x\<rfloor> \<le> rhe x" "rhe x \<le> \<lfloor>x\<rfloor> + 1"
  by (auto simp: rhe_def Let_def)

lemma rhe_mono: "x \<le> y \<Longrightarrow> rhe x \<le> rhe y"
proof -
  assume xy: "x \<le> y"
  then have f: "\<lfloor>x\<rfloor> \<le> \<lfloor>y\<rfloor>" by (rule floor_mono)
  show ?thesis
  proof (cases "\<lfloor>x\<rfloor> = \<lfloor>y\<rfloor>")
    case True
    with xy show ?thesis by (auto simp: rhe_def Let_def)
  next
    case False
    with f have "\<lfloor>x\<rfloor> + 1 \<le> \<lfloor>y\<rfloor>" by simp
    then show ?thesis using rhe_bounds(2) [of x] rhe_bounds(1) [of y] by linarith
  qed
qed

lemma rhe_error: "\<bar>of_int (rhe x) - x\<bar> \<le> 1/2"
proof -
  have "of_int \<lfloor>x\<rfloor> \<le> x" "x < of_int \<lfloor>x\<rfloor> + 1" by linarith+
  then show ?thesis
    unfolding rhe_def Let_def by (simp split: if_splits)
qed

section \<open>Rounding to a number of significant digits\<close>

text \<open>
  \<open>rnd_sig b m x\<close> rounds \<open>x > 0\<close> to a significand between \<open>m\<close> and \<open>b * m\<close> in base \<open>b\<close>: it
  shifts \<open>x\<close> by the base until it lies in that range, where the representable numbers are the
  integers, rounds there, and shifts back.  With \<open>m = 2 ^ 52\<close> the results have 53 binary
  digits, with \<open>m = 10 ^ 13\<close> 14 decimal ones.
\<close>

lemma floor_half_less: "(1::rat) \<le> y \<Longrightarrow> 2 * z \<le> y \<Longrightarrow> nat \<lfloor>z\<rfloor> < nat \<lfloor>y\<rfloor>"
proof -
  assume y: "1 \<le> y" and z: "2 * z \<le> y"
  have y1: "1 \<le> \<lfloor>y\<rfloor>" using y by (simp add: le_floor_iff)
  have "2 * of_int \<lfloor>z\<rfloor> \<le> y" using z of_int_floor_le [of z] by linarith
  then have "2 * \<lfloor>z\<rfloor> \<le> \<lfloor>y\<rfloor>" by (simp add: le_floor_iff)
  with y1 show ?thesis by linarith
qed

function rnd_down :: "nat \<Rightarrow> nat \<Rightarrow> rat \<Rightarrow> rat" where
  "rnd_down b m x =
     (if 2 \<le> b \<and> 1 \<le> m \<and> of_nat (b * m) \<le> x then of_nat b * rnd_down b m (x / of_nat b)
      else of_int (rhe x))"
  by pat_completeness auto

termination
proof (relation "measure (\<lambda>(b, m, x). nat \<lfloor>x\<rfloor>)", goal_cases)
  case (2 b m x)
  then have b: "(2::rat) \<le> of_nat b" and bm: "of_nat (b * m) \<le> x" and "1 \<le> b * m"
    by auto
  then have "(1::rat) \<le> of_nat (b * m)" by (metis of_nat_1 of_nat_le_iff)
  with bm have x: "1 \<le> x" by linarith
  have "nat \<lfloor>x / of_nat b\<rfloor> < nat \<lfloor>x\<rfloor>"
    by (rule floor_half_less [OF x]) (use b x in \<open>simp add: field_simps\<close>)
  then show ?case by simp
qed simp

function rnd_sig :: "nat \<Rightarrow> nat \<Rightarrow> rat \<Rightarrow> rat" where
  "rnd_sig b m x =
     (if x \<le> 0 \<or> b < 2 \<or> m < 1 then 0
      else if x < of_nat m then rnd_sig b m (of_nat b * x) / of_nat b
      else rnd_down b m x)"
  by pat_completeness auto

termination
proof (relation "measure (\<lambda>(b, m, x). nat \<lfloor>of_nat m / x\<rfloor>)", goal_cases)
  case (2 b m x)
  then have b: "(2::rat) \<le> of_nat b" and x: "0 < x" "x < of_nat m" by auto
  have "nat \<lfloor>of_nat m / (of_nat b * x)\<rfloor> < nat \<lfloor>of_nat m / x\<rfloor>"
    by (rule floor_half_less) (use b x in \<open>auto simp: field_simps\<close>)
  then show ?case by simp
qed simp

declare rnd_down.simps [simp del] rnd_sig.simps [simp del]

lemma rnd_down_far:
  "2 \<le> b \<Longrightarrow> 1 \<le> m \<Longrightarrow> of_nat (b * m) \<le> x \<Longrightarrow>
    rnd_down b m x = of_nat b * rnd_down b m (x / of_nat b)"
  by (subst rnd_down.simps) simp

lemma rnd_down_near: "x < of_nat (b * m) \<Longrightarrow> rnd_down b m x = of_int (rhe x)"
  by (subst rnd_down.simps) simp

lemma rnd_sig_small:
  "2 \<le> b \<Longrightarrow> 1 \<le> m \<Longrightarrow> 0 < x \<Longrightarrow> x < of_nat m \<Longrightarrow>
    rnd_sig b m x = rnd_sig b m (of_nat b * x) / of_nat b"
  by (subst rnd_sig.simps) simp

lemma rnd_sig_large:
  "2 \<le> b \<Longrightarrow> 1 \<le> m \<Longrightarrow> of_nat m \<le> x \<Longrightarrow> rnd_sig b m x = rnd_down b m x"
proof -
  assume a: "2 \<le> b" "1 \<le> m" "of_nat m \<le> x"
  from a(2) have "(0::rat) < of_nat m" by simp
  with a(3) have "0 < x" by linarith
  with a show ?thesis by (subst rnd_sig.simps) simp
qed

text \<open>Rounding commutes with a shift by the base.\<close>

lemma rnd_sig_scale:
  assumes b: "2 \<le> b" and m: "1 \<le> m" and x: "0 < x"
  shows "rnd_sig b m (of_nat b * x) = of_nat b * rnd_sig b m x"
proof (cases "x < of_nat m")
  case True
  with assms show ?thesis by (simp add: rnd_sig_small [of b m x])
next
  case False
  then have mx: "of_nat m \<le> x" by simp
  have "x \<le> of_nat b * x" using b x by simp
  then have le: "of_nat m \<le> of_nat b * x" using mx by linarith
  have "of_nat (b * m) \<le> of_nat b * x" using b mx by simp
  then have "rnd_down b m (of_nat b * x) = of_nat b * rnd_down b m x"
    using b m by (simp add: rnd_down_far)
  with le mx b m show ?thesis by (simp add: rnd_sig_large)
qed

text \<open>
  The induction rule that drives the proofs: a positive number lies in the range, below it or
  above it, and the outer cases reduce to a number one shift closer.
\<close>

lemma range_induct [consumes 3, case_names near up down]:
  assumes b: "2 \<le> b" and m: "1 \<le> m" and x: "0 < x"
    and near: "\<And>x::rat. of_nat m \<le> x \<Longrightarrow> x < of_nat (b * m) \<Longrightarrow> P x"
    and up: "\<And>x. 0 < x \<Longrightarrow> x < of_nat m \<Longrightarrow> P (of_nat b * x) \<Longrightarrow> P x"
    and down: "\<And>x. of_nat (b * m) \<le> x \<Longrightarrow> P (x / of_nat b) \<Longrightarrow> P x"
  shows "P x"
proof -
  have large: "of_nat m \<le> x \<Longrightarrow> P x" for x
    using b m near down
  proof (induction b m x rule: rnd_down.induct)
    case (1 b m x)
    show ?case
    proof (cases "of_nat (b * m) \<le> x")
      case True
      with 1 have "P (x / of_nat b)" by (simp add: field_simps)
      with 1 True show ?thesis by blast
    next
      case False
      with 1 show ?thesis by simp
    qed
  qed
  show ?thesis
    using b m x large up
  proof (induction b m x rule: rnd_sig.induct)
    case (1 b m x)
    then show ?case by (cases "x < of_nat m") auto
  qed
qed

lemma rnd_sig_near:
  "2 \<le> b \<Longrightarrow> 1 \<le> m \<Longrightarrow> of_nat m \<le> x \<Longrightarrow> x < of_nat (b * m) \<Longrightarrow>
    rnd_sig b m x = of_int (rhe x)"
  by (simp add: rnd_sig_large rnd_down_near)

lemma rnd_sig_far:
  assumes "2 \<le> b" and "1 \<le> m" and "of_nat (b * m) \<le> x"
  shows "rnd_sig b m x = of_nat b * rnd_sig b m (x / of_nat b)"
proof -
  have "of_nat m \<le> x / of_nat b" using assms by (simp add: field_simps)
  then have "0 < x / of_nat b" using assms by (metis less_le_trans of_nat_0_less_iff zero_less_one less_le_trans)
  from rnd_sig_scale [OF assms(1,2) this] assms show ?thesis by simp
qed

lemma rnd_sig_lower:
  "2 \<le> b \<Longrightarrow> 1 \<le> m \<Longrightarrow> of_nat m \<le> x \<Longrightarrow> of_nat m \<le> rnd_sig b m x"
proof -
  assume b: "2 \<le> b" and m: "1 \<le> m" and mx: "of_nat m \<le> x"
  then have x: "0 < x" by (metis less_le_trans of_nat_0_less_iff zero_less_one)
  from b m x mx show ?thesis
  proof (induction rule: range_induct)
    case (near x)
    from near(1) have "rhe (of_nat m) \<le> rhe x" by (rule rhe_mono)
    then have "int m \<le> rhe x" by simp
    then have "of_int (int m) \<le> (of_int (rhe x) :: rat)" by (simp only: of_int_le_iff)
    with near b m show ?case by (simp add: rnd_sig_near)
  next
    case (up x)
    then show ?case by simp
  next
    case (down x)
    then have "of_nat m \<le> x / of_nat b" using b by (simp add: field_simps)
    with down have "of_nat m \<le> rnd_sig b m (x / of_nat b)" by simp
    moreover have "(1::rat) \<le> of_nat b" using b by simp
    ultimately have "of_nat m \<le> of_nat b * rnd_sig b m (x / of_nat b)"
      by (smt (verit, best) mult_left_mono mult_1 of_nat_0_le_iff mult_right_mono order_trans)
    with down b m show ?case by (simp add: rnd_sig_far)
  qed
qed


lemma rnd_sig_pos:
  assumes "2 \<le> b" and "1 \<le> m" and "0 < x"
  shows "0 < rnd_sig b m x"
  using assms
proof (induction rule: range_induct)
  case (near x)
  then have "of_nat m \<le> rnd_sig b m x" using assms by (simp add: rnd_sig_lower)
  moreover have "(0::rat) < of_nat m" using assms by simp
  ultimately show ?case by linarith
next
  case (up x)
  then show ?case using assms by (simp add: rnd_sig_small)
next
  case (down x)
  then show ?case using assms by (simp add: rnd_sig_far)
qed

lemma rnd_sig_mono:
  assumes "2 \<le> b" and "1 \<le> m" and "0 < x" and "x \<le> y"
  shows "rnd_sig b m x \<le> rnd_sig b m y"
  using assms
proof (induction arbitrary: y rule: range_induct)
  case (near x)
  have b: "(0::rat) < of_nat b" using assms by simp
  show ?case
  proof (cases "y < of_nat (b * m)")
    case True
    then have "rhe x \<le> rhe y" using near by (intro rhe_mono)
    with near True assms show ?thesis by (simp add: rnd_sig_near)
  next
    case False
    have "rhe x \<le> rhe (of_nat (b * m))" using near by (intro rhe_mono) simp
    then have "rhe x \<le> int (b * m)" by (simp only: rhe_of_nat)
    then have "of_int (rhe x) \<le> (of_nat b * of_nat m :: rat)"
      by (metis of_int_le_iff of_int_of_nat_eq of_nat_mult)
    also have "of_nat m \<le> rnd_sig b m (y / of_nat b)"
      by (rule rnd_sig_lower) (use assms False b in \<open>simp_all add: field_simps\<close>)
    then have "of_nat b * of_nat m \<le> rnd_sig b m y"
      using False assms b by (simp add: rnd_sig_far)
    finally show ?thesis using near assms by (simp add: rnd_sig_near)
  qed
next
  case (up x)
  have b: "(0::rat) < of_nat b" using assms by simp
  have "rnd_sig b m (of_nat b * x) \<le> rnd_sig b m (of_nat b * y)"
    by (rule up.IH) (use up b in simp_all)
  also have "\<dots> = of_nat b * rnd_sig b m y"
    using up assms by (intro rnd_sig_scale) auto
  finally show ?case using up assms b by (simp add: rnd_sig_small field_simps)
next
  case (down x)
  have b: "(0::rat) < of_nat b" using assms by simp
  have "rnd_sig b m (x / of_nat b) \<le> rnd_sig b m (y / of_nat b)"
    by (rule down.IH) (use down b in \<open>simp_all add: divide_right_mono\<close>)
  with down assms b show ?case
    by (simp add: rnd_sig_far)
qed

text \<open>Integers of at most the precision are exact.\<close>

lemma rnd_sig_int:
  assumes "2 \<le> b" and "1 \<le> m" and "0 < x" and "x = of_int i" and "x \<le> of_nat (b * m)"
  shows "rnd_sig b m x = x"
  using assms
proof (induction arbitrary: i rule: range_induct)
  case (near x)
  then show ?case using assms(1,2) by (simp add: rnd_sig_near)
next
  case (up x)
  have "rnd_sig b m (of_nat b * x) = of_nat b * x"
    by (rule up.IH [of "int b * i"]) (use up assms in simp_all)
  with up assms show ?case by (simp add: rnd_sig_small)
next
  case (down x)
  have b: "(0::rat) < of_nat b" using assms by simp
  have x: "x = of_nat (b * m)" using down by simp
  have "rnd_sig b m (x / of_nat b) = of_nat m"
  proof (cases "of_nat m < (of_nat (b * m) :: rat)")
    case True
    then show ?thesis using x b assms by (simp add: rnd_sig_near)
  next
    case False
    then show ?thesis using assms by (simp del: of_nat_mult)
  qed
  then show ?case using x down assms b by (simp add: rnd_sig_far)
qed

text \<open>The relative error is at most half a unit in the last place.\<close>

lemma rnd_sig_error:
  assumes "2 \<le> b" and "1 \<le> m" and "0 < x"
  shows "\<bar>rnd_sig b m x - x\<bar> \<le> x / (2 * of_nat m)"
  using assms
proof (induction rule: range_induct)
  case (near x)
  have m: "(0::rat) < of_nat m" using assms by simp
  have "\<bar>of_int (rhe x) - x\<bar> \<le> 1/2" by (rule rhe_error)
  also have "1/2 \<le> x / (2 * of_nat m)" using near m by (simp add: field_simps)
  finally show ?case using near assms by (simp add: rnd_sig_near)
next
  case (up x)
  have b: "(0::rat) < of_nat b" using assms by simp
  have "\<bar>rnd_sig b m (of_nat b * x) - of_nat b * x\<bar> = of_nat b * \<bar>rnd_sig b m x - x\<bar>"
    using up assms b by (simp add: rnd_sig_scale abs_mult flip: right_diff_distrib)
  with up.IH have "of_nat b * \<bar>rnd_sig b m x - x\<bar> \<le> of_nat b * (x / (2 * of_nat m))"
    by simp
  with b show ?case by (simp only: mult_le_cancel_left_pos)
next
  case (down x)
  have b: "(0::rat) < of_nat b" using assms by simp
  let ?r = "rnd_sig b m (x / of_nat b)"
  have "rnd_sig b m x - x = of_nat b * (?r - x / of_nat b)"
    using down assms b by (simp add: rnd_sig_far right_diff_distrib)
  then have "\<bar>rnd_sig b m x - x\<bar> = of_nat b * \<bar>?r - x / of_nat b\<bar>"
    by (simp only: abs_mult abs_of_nat)
  also have "\<dots> \<le> of_nat b * (x / of_nat b / (2 * of_nat m))"
    using down.IH b by (simp only: mult_le_cancel_left_pos)
  also have "\<dots> = x / (2 * of_nat m)" using b by simp
  finally show ?case .
qed


section \<open>The contract of a rounding\<close>

text \<open>
  What the arithmetic lemmas need of a rounding: it is monotone, odd, and exact on the
  integers up to a bound.  The client lemmas of the locale are what the components use.
\<close>

locale rounding =
  fixes rd :: "rat \<Rightarrow> rat" and bound :: int
  assumes mono: "x \<le> y \<Longrightarrow> rd x \<le> rd y"
    and minus: "rd (- x) = - rd x"
    and exact_int: "\<bar>i\<bar> \<le> bound \<Longrightarrow> rd (of_int i) = of_int i"
    and bound_pos: "1 \<le> bound"
begin

lemma zero [simp]: "rd 0 = 0"
  using exact_int [of 0] bound_pos by simp

lemma one [simp]: "rd 1 = 1"
  using exact_int [of 1] bound_pos by simp

lemma nonneg: "0 \<le> x \<Longrightarrow> 0 \<le> rd x"
  using mono [of 0 x] by simp

lemma nonpos: "x \<le> 0 \<Longrightarrow> rd x \<le> 0"
  using mono [of x 0] by simp

lemma le_int: "x \<le> of_int i \<Longrightarrow> \<bar>i\<bar> \<le> bound \<Longrightarrow> rd x \<le> of_int i"
  using mono [of x "of_int i"] by (simp add: exact_int)

lemma ge_int: "of_int i \<le> x \<Longrightarrow> \<bar>i\<bar> \<le> bound \<Longrightarrow> of_int i \<le> rd x"
  using mono [of "of_int i" x] by (simp add: exact_int)

lemma sub_nonneg: "y \<le> x \<Longrightarrow> 0 \<le> rd (x - y)"
  by (simp add: nonneg)

lemma sub_mono: "x \<le> x' \<Longrightarrow> y' \<le> y \<Longrightarrow> rd (x - y) \<le> rd (x' - y')"
  by (rule mono) simp

lemma add_mono2: "x \<le> x' \<Longrightarrow> y \<le> y' \<Longrightarrow> rd (x + y) \<le> rd (x' + y')"
  by (rule mono) simp

lemma less_reflect: "rd x < rd y \<Longrightarrow> x < y"
  using mono [of y x] by linarith

lemma unit_interval: "0 \<le> x \<Longrightarrow> x \<le> 1 \<Longrightarrow> 0 \<le> rd x \<and> rd x \<le> 1"
  using mono [of x 1] by (simp add: nonneg)

end

section \<open>Binary64, and 14 decimal digits\<close>

definition rnd_signed :: "nat \<Rightarrow> nat \<Rightarrow> rat \<Rightarrow> rat" where
  "rnd_signed b m x = (if 0 \<le> x then rnd_sig b m x else - rnd_sig b m (- x))"

definition fl64 :: "rat \<Rightarrow> rat" where
  "fl64 = rnd_signed 2 (2 ^ 52)"

definition fmt14 :: "rat \<Rightarrow> rat" where
  "fmt14 = rnd_signed 10 (10 ^ 13)"

lemma rnd_sig_0 [simp]: "rnd_sig b m 0 = 0"
  by (subst rnd_sig.simps) simp

lemma rnd_signed_rounding:
  assumes b: "2 \<le> b" and m: "1 \<le> m" and k: "1 \<le> k" "k \<le> int (b * m)"
  shows "rounding (rnd_signed b m) k"
proof
  fix x y :: rat
  assume xy: "x \<le> y"
  have nonneg: "0 \<le> z \<Longrightarrow> 0 \<le> rnd_sig b m z" for z
    using rnd_sig_pos [OF b m, of z] by (cases "z = 0") auto
  consider "0 < x" | "x = 0" | "x < 0" "0 \<le> y" | "x < 0" "y < 0" by linarith
  then show "rnd_signed b m x \<le> rnd_signed b m y"
  proof cases
    case 1
    with xy rnd_sig_mono [OF b m, of x y] show ?thesis by (simp add: rnd_signed_def)
  next
    case 2
    with xy nonneg show ?thesis by (simp add: rnd_signed_def)
  next
    case 3
    with nonneg [of "- x"] nonneg [of y] show ?thesis by (simp add: rnd_signed_def)
  next
    case 4
    with xy rnd_sig_mono [OF b m, of "- y" "- x"] show ?thesis by (simp add: rnd_signed_def)
  qed
next
  show "rnd_signed b m (- x) = - rnd_signed b m x" for x
    by (cases x "0 :: rat" rule: linorder_cases) (auto simp: rnd_signed_def)
next
  fix i :: int
  assume i: "\<bar>i\<bar> \<le> k"
  have "0 < j \<Longrightarrow> j \<le> k \<Longrightarrow> rnd_sig b m (of_int j) = of_int j" for j
  proof (rule rnd_sig_int [OF b m])
    assume "0 < j" "j \<le> k"
    then have "j \<le> int (b * m)" using k by linarith
    then show "(of_int j :: rat) \<le> of_nat (b * m)" by (metis of_int_le_iff of_int_of_nat_eq)
  qed auto
  from this [of i] this [of "- i"] i
  show "rnd_signed b m (of_int i) = of_int i" by (cases i "0 :: int" rule: linorder_cases)
      (auto simp: rnd_signed_def)
next
  show "1 \<le> k" by (rule k)
qed

interpretation f64: rounding fl64 "2 ^ 53"
  unfolding fl64_def by (rule rnd_signed_rounding) auto

interpretation g14: rounding fmt14 "10 ^ 14"
  unfolding fmt14_def by (rule rnd_signed_rounding) auto

interpretation exact: rounding id "2 ^ 53"
  by unfold_locales auto

lemma fl64_error: "\<bar>fl64 x - x\<bar> \<le> \<bar>x\<bar> / 2 ^ 53"
  using rnd_sig_error [of 2 "2 ^ 52" x] rnd_sig_error [of 2 "2 ^ 52" "- x"]
  by (cases x "0 :: rat" rule: linorder_cases)
    (auto simp: fl64_def rnd_signed_def abs_minus_commute)

lemma fl64_upper: "0 \<le> x \<Longrightarrow> fl64 x \<le> x * (1 + 1 / 2 ^ 53)"
  using abs_ge_self [of "fl64 x - x"] fl64_error [of x] by (simp add: distrib_left)

lemma fl64_lower: "0 \<le> x \<Longrightarrow> x * (1 - 1 / 2 ^ 53) \<le> fl64 x"
  using abs_ge_minus_self [of "fl64 x - x"] fl64_error [of x]
  by (simp add: right_diff_distrib)

lemma fl64_neg: "x < 0 \<Longrightarrow> fl64 x < 0"
  using fl64_error [of x] by (simp add: abs_if split: if_splits)

lemma fl64_within:
  assumes "0 \<le> x" and "x \<le> c"
  shows "x - c / 2 ^ 53 \<le> fl64 x" and "fl64 x \<le> x + c / 2 ^ 53"
proof -
  have "\<bar>fl64 x - x\<bar> \<le> c / 2 ^ 53"
    using fl64_error [of x] assms by (simp add: field_simps)
  then show "x - c / 2 ^ 53 \<le> fl64 x" "fl64 x \<le> x + c / 2 ^ 53" by linarith+
qed

lemma fmt14_error: "\<bar>fmt14 x - x\<bar> \<le> \<bar>x\<bar> / (2 * 10 ^ 13)"
  using rnd_sig_error [of 10 "10 ^ 13" x] rnd_sig_error [of 10 "10 ^ 13" "- x"]
  by (cases x "0 :: rat" rule: linorder_cases)
    (auto simp: fmt14_def rnd_signed_def abs_minus_commute)

text \<open>What a number loses when it is stored as text and read back.\<close>

lemma stored_error: "\<bar>fl64 (fmt14 x) - x\<bar> \<le> \<bar>x\<bar> / 10 ^ 13"
proof -
  have 1: "\<bar>fl64 (fmt14 x) - fmt14 x\<bar> \<le> \<bar>fmt14 x\<bar> / 2 ^ 53" by (rule fl64_error)
  have 2: "\<bar>fmt14 x - x\<bar> \<le> \<bar>x\<bar> / (2 * 10 ^ 13)" by (rule fmt14_error)
  have "\<bar>fmt14 x\<bar> \<le> \<bar>x\<bar> + \<bar>fmt14 x - x\<bar>" by linarith
  with 2 have 3: "\<bar>fmt14 x\<bar> \<le> \<bar>x\<bar> * (1 + 1 / (2 * 10 ^ 13))" by (simp add: distrib_left)
  have 4: "\<bar>fmt14 x\<bar> / 2 ^ 53 \<le> \<bar>x\<bar> * (1 + 1 / (2 * 10 ^ 13)) / 2 ^ 53"
    by (rule divide_right_mono [OF 3]) simp
  have "\<bar>fl64 (fmt14 x) - x\<bar> \<le> \<bar>fl64 (fmt14 x) - fmt14 x\<bar> + \<bar>fmt14 x - x\<bar>" by linarith
  also have "\<dots> \<le> \<bar>x\<bar> * (1 + 1 / (2 * 10 ^ 13)) / 2 ^ 53 + \<bar>x\<bar> / (2 * 10 ^ 13)"
    by (rule add_mono [OF order_trans [OF 1 4] 2])
  also have "\<dots> \<le> \<bar>x\<bar> / 10 ^ 13" by (simp add: field_simps)
  finally show ?thesis .
qed

lemma stored_upper: "0 \<le> x \<Longrightarrow> fl64 (fmt14 x) \<le> x * (1 + 1 / 10 ^ 13)"
  using abs_ge_self [of "fl64 (fmt14 x) - x"] stored_error [of x] by (simp add: distrib_left)

lemma stored_nonneg: "0 \<le> x \<Longrightarrow> 0 \<le> fl64 (fmt14 x)"
  by (simp add: f64.nonneg g14.nonneg)

lemma fl64_nat: "n \<le> 2 ^ 53 \<Longrightarrow> fl64 (of_nat n) = of_nat n"
  using f64.exact_int [of "int n"] by simp

lemma fl64_numeral: "(numeral k :: int) \<le> 2 ^ 53 \<Longrightarrow> fl64 (numeral k) = numeral k"
  using f64.exact_int [of "numeral k"] by simp

text \<open>
  Evaluation on numerals: one step of the search at a time, each guarded by a comparison of
  numerals that the simplifier decides.
\<close>

lemma floor_rat_numeral [simp]:
  "\<lfloor>numeral a / numeral b :: rat\<rfloor> = numeral a div numeral b"
  "\<lfloor>1 / numeral b :: rat\<rfloor> = 1 div numeral b"
  using floor_divide_of_int_eq [of "numeral a" "numeral b", where 'a = rat]
    floor_divide_of_int_eq [of 1 "numeral b", where 'a = rat] by simp_all

lemmas fl_eval = fl64_def fmt14_def rnd_signed_def rnd_sig_small rnd_sig_near rnd_sig_far
  rhe_def Let_def

section \<open>Python's float operations\<close>

definition fadd :: "rat \<Rightarrow> rat \<Rightarrow> rat" where "fadd x y = fl64 (x + y)"
definition fsub :: "rat \<Rightarrow> rat \<Rightarrow> rat" where "fsub x y = fl64 (x - y)"
definition fmul :: "rat \<Rightarrow> rat \<Rightarrow> rat" where "fmul x y = fl64 (x * y)"
definition fdiv :: "rat \<Rightarrow> rat \<Rightarrow> rat" where "fdiv x y = fl64 (x / y)"

text \<open>\<^verbatim>\<open>int(x)\<close> truncates towards zero; \<^verbatim>\<open>round(x, n)\<close> is exact decimal rounding, ties to even.\<close>

definition py_int :: "rat \<Rightarrow> int" where
  "py_int x = (if 0 \<le> x then \<lfloor>x\<rfloor> else \<lceil>x\<rceil>)"

definition py_round :: "rat \<Rightarrow> nat \<Rightarrow> rat" where
  "py_round x n = fl64 (of_int (rhe (x * 10 ^ n)) / 10 ^ n)"

type_synonym float = rat

end
