(* ===== verification/Circuit_Breaker.thy ===== *)
theory Circuit_Breaker
  imports Float_Arith
begin

text \<open>
  \<^verbatim>\<open>core/circuit_breaker.py\<close>: the three-state circuit breaker.  Every method body runs without
  a suspension point while it holds the \<^verbatim>\<open>asyncio.Lock\<close>, so on the one event loop each call is
  one atomic step; \<^verbatim>\<open>time.monotonic()\<close> is the argument \<open>now\<close>.  The theory gives the methods,
  the reachable states of a breaker under any sequence of calls at non-decreasing times, the
  invariant they share, and the transition table of the module's documentation, from which the
  methods differ in two places.
\<close>

section \<open>State and methods\<close>

datatype circuit_state = CLOSED | OPEN | HALF_OPEN

record breaker =
  failure_threshold :: int
  recovery_timeout_s :: float
  half_open_max_calls :: int
  cb_state :: circuit_state
  failure_count :: int
  last_failure_time :: float
  half_open_calls :: int

definition breaker_init :: "int \<Rightarrow> float \<Rightarrow> int \<Rightarrow> breaker" where
  "breaker_init threshold timeout max_calls =
     \<lparr>failure_threshold = threshold, recovery_timeout_s = timeout,
      half_open_max_calls = max_calls, cb_state = CLOSED, failure_count = 0,
      last_failure_time = 0, half_open_calls = 0\<rparr>"

text \<open>The \<^verbatim>\<open>state\<close> property: \<^verbatim>\<open>OPEN\<close> reads as \<^verbatim>\<open>HALF_OPEN\<close> once the recovery timeout elapsed.\<close>

definition state_property :: "float \<Rightarrow> breaker \<Rightarrow> circuit_state" where
  "state_property now b =
     (if cb_state b = OPEN \<and> recovery_timeout_s b \<le> fsub now (last_failure_time b)
      then HALF_OPEN else cb_state b)"

definition allow_request :: "float \<Rightarrow> breaker \<Rightarrow> bool \<times> breaker" where
  "allow_request now b =
     (let current_state = state_property now b in
      if current_state = CLOSED then (True, b)
      else if current_state = OPEN then (False, b)
      else
        let b = (if cb_state b = OPEN then b\<lparr>cb_state := HALF_OPEN, half_open_calls := 0\<rparr> else b) in
        if cb_state b = HALF_OPEN then
          if half_open_calls b < half_open_max_calls b
          then (True, b\<lparr>half_open_calls := half_open_calls b + 1\<rparr>)
          else (False, b)
        else (False, b))"

definition record_success :: "breaker \<Rightarrow> breaker" where
  "record_success b =
     (let previous_state = cb_state b;
          b = b\<lparr>failure_count := 0, half_open_calls := 0\<rparr> in
      if cb_state b = HALF_OPEN then b\<lparr>cb_state := CLOSED\<rparr>
      else if previous_state \<noteq> CLOSED then b\<lparr>cb_state := CLOSED\<rparr>
      else b)"

definition record_failure :: "float \<Rightarrow> breaker \<Rightarrow> breaker" where
  "record_failure now b =
     (let b = b\<lparr>failure_count := failure_count b + 1, last_failure_time := now\<rparr> in
      if cb_state b = HALF_OPEN then b\<lparr>cb_state := OPEN, half_open_calls := 0\<rparr>
      else if failure_threshold b \<le> failure_count b then b\<lparr>cb_state := OPEN\<rparr>
      else b)"

definition reset :: "breaker \<Rightarrow> breaker" where
  "reset b = b\<lparr>cb_state := CLOSED, failure_count := 0, last_failure_time := 0,
                half_open_calls := 0\<rparr>"

declare state_property_def [step_simps] allow_request_def [step_simps]
  record_success_def [step_simps] record_failure_def [step_simps] reset_def [step_simps]

section \<open>Configuration is never written\<close>

definition same_config :: "breaker \<Rightarrow> breaker \<Rightarrow> bool" where
  "same_config b b' \<longleftrightarrow> failure_threshold b' = failure_threshold b \<and>
     recovery_timeout_s b' = recovery_timeout_s b \<and>
     half_open_max_calls b' = half_open_max_calls b"

lemma same_config_steps [simp]:
  "same_config b (snd (allow_request now b))"
  "same_config b (record_success b)"
  "same_config b (record_failure now b)"
  "same_config b (reset b)"
  by (auto simp: same_config_def step_simps Let_def)

lemma same_config_trans: "same_config a b \<Longrightarrow> same_config b c \<Longrightarrow> same_config a c"
  by (simp add: same_config_def)

lemma same_config_refl [simp]: "same_config b b"
  by (simp add: same_config_def)

section \<open>Calls and runs\<close>

datatype cb_call = Allow float | Success | Failure float | Reset

fun call_time :: "cb_call \<Rightarrow> float option" where
  "call_time (Allow t) = Some t"
| "call_time (Failure t) = Some t"
| "call_time _ = None"

fun call_step :: "cb_call \<Rightarrow> breaker \<Rightarrow> bool \<times> breaker" where
  "call_step (Allow now) b = allow_request now b"
| "call_step Success b = (False, record_success b)"
| "call_step (Failure now) b = (False, record_failure now b)"
| "call_step Reset b = (False, reset b)"

text \<open>A run: the permits granted, and the breaker it ends in.\<close>

fun cb_run :: "cb_call list \<Rightarrow> breaker \<Rightarrow> nat \<times> breaker" where
  "cb_run [] b = (0, b)"
| "cb_run (c # cs) b =
     (let (ok, b') = call_step c b; (n, b'') = cb_run cs b' in ((if ok then Suc n else n), b''))"

lemma same_config_call: "same_config b (snd (call_step c b))"
  by (cases c) auto

text \<open>
  The breakers reachable from a fresh one, with the time of the latest call: the clock
  \<^verbatim>\<open>time.monotonic()\<close> starts at a non-negative value and does not go back.
\<close>

inductive cb_reachable :: "int \<Rightarrow> float \<Rightarrow> int \<Rightarrow> float \<Rightarrow> breaker \<Rightarrow> bool"
  for threshold :: int and timeout :: float and max_calls :: int where
  init: "0 \<le> t \<Longrightarrow> cb_reachable threshold timeout max_calls t
           (breaker_init threshold timeout max_calls)"
| tick: "cb_reachable threshold timeout max_calls t b \<Longrightarrow> t \<le> t' \<Longrightarrow>
           cb_reachable threshold timeout max_calls t' b"
| call: "cb_reachable threshold timeout max_calls t b \<Longrightarrow>
           (case call_time c of None \<Rightarrow> True | Some now \<Rightarrow> now = t) \<Longrightarrow>
           cb_reachable threshold timeout max_calls t (snd (call_step c b))"

definition breaker_inv :: "float \<Rightarrow> breaker \<Rightarrow> bool" where
  "breaker_inv t b \<longleftrightarrow>
     0 \<le> failure_count b \<and> 0 \<le> half_open_calls b \<and>
     half_open_calls b \<le> max 0 (half_open_max_calls b) \<and>
     (half_open_calls b \<noteq> 0 \<longrightarrow> cb_state b = HALF_OPEN) \<and>
     (cb_state b = CLOSED \<longrightarrow> failure_count b < max 1 (failure_threshold b)) \<and>
     (cb_state b \<noteq> CLOSED \<longrightarrow> 0 < failure_count b) \<and>
     (cb_state b = HALF_OPEN \<and> 0 < half_open_max_calls b \<longrightarrow> 0 < half_open_calls b) \<and>
     0 \<le> last_failure_time b \<and> last_failure_time b \<le> t"

lemma breaker_inv_init [inv_intros]: "0 \<le> t \<Longrightarrow> breaker_inv t (breaker_init n r m)"
  by (simp add: breaker_inv_def breaker_init_def)

lemma breaker_inv_mono: "breaker_inv t b \<Longrightarrow> t \<le> t' \<Longrightarrow> breaker_inv t' b"
  by (auto simp: breaker_inv_def)

lemma allow_request_inv [inv_intros]:
  "breaker_inv t b \<Longrightarrow> breaker_inv t (snd (allow_request now b))"
  by (auto simp: breaker_inv_def step_simps Let_def)

lemma record_success_inv [inv_intros]:
  "breaker_inv t b \<Longrightarrow> breaker_inv t (record_success b)"
  by (cases "cb_state b") (auto simp: breaker_inv_def step_simps Let_def)

lemma record_failure_inv [inv_intros]:
  "breaker_inv t b \<Longrightarrow> breaker_inv t (record_failure t b)"
  by (cases "cb_state b") (auto simp: breaker_inv_def step_simps Let_def)

lemma reset_inv [inv_intros]: "breaker_inv t b \<Longrightarrow> breaker_inv t (reset b)"
  by (auto simp: breaker_inv_def step_simps)

lemma cb_reachable_inv:
  "cb_reachable n r m t b \<Longrightarrow> breaker_inv t b \<and> same_config (breaker_init n r m) b"
proof (induction rule: cb_reachable.induct)
  case (init t)
  then show ?case by (simp add: inv_intros)
next
  case (tick t b t')
  then show ?case by (blast intro: breaker_inv_mono)
next
  case (call t b c)
  then show ?case
    by (cases c) (auto intro: inv_intros same_config_trans)
qed

section \<open>The documented automaton\<close>

text \<open>
  The states of the module's documentation, without the bookkeeping fields: closed with the number
  of consecutive failures, open since a failure, or probing with the number of probes handed out.
\<close>

datatype spec = Closed int | Open float | Probing int

fun probe :: "int \<Rightarrow> int \<Rightarrow> bool \<times> spec" where
  "probe max_calls k = (if k < max_calls then (True, Probing (k + 1)) else (False, Probing k))"

text \<open>
  The documented transitions and no others: closed to open when the consecutive failures reach the
  threshold, open to half-open once the recovery timeout has elapsed (looked at when a request
  asks), half-open to closed on a successful probe, half-open to open on a failed one, and
  \<^verbatim>\<open>reset\<close>.  A success of a closed breaker ends the row of consecutive failures.  A success or
  a failure that reaches an open breaker has no row in the table and leaves it as it is.
\<close>

fun documented_step :: "int \<Rightarrow> float \<Rightarrow> int \<Rightarrow> cb_call \<Rightarrow> spec \<Rightarrow> bool \<times> spec" where
  "documented_step n r m (Allow now) (Closed k) = (True, Closed k)"
| "documented_step n r m (Failure now) (Closed k) =
     (False, if n \<le> k + 1 then Open now else Closed (k + 1))"
| "documented_step n r m Success (Closed k) = (False, Closed 0)"
| "documented_step n r m (Allow now) (Open since) =
     (if r \<le> fsub now since then probe m 0 else (False, Open since))"
| "documented_step n r m (Failure now) (Open since) = (False, Open since)"
| "documented_step n r m Success (Open since) = (False, Open since)"
| "documented_step n r m (Allow now) (Probing k) = probe m k"
| "documented_step n r m (Failure now) (Probing k) = (False, Open now)"
| "documented_step n r m Success (Probing k) = (False, Closed 0)"
| "documented_step n r m Reset s = (False, Closed 0)"

definition abs_breaker :: "breaker \<Rightarrow> spec" where
  "abs_breaker b = (case cb_state b of
       CLOSED \<Rightarrow> Closed (failure_count b)
     | OPEN \<Rightarrow> Open (last_failure_time b)
     | HALF_OPEN \<Rightarrow> Probing (half_open_calls b))"

lemma call_step_documented:
  "cb_state b \<noteq> OPEN \<or> c = Reset \<or> (\<exists>t. c = Allow t) \<Longrightarrow>
   map_prod id abs_breaker (call_step c b) =
     documented_step (failure_threshold b) (recovery_timeout_s b) (half_open_max_calls b) c (abs_breaker b)"
  by (cases c; cases "cb_state b") (auto simp: abs_breaker_def step_simps Let_def)

lemma call_step_open:
  assumes "cb_state b = OPEN"
  shows "map_prod id abs_breaker (call_step Success b) = (False, Closed 0)"
    and "map_prod id abs_breaker (call_step (Failure t) b) = (False, Open t)"
  using assms by (auto simp: abs_breaker_def step_simps Let_def)

section \<open>Runs\<close>

lemma cb_run_Nil_Allow:
  assumes "\<And>t. t \<in> set ts \<Longrightarrow> allow_request t b = (False, b)"
  shows "cb_run (map Allow ts) b = (0, b)"
  using assms by (induction ts) auto

lemma allow_closed [simp]: "cb_state b = CLOSED \<Longrightarrow> allow_request t b = (True, b)"
  by (simp add: step_simps)

fun is_probe_call :: "cb_call \<Rightarrow> bool" where
  "is_probe_call (Allow t) = True"
| "is_probe_call (Failure t) = True"
| "is_probe_call _ = False"

fun is_failure :: "cb_call \<Rightarrow> bool" where
  "is_failure (Failure t) = True"
| "is_failure _ = False"

definition failures :: "cb_call list \<Rightarrow> nat" where
  "failures cs = length (filter is_failure cs)"

lemma failures_simps [simp]:
  "failures [] = 0"
  "failures (c # cs) = (if is_failure c then Suc (failures cs) else failures cs)"
  by (simp_all add: failures_def)

text \<open>Below the threshold the breaker stays closed and lets every request pass.\<close>

lemma run_below_threshold:
  assumes "list_all is_probe_call cs" and "cb_state b = CLOSED"
    and "failure_count b + int (failures cs) < failure_threshold b"
  shows "fst (cb_run cs b) = length cs - failures cs \<and>
    cb_state (snd (cb_run cs b)) = CLOSED \<and>
    failure_count (snd (cb_run cs b)) = failure_count b + int (failures cs) \<and>
    same_config b (snd (cb_run cs b))"
  using assms
proof (induction cs arbitrary: b)
  case Nil
  then show ?case by simp
next
  case (Cons c cs)
  have le: "failures cs \<le> length cs" by (simp add: failures_def)
  show ?case
  proof (cases c)
    case (Allow t)
    with Cons.IH [of b] Cons.prems le show ?thesis by (auto split: prod.splits)
  next
    case (Failure t)
    let ?b = "record_failure t b"
    have b: "cb_state ?b = CLOSED" "failure_count ?b = failure_count b + 1" "same_config b ?b"
      using Cons.prems Failure by (auto simp: step_simps same_config_def)
    then have "failure_count ?b + int (failures cs) < failure_threshold ?b"
      using Cons.prems Failure by (simp add: same_config_def)
    with Cons.IH [of ?b] b Cons.prems Failure show ?thesis
      by (auto simp: same_config_def split: prod.splits)
  qed (use Cons.prems in auto)
qed

text \<open>Away from the closed state, permits are bounded by the probes each episode hands out.\<close>

definition probes_left :: "breaker \<Rightarrow> nat" where
  "probes_left b = nat (half_open_max_calls b) -
     (if cb_state b = HALF_OPEN then nat (half_open_calls b) else 0)"

lemma run_probe_bound:
  assumes "list_all is_probe_call cs" and "cb_state b \<noteq> CLOSED" and "0 \<le> half_open_calls b"
  shows "fst (cb_run cs b) \<le> probes_left b + nat (half_open_max_calls b) * failures cs"
  using assms
proof (induction cs arbitrary: b)
  case Nil
  then show ?case by simp
next
  case (Cons c cs)
  let ?b = "snd (call_step c b)"
  have ne: "cb_state ?b \<noteq> CLOSED" and nn: "0 \<le> half_open_calls ?b"
    and max: "half_open_max_calls ?b = half_open_max_calls b"
    using Cons.prems by (cases c; cases "cb_state b"; auto simp: step_simps Let_def)+
  have IH: "fst (cb_run cs ?b) \<le> probes_left ?b + nat (half_open_max_calls b) * failures cs"
    using Cons.IH [of ?b] Cons.prems ne nn max by simp
  have step: "probes_left ?b + (if fst (call_step c b) then 1 else 0) \<le>
      (if is_failure c then nat (half_open_max_calls b) + probes_left b else probes_left b)"
    using Cons.prems
    by (cases c; cases "cb_state b") (auto simp: probes_left_def step_simps Let_def)
  show ?case using IH step by (auto simp: split_beta Let_def algebra_simps split: if_splits)
qed

section \<open>The contract of a guard\<close>

text \<open>
  What the worker pool relies on: every call keeps the guard's invariant, a success leaves the
  guard passing requests, and a passing guard answers without a change of state.
\<close>

locale guard_service =
  fixes allow :: "float \<Rightarrow> 's \<Rightarrow> bool \<times> 's"
    and success :: "'s \<Rightarrow> 's"
    and failure :: "float \<Rightarrow> 's \<Rightarrow> 's"
    and passing :: "'s \<Rightarrow> bool"
    and invar :: "float \<Rightarrow> 's \<Rightarrow> bool"
  assumes invar_allow: "invar t s \<Longrightarrow> invar t (snd (allow now s))"
    and invar_success: "invar t s \<Longrightarrow> invar t (success s)"
    and invar_failure: "invar t s \<Longrightarrow> invar t (failure t s)"
    and invar_later: "invar t s \<Longrightarrow> t \<le> t' \<Longrightarrow> invar t' s"
    and success_passes: "passing (success s)"
    and passing_allows: "passing s \<Longrightarrow> allow now s = (True, s)"
begin

text \<open>One guarded call: asked at \<open>t\<close>, finished at \<open>t'\<close>, well or badly.\<close>

lemma guarded_call_invar:
  assumes "invar t s" and "t \<le> t'"
  shows "invar t' (if ok then success (snd (allow t s)) else failure t' (snd (allow t s)))"
  using assms by (auto intro: invar_allow invar_success invar_failure invar_later)

lemma allow_after_success: "allow now (success s) = (True, success s)"
  by (simp add: passing_allows success_passes)

end

interpretation cb: guard_service allow_request record_success record_failure
    "\<lambda>b. cb_state b = CLOSED" breaker_inv
proof
  show "cb_state (record_success b) = CLOSED" for b
    by (cases "cb_state b") (auto simp: step_simps Let_def)
qed (auto intro: inv_intros breaker_inv_mono)

section \<open>Properties\<close>

text \<open>In every state a breaker reaches by any calls at non-decreasing times, the counters are
  consistent: a closed breaker is below its threshold, probes are counted only while half-open
  and never exceed the maximum, a non-closed breaker has a recorded failure in the past, and the
  configuration is as constructed.\<close>

theorem breaker_reachable_invariant:
  assumes "cb_reachable n r m t b"
  shows "breaker_inv t b \<and> failure_threshold b = n \<and> recovery_timeout_s b = r \<and>
    half_open_max_calls b = m"
  using cb_reachable_inv [OF assms] by (simp add: same_config_def breaker_init_def)

theorem breaker_reachable_invariant_witness:
  "breaker_inv 4 (record_failure 4 (breaker_init 1 30 1)) \<and>
   cb_state (record_failure 4 (breaker_init 1 30 1)) = OPEN"
proof -
  have "cb_reachable 1 30 1 4 (breaker_init 1 30 1)" by (rule cb_reachable.init) simp
  from cb_reachable.call [OF this, of "Failure 4"]
  have "cb_reachable 1 30 1 4 (record_failure 4 (breaker_init 1 30 1))" by simp
  from breaker_reachable_invariant [OF this]
  show ?thesis by (simp add: breaker_init_def step_simps)
qed

text \<open>C8: Seen through the abstraction to closed (with the consecutive failures), open (with the time of
  the failure) and probing (with the probes handed out), each call of a method returns the answer
  and ends in the next state of the transition table in the module's documentation, with two
  exceptions that the table does not have: a success that reaches an open breaker closes it, and a
  failure that reaches an open breaker starts its recovery wait again from that moment, where the
  table leaves the breaker open since the failure that tripped it.\<close>

theorem breaker_follows_documented_table:
  "map_prod id abs_breaker (call_step c b) =
     (case (abs_breaker b, c) of
        (Open since, Success) \<Rightarrow> (False, Closed 0)
      | (Open since, Failure now) \<Rightarrow> (False, Open now)
      | _ \<Rightarrow> documented_step (failure_threshold b) (recovery_timeout_s b) (half_open_max_calls b) c
               (abs_breaker b))"
proof (cases "cb_state b = OPEN")
  case True
  then have "abs_breaker b = Open (last_failure_time b)" by (simp add: abs_breaker_def)
  with True show ?thesis
    using call_step_documented [of b c] by (cases c) (auto simp: call_step_open simp del: call_step.simps)
next
  case False
  then have "abs_breaker b \<noteq> Open t" for t by (cases "cb_state b") (auto simp: abs_breaker_def)
  with False call_step_documented [of b c] show ?thesis by (auto split: spec.splits cb_call.splits)
qed

text \<open>From a fresh breaker with a threshold of at least one, any mix of requests and failures
  with fewer failures than the threshold leaves it closed with every request admitted, and the
  failure that reaches the threshold opens it.\<close>

theorem breaker_trips_at_threshold:
  assumes "list_all is_probe_call cs" and "1 \<le> n" and "int (failures cs) < n"
  shows "let (permits, b) = cb_run cs (breaker_init n r m) in
    permits = length cs - failures cs \<and> cb_state b = CLOSED \<and>
    (cb_state (record_failure now b) = OPEN \<longleftrightarrow> int (failures cs) + 1 = n)"
proof -
  let ?b = "breaker_init n r m" and ?b' = "snd (cb_run cs (breaker_init n r m))"
  have run: "fst (cb_run cs ?b) = length cs - failures cs" "cb_state ?b' = CLOSED"
    "failure_count ?b' = int (failures cs)" "failure_threshold ?b' = n"
    using run_below_threshold [of cs ?b] assms
    by (auto simp: breaker_init_def same_config_def)
  then have "cb_state (record_failure now ?b') = OPEN \<longleftrightarrow> int (failures cs) + 1 = n"
    using assms by (auto simp: step_simps Let_def)
  with run show ?thesis by (simp add: split_beta)
qed

theorem breaker_trips_at_threshold_witness:
  "let (permits, b) = cb_run [Allow 0, Failure 1, Allow 1] (breaker_init 2 30 1) in
     permits = 2 \<and> cb_state b = CLOSED \<and> cb_state (record_failure 2 b) = OPEN"
  using breaker_trips_at_threshold [of "[Allow 0, Failure 1, Allow 1]" 2 30 1 2] by auto

text \<open>An open breaker fails fast: as long as the elapsed time stays below the recovery timeout
  (by more than the rounding of the subtraction), any sequence of requests is refused without a
  change of state.\<close>

theorem open_breaker_fails_fast:
  assumes "cb_state b = OPEN"
    and "\<And>t. t \<in> set ts \<Longrightarrow> last_failure_time b \<le> t \<and>
      (t - last_failure_time b) * (1 + 1 / 2 ^ 53) < recovery_timeout_s b"
  shows "cb_run (map Allow ts) b = (0, b)"
proof (rule cb_run_Nil_Allow)
  fix t
  assume "t \<in> set ts"
  with assms(2) have t: "last_failure_time b \<le> t"
    and lt: "(t - last_failure_time b) * (1 + 1 / 2 ^ 53) < recovery_timeout_s b" by blast+
  have "fsub t (last_failure_time b) \<le> (t - last_failure_time b) * (1 + 1 / 2 ^ 53)"
    unfolding fsub_def by (rule fl64_upper) (use t in simp)
  with lt have "fsub t (last_failure_time b) < recovery_timeout_s b" by linarith
  with assms(1) show "allow_request t b = (False, b)" by (simp add: step_simps)
qed

theorem open_breaker_fails_fast_witness:
  "cb_run (map Allow [101, 129]) (record_failure 100 (breaker_init 1 30 1)) =
     (0, record_failure 100 (breaker_init 1 30 1))"
  by (rule open_breaker_fails_fast) (auto simp: breaker_init_def step_simps)

text \<open>C30: Once tripped, the breaker admits at most the configured number of probes per episode:
  over any sequence of requests and failures, the permits granted until the next success or
  reset are at most the maximum times one more than the failures.\<close>

theorem tripped_breaker_probe_bound:
  assumes "list_all is_probe_call cs" and "cb_reachable n r m t b" and "cb_state b = OPEN"
  shows "fst (cb_run cs b) \<le> nat m * (failures cs + 1)"
proof -
  have inv: "breaker_inv t b" "half_open_max_calls b = m"
    using cb_reachable_inv [OF assms(2)] by (auto simp: same_config_def breaker_init_def)
  then have "0 \<le> half_open_calls b" by (simp add: breaker_inv_def)
  with run_probe_bound [of cs b] assms inv show ?thesis by (simp add: probes_left_def)
qed

theorem tripped_breaker_probe_bound_witness:
  "fst (cb_run [Allow 50, Allow 50, Failure 51, Allow 90]
     (record_failure 4 (breaker_init 1 30 1))) \<le> 2"
proof -
  have "cb_reachable 1 30 1 4 (breaker_init 1 30 1)" by (rule cb_reachable.init) simp
  from cb_reachable.call [OF this, of "Failure 4"]
  have "cb_reachable 1 30 1 4 (record_failure 4 (breaker_init 1 30 1))" by simp
  from tripped_breaker_probe_bound [OF _ this, of "[Allow 50, Allow 50, Failure 51, Allow 90]"]
  show ?thesis by (simp add: breaker_init_def step_simps)
qed

text \<open>C37: Recovery: once the timeout (a binary64 value) has elapsed, an open breaker with at least
  one probe to give admits the next request and is half-open; the probe's success closes it and
  admits every later request, its failure opens it again from that moment.\<close>

theorem open_breaker_recovers:
  assumes "cb_state b = OPEN" and "1 \<le> half_open_max_calls b"
    and "recovery_timeout_s b \<le> now - last_failure_time b"
    and "fl64 (recovery_timeout_s b) = recovery_timeout_s b"
  shows "let (ok, b') = allow_request now b in
    ok \<and> cb_state b' = HALF_OPEN \<and>
    cb_state (record_success b') = CLOSED \<and>
    (\<forall>t. allow_request t (record_success b') = (True, record_success b')) \<and>
    abs_breaker (record_failure later b') = Open later"
proof -
  have "fl64 (recovery_timeout_s b) \<le> fsub now (last_failure_time b)"
    unfolding fsub_def by (rule f64.mono) (use assms in simp)
  with assms show ?thesis
    by (auto simp: step_simps Let_def abs_breaker_def)
qed

theorem open_breaker_recovers_witness:
  "fst (allow_request 40 (record_failure 4 (breaker_init 1 30 1)))"
proof -
  let ?b = "record_failure 4 (breaker_init 1 30 1)"
  have "cb_state ?b = OPEN" "1 \<le> half_open_max_calls ?b"
    "recovery_timeout_s ?b \<le> 40 - last_failure_time ?b"
    "fl64 (recovery_timeout_s ?b) = recovery_timeout_s ?b"
    by (simp_all add: breaker_init_def record_failure_def fl64_numeral)
  from open_breaker_recovers [OF this] show ?thesis by (auto simp: split_beta Let_def)
qed

text \<open>A success recorded while the breaker is open closes it at once, before the recovery
  timeout: with two requests in flight, one failing and then one succeeding, the breaker of
  threshold one goes from open to closed in the same instant, a transition the module's state
  diagram does not have.\<close>

theorem success_closes_open_breaker:
  "cb_state (record_failure t (breaker_init 1 r m)) = OPEN \<and>
   cb_run [Allow t, Allow t, Failure t, Success, Allow t] (breaker_init 1 r m) =
     (3, (breaker_init 1 r m)\<lparr>last_failure_time := t\<rparr>)"
  by (simp add: breaker_init_def step_simps)

end
