(* ===== verification/Py_Str.thy ===== *)
theory Py_Str
  imports Prelude
begin

text \<open>
  Python's \<^verbatim>\<open>str\<close> on integers and on lists of integers, which the KV cache hashes
  (\<^verbatim>\<open>str(token_ids)\<close>), and the string operations the HTTP layer uses
  (\<^verbatim>\<open>startswith\<close>, slicing, \<^verbatim>\<open>strip\<close>).  The lemmas show that distinct lists print differently.
\<close>

definition digit :: "nat \<Rightarrow> char" where
  "digit n = char_of (48 + n)"

fun str_nat :: "nat \<Rightarrow> string" where
  "str_nat n = (if n < 10 then [digit n] else str_nat (n div 10) @ [digit (n mod 10)])"

declare str_nat.simps [simp del]

definition str_int :: "int \<Rightarrow> string" where
  "str_int i = (if i < 0 then CHR ''-'' # str_nat (nat (- i)) else str_nat (nat i))"

fun join :: "string \<Rightarrow> string list \<Rightarrow> string" where
  "join sep [] = []"
| "join sep [x] = x"
| "join sep (x # y # zs) = x @ sep @ join sep (y # zs)"

definition str_int_list :: "int list \<Rightarrow> string" where
  "str_int_list ids = ''['' @ join '', '' (map str_int ids) @ '']''"

section \<open>Distinct integers print differently\<close>

definition nat_of_str :: "string \<Rightarrow> nat" where
  "nat_of_str = foldl (\<lambda>a c. 10 * a + (of_char c - 48)) 0"

lemma of_char_digit: "n < 10 \<Longrightarrow> of_char (digit n) = 48 + n"
  by (simp add: digit_def)

lemma nat_of_str_str_nat: "nat_of_str (str_nat n) = n"
proof (induction n rule: str_nat.induct)
  case (1 n)
  show ?case
  proof (cases "n < 10")
    case True
    then show ?thesis by (simp add: str_nat.simps [of n] nat_of_str_def of_char_digit)
  next
    case False
    with 1 have "nat_of_str (str_nat (n div 10)) = n div 10" by simp
    with False show ?thesis
      by (simp add: str_nat.simps [of n] nat_of_str_def of_char_digit)
  qed
qed

lemma set_str_nat: "set (str_nat n) \<subseteq> digit ` {..<10}"
proof (induction n rule: str_nat.induct)
  case (1 n)
  then show ?case by (subst str_nat.simps) auto
qed

lemma str_nat_nonempty: "str_nat n \<noteq> []"
  by (subst str_nat.simps) simp

lemma digit_not: "n < 10 \<Longrightarrow> of_char c < (48 :: nat) \<Longrightarrow> digit n \<noteq> c"
  using of_char_digit [of n] by auto

lemma str_nat_no_sep: "of_char c < (48 :: nat) \<Longrightarrow> c \<notin> set (str_nat n)"
  using set_str_nat [of n] digit_not [of _ c] by fastforce

lemma str_int_inject: "str_int i = str_int j \<longleftrightarrow> i = j"
proof
  assume eq: "str_int i = str_int j"
  have minus: "CHR ''-'' \<notin> set (str_nat n)" for n by (rule str_nat_no_sep) simp
  have "str_nat m \<noteq> CHR ''-'' # str_nat n" for m n
    using minus [of m] by (metis list.set_intros(1))
  moreover from this have "CHR ''-'' # str_nat n \<noteq> str_nat m" for m n by metis
  ultimately have neg: "i < 0 \<longleftrightarrow> j < 0" and "str_nat (nat \<bar>i\<bar>) = str_nat (nat \<bar>j\<bar>)"
    using eq by (auto simp: str_int_def split: if_splits)
  then have "nat \<bar>i\<bar> = nat \<bar>j\<bar>" by (metis nat_of_str_str_nat)
  with neg show "i = j" by linarith
qed simp

lemma str_int_no_comma: "CHR '','' \<notin> set (str_int i)"
  using str_nat_no_sep [of "CHR '',''"] by (auto simp: str_int_def)

lemma str_int_nonempty: "str_int i \<noteq> []"
  by (simp add: str_int_def str_nat_nonempty)

lemma append_sep_inject:
  assumes "x @ c # r = x' @ c # r'" and "c \<notin> set x" and "c \<notin> set x'"
  shows "x = x' \<and> r = r'"
  using assms
proof (induction x arbitrary: x')
  case Nil
  then show ?case by (cases x') auto
next
  case (Cons a x)
  then show ?case by (cases x') auto
qed

lemma join_Cons: "join sep (x # xs) = (if xs = [] then x else x @ sep @ join sep xs)"
  by (cases xs) auto

lemma join_inject:
  assumes "join '', '' xs = join '', '' ys"
    and "\<forall>x \<in> set xs. x \<noteq> [] \<and> CHR '','' \<notin> set x"
    and "\<forall>y \<in> set ys. y \<noteq> [] \<and> CHR '','' \<notin> set y"
  shows "xs = ys"
  using assms
proof (induction xs arbitrary: ys)
  case Nil
  then show ?case by (cases ys) (auto simp: join_Cons split: if_splits)
next
  case (Cons x xs)
  show ?case
  proof (cases ys)
    case Nil
    with Cons.prems show ?thesis by (auto simp: join_Cons split: if_splits)
  next
    case (Cons y ys')
    have "xs = [] \<longleftrightarrow> ys' = []"
      using Cons.prems Cons by (auto simp: join_Cons split: if_splits)
    moreover have "x = y \<and> join '', '' xs = join '', '' ys'" if "xs \<noteq> []" "ys' \<noteq> []"
    proof -
      have "x @ CHR '','' # CHR '' '' # join '', '' xs = y @ CHR '','' # CHR '' '' # join '', '' ys'"
        using Cons.prems Cons that by (simp add: join_Cons)
      from append_sep_inject [OF this] show ?thesis using Cons.prems Cons by simp
    qed
    ultimately show ?thesis
      using Cons.IH [of ys'] Cons.prems Cons by (cases "xs = []") auto
  qed
qed

lemma str_int_list_inject: "str_int_list xs = str_int_list ys \<longleftrightarrow> xs = ys"
proof
  assume "str_int_list xs = str_int_list ys"
  then have "join '', '' (map str_int xs) = join '', '' (map str_int ys)"
    by (simp add: str_int_list_def)
  then have "map str_int xs = map str_int ys"
    by (rule join_inject) (auto simp: str_int_no_comma str_int_nonempty)
  moreover have "inj str_int" by (simp add: inj_def str_int_inject)
  ultimately show "xs = ys" by (metis inj_map_eq_map)
qed simp

section \<open>Prefixes and stripping\<close>

fun startswith :: "string \<Rightarrow> string \<Rightarrow> bool" where
  "startswith s [] = True"
| "startswith [] (p # ps) = False"
| "startswith (c # s) (p # ps) = (c = p \<and> startswith s ps)"

lemma startswith_append: "startswith s p \<longleftrightarrow> (\<exists>r. s = p @ r)"
  by (induction s p rule: startswith.induct) auto

definition is_space :: "char \<Rightarrow> bool" where
  "is_space c \<longleftrightarrow> of_char c \<in> {9, 10, 11, 12, 13, 28, 29, 30, 31, 32 :: nat}"

definition strip :: "string \<Rightarrow> string" where
  "strip s = rev (dropWhile is_space (rev (dropWhile is_space s)))"

end
