(* ===== verification/KV_Cache.thy ===== *)
theory KV_Cache
  imports Float_Arith Py_Str "HOL-Library.Sublist"
begin

text \<open>
  \<^verbatim>\<open>core/kv_cache.py\<close>: the prefix KV cache with LRU eviction under a memory budget.  The
  \<^verbatim>\<open>OrderedDict\<close> is an association list, oldest entry first; \<^verbatim>\<open>hashlib.sha256(..).hexdigest()\<close>
  is the parameter \<open>sha\<close>; \<^verbatim>\<open>time.monotonic()\<close> is the argument \<open>now\<close>.  Every method holds the
  lock for its whole effect, so it is one atomic step.  \<^verbatim>\<open>put\<close> contains a loop that may run for
  ever, so it returns an option.
\<close>

section \<open>Data\<close>

text \<open>A tensor as \<^verbatim>\<open>_estimate_memory_bytes\<close> sees it: by the attributes it has.\<close>

datatype tensor = With_nbytes nat | With_elements nat nat | Opaque

datatype layer_kv = Tuple "tensor list" | Not_tuple

type_synonym past_kv = "layer_kv list"

record kv_entry =
  prefix_hash :: string
  past_key_values :: past_kv
  prefix_length :: int
  created_at :: float
  memory_bytes :: int

record kv_cache =
  max_memory_bytes :: int
  max_entries :: int
  cache :: "(string \<times> kv_entry) list"
  hit_count :: int
  miss_count :: int
  eviction_count :: int
  current_memory_bytes :: int

definition kv_init :: "int \<Rightarrow> int \<Rightarrow> kv_cache" where
  "kv_init budget entries =
     \<lparr>max_memory_bytes = budget, max_entries = entries, cache = [], hit_count = 0,
      miss_count = 0, eviction_count = 0, current_memory_bytes = 0\<rparr>"

section \<open>Helpers\<close>

definition compute_prefix_hash :: "(string \<Rightarrow> string) \<Rightarrow> int list \<Rightarrow> string" where
  "compute_prefix_hash sha token_ids = sha (str_int_list token_ids)"

fun tensor_bytes :: "tensor \<Rightarrow> int" where
  "tensor_bytes (With_nbytes n) = int n"
| "tensor_bytes (With_elements sz n) = int sz * int n"
| "tensor_bytes Opaque = 0"

fun layer_bytes :: "layer_kv \<Rightarrow> int" where
  "layer_bytes (Tuple ts) = sum_list (map tensor_bytes ts)"
| "layer_bytes Not_tuple = 0"

definition estimate_memory_bytes :: "past_kv \<Rightarrow> int" where
  "estimate_memory_bytes pkv = sum_list (map layer_bytes pkv)"

lemma estimate_memory_bytes_nonneg [simp]: "0 \<le> estimate_memory_bytes pkv"
proof -
  have "0 \<le> tensor_bytes t" for t by (cases t) auto
  then have "0 \<le> layer_bytes l" for l by (cases l) (auto intro: sum_list_nonneg_int)
  then show ?thesis by (simp add: estimate_memory_bytes_def sum_list_nonneg_int)
qed

text \<open>\<^verbatim>\<open>OrderedDict.move_to_end(key)\<close>.\<close>

definition move_to_end :: "'k \<Rightarrow> ('k \<times> 'v) list \<Rightarrow> ('k \<times> 'v) list" where
  "move_to_end k d = (case map_of d k of None \<Rightarrow> d | Some v \<Rightarrow> AList.delete k d @ [(k, v)])"

section \<open>Methods\<close>

definition kv_get :: "(string \<Rightarrow> string) \<Rightarrow> int list \<Rightarrow> kv_cache \<Rightarrow> kv_entry option \<times> kv_cache" where
  "kv_get sha ids c =
     (let h = compute_prefix_hash sha ids in
      case map_of (cache c) h of
        Some entry \<Rightarrow> (Some entry, c\<lparr>cache := move_to_end h (cache c), hit_count := hit_count c + 1\<rparr>)
      | None \<Rightarrow> (None, c\<lparr>miss_count := miss_count c + 1\<rparr>))"

definition evict_one_locked :: "kv_cache \<Rightarrow> int \<times> kv_cache" where
  "evict_one_locked c =
     (case cache c of
        [] \<Rightarrow> (0, c)
      | (h, entry) # rest \<Rightarrow>
          (memory_bytes entry,
           c\<lparr>cache := rest,
             current_memory_bytes := current_memory_bytes c - memory_bytes entry,
             eviction_count := eviction_count c + 1\<rparr>))"

lemma evict_one_cache [simp]: "cache (snd (evict_one_locked c)) = tl (cache c)"
  by (auto simp: evict_one_locked_def split: list.splits)

text \<open>The two eviction loops of \<^verbatim>\<open>put\<close>.  The second has no guard against an empty cache.\<close>

function evict_for_memory :: "int \<Rightarrow> kv_cache \<Rightarrow> kv_cache" where
  "evict_for_memory needed c =
     (if cache c \<noteq> [] \<and> max_memory_bytes c < current_memory_bytes c + needed
      then evict_for_memory needed (snd (evict_one_locked c)) else c)"
  by pat_completeness auto
termination
  by (relation "measure (\<lambda>(needed, c). length (cache c))") auto

partial_function (option) evict_for_entries :: "kv_cache \<Rightarrow> kv_cache option" where
  "evict_for_entries c =
     (if max_entries c \<le> int (length (cache c))
      then evict_for_entries (snd (evict_one_locked c)) else Some c)"

definition make_entry :: "string \<Rightarrow> int list \<Rightarrow> past_kv \<Rightarrow> float \<Rightarrow> kv_entry" where
  "make_entry h ids pkv now =
     \<lparr>prefix_hash = h, past_key_values = pkv, prefix_length = int (length ids),
      created_at = now, memory_bytes = estimate_memory_bytes pkv\<rparr>"

definition kv_put ::
  "(string \<Rightarrow> string) \<Rightarrow> int list \<Rightarrow> past_kv \<Rightarrow> float \<Rightarrow> kv_cache \<Rightarrow> kv_cache option" where
  "kv_put sha ids pkv now c =
     (let h = compute_prefix_hash sha ids; mem = estimate_memory_bytes pkv in
      if max_memory_bytes c < mem then Some c
      else
        let entry = make_entry h ids pkv now;
            c = (case map_of (cache c) h of
                   None \<Rightarrow> c
                 | Some old_entry \<Rightarrow>
                     c\<lparr>cache := AList.delete h (cache c),
                       current_memory_bytes := current_memory_bytes c - memory_bytes old_entry\<rparr>);
            c = evict_for_memory mem c
        in case evict_for_entries c of
             None \<Rightarrow> None
           | Some c \<Rightarrow>
               Some (c\<lparr>cache := AList.update h entry (cache c),
                       current_memory_bytes := current_memory_bytes c + mem\<rparr>))"

function evict_lru_loop :: "int \<Rightarrow> int \<Rightarrow> kv_cache \<Rightarrow> kv_cache" where
  "evict_lru_loop needed freed c =
     (if cache c \<noteq> [] \<and> freed < needed
      then evict_lru_loop needed (freed + fst (evict_one_locked c)) (snd (evict_one_locked c))
      else c)"
  by pat_completeness auto
termination
  by (relation "measure (\<lambda>(needed, freed, c). length (cache c))") auto

definition evict_lru :: "int \<Rightarrow> kv_cache \<Rightarrow> kv_cache" where
  "evict_lru needed_bytes c = evict_lru_loop needed_bytes 0 c"

record kv_stats =
  st_hit_count :: int
  st_miss_count :: int
  st_eviction_count :: int
  st_current_memory_bytes :: int
  st_num_entries :: int

definition kv_stats_of :: "kv_cache \<Rightarrow> kv_stats" where
  "kv_stats_of c =
     \<lparr>st_hit_count = hit_count c, st_miss_count = miss_count c,
      st_eviction_count = eviction_count c,
      st_current_memory_bytes = current_memory_bytes c,
      st_num_entries = int (length (cache c))\<rparr>"

definition kv_clear :: "kv_cache \<Rightarrow> kv_cache" where
  "kv_clear c = c\<lparr>cache := [], current_memory_bytes := 0\<rparr>"

declare evict_for_memory.simps [simp del] evict_lru_loop.simps [simp del]

section \<open>The invariant\<close>

definition mem_sum :: "(string \<times> kv_entry) list \<Rightarrow> int" where
  "mem_sum d = sum_list (map (memory_bytes \<circ> snd) d)"

definition entries_ok :: "(string \<times> kv_entry) list \<Rightarrow> bool" where
  "entries_ok d \<longleftrightarrow> distinct (keys d) \<and>
     (\<forall>(h, e) \<in> set d. prefix_hash e = h \<and> 0 \<le> memory_bytes e)"

definition kv_inv :: "kv_cache \<Rightarrow> bool" where
  "kv_inv c \<longleftrightarrow> entries_ok (cache c) \<and>
     current_memory_bytes c = mem_sum (cache c) \<and>
     mem_sum (cache c) \<le> max_memory_bytes c \<and>
     int (length (cache c)) \<le> max_entries c"

lemma mem_sum_simps [simp]:
  "mem_sum [] = 0" "mem_sum (x # d) = memory_bytes (snd x) + mem_sum d"
  "mem_sum (d @ d') = mem_sum d + mem_sum d'"
  by (simp_all add: mem_sum_def)

lemma entries_ok_Nil [simp]: "entries_ok []"
  by (simp add: entries_ok_def)

lemma entries_ok_Cons: "entries_ok ((h, e) # d) \<longleftrightarrow>
    h \<notin> set (keys d) \<and> prefix_hash e = h \<and> 0 \<le> memory_bytes e \<and> entries_ok d"
  by (auto simp: entries_ok_def)

lemma entries_ok_append1: "entries_ok (d @ [(h, e)]) \<longleftrightarrow>
    h \<notin> set (keys d) \<and> prefix_hash e = h \<and> 0 \<le> memory_bytes e \<and> entries_ok d"
  by (auto simp: entries_ok_def)

lemma entries_ok_tl: "entries_ok d \<Longrightarrow> entries_ok (tl d)"
  by (cases d) (auto simp: entries_ok_Cons)

lemma entries_ok_drop: "entries_ok d \<Longrightarrow> entries_ok (drop n d)"
  by (auto simp: entries_ok_def distinct_drop_keys dest: in_set_dropD)

lemma entries_ok_suffix: "suffix d' d \<Longrightarrow> entries_ok d \<Longrightarrow> entries_ok d'"
  by (auto simp: suffix_def entries_ok_def split_beta)

lemma entries_ok_delete: "entries_ok d \<Longrightarrow> entries_ok (AList.delete h d)"
  by (auto simp: entries_ok_def distinct_delete dest!: subsetD [OF set_delete_subset])

lemma entries_ok_nonneg: "entries_ok d \<Longrightarrow> 0 \<le> mem_sum d"
  by (auto simp: mem_sum_def entries_ok_def intro!: sum_list_nonneg_int)

lemma mem_sum_suffix: "suffix d' d \<Longrightarrow> entries_ok d \<Longrightarrow> mem_sum d' \<le> mem_sum d"
proof -
  assume "suffix d' d" and ok: "entries_ok d"
  then obtain zs where d: "d = zs @ d'" by (auto simp: suffix_def)
  with ok have "entries_ok zs" by (auto simp: entries_ok_def)
  with d show ?thesis using entries_ok_nonneg [of zs] by simp
qed

lemma mem_sum_delete:
  "entries_ok d \<Longrightarrow> map_of d h = Some e \<Longrightarrow> mem_sum (AList.delete h d) = mem_sum d - memory_bytes e"
  by (simp add: mem_sum_def entries_ok_def sum_list_delete)

lemma map_of_entry_ok:
  "entries_ok d \<Longrightarrow> map_of d h = Some e \<Longrightarrow> prefix_hash e = h \<and> 0 \<le> memory_bytes e"
  by (auto simp: entries_ok_def dest!: map_of_SomeD)

section \<open>The eviction loops against a reference\<close>

text \<open>
  The reference drops the oldest entry until the new one fits both limits.  The code reaches
  the same cache with two loops, one per limit.
\<close>

definition fits :: "int \<Rightarrow> int \<Rightarrow> int \<Rightarrow> (string \<times> kv_entry) list \<Rightarrow> bool" where
  "fits budget entries mem d \<longleftrightarrow> mem_sum d + mem \<le> budget \<and> int (length d) < entries"

fun lru_make_room ::
  "int \<Rightarrow> int \<Rightarrow> int \<Rightarrow> (string \<times> kv_entry) list \<Rightarrow> (string \<times> kv_entry) list" where
  "lru_make_room budget entries mem [] = []"
| "lru_make_room budget entries mem (x # d) =
     (if fits budget entries mem (x # d) then x # d else lru_make_room budget entries mem d)"

text \<open>A cache whose dictionary lost its oldest entries, with the counters to match.\<close>

definition evicted_to :: "kv_cache \<Rightarrow> (string \<times> kv_entry) list \<Rightarrow> kv_cache" where
  "evicted_to c d = c\<lparr>cache := d, current_memory_bytes := mem_sum d,
     eviction_count := eviction_count c + (int (length (cache c)) - int (length d))\<rparr>"

definition counted :: "kv_cache \<Rightarrow> bool" where
  "counted c \<longleftrightarrow> entries_ok (cache c) \<and> current_memory_bytes c = mem_sum (cache c)"

lemma evicted_to_sel [simp]:
  "cache (evicted_to c d) = d" "current_memory_bytes (evicted_to c d) = mem_sum d"
  "max_memory_bytes (evicted_to c d) = max_memory_bytes c"
  "max_entries (evicted_to c d) = max_entries c"
  by (simp_all add: evicted_to_def)

lemma evicted_to_self: "counted c \<Longrightarrow> evicted_to c (cache c) = c"
  by (simp add: evicted_to_def counted_def)

lemma evict_one_Cons:
  "counted c \<Longrightarrow> cache c = x # d \<Longrightarrow>
    evict_one_locked c = (memory_bytes (snd x), evicted_to c d)"
  by (cases x) (auto simp: evict_one_locked_def evicted_to_def counted_def)

lemma counted_evicted_to: "entries_ok d \<Longrightarrow> counted (evicted_to c d)"
  by (simp add: counted_def)

lemma evicted_to_twice [simp]: "evicted_to (evicted_to c d) d' = evicted_to c d'"
  by (simp add: evicted_to_def)

lemma evict_for_memory_fits:
  "mem_sum (cache c) + mem \<le> max_memory_bytes c \<Longrightarrow> counted c \<Longrightarrow> evict_for_memory mem c = c"
  by (subst evict_for_memory.simps) (simp add: counted_def)

lemma lru_make_room_suffix: "suffix (lru_make_room budget entries mem d) d"
  by (induction d) (auto intro: suffix_ConsI)

lemma lru_make_room_fits:
  "mem \<le> budget \<Longrightarrow> 1 \<le> entries \<Longrightarrow> fits budget entries mem (lru_make_room budget entries mem d)"
  by (induction d) (auto simp: fits_def)

text \<open>The loops together compute the reference.\<close>

lemma evict_loops_reference:
  assumes "counted c" and "mem \<le> max_memory_bytes c" and "1 \<le> max_entries c"
  shows "evict_for_entries (evict_for_memory mem c) =
    Some (evicted_to c (lru_make_room (max_memory_bytes c) (max_entries c) mem (cache c)))"
  using assms
proof (induction "cache c" arbitrary: c)
  case Nil
  then have "evict_for_memory mem c = c" by (simp add: evict_for_memory_fits flip: Nil.hyps)
  moreover have "evict_for_entries c = Some c"
    using Nil by (subst evict_for_entries.simps) (simp flip: Nil.hyps)
  ultimately show ?case using Nil evicted_to_self [of c] by simp
next
  case (Cons x d)
  let ?c = "evicted_to c d"
  have ok: "counted ?c" "snd (evict_one_locked c) = ?c" "0 \<le> memory_bytes (snd x)"
    using Cons.prems Cons.hyps(2)
    by (auto simp: counted_def entries_ok_Cons evict_one_Cons dest: sym [of "x # d"])
      (metis entries_ok_Cons prod.collapse)+
  have IH: "evict_for_entries (evict_for_memory mem ?c) =
      Some (evicted_to c (lru_make_room (max_memory_bytes c) (max_entries c) mem d))"
    using Cons.hyps(1) [of ?c] Cons.prems ok by simp
  have cc: "cache c = x # d" and cur: "current_memory_bytes c = mem_sum (cache c)"
    using Cons by (auto simp: counted_def)
  show ?case
  proof (cases "mem_sum (x # d) + mem \<le> max_memory_bytes c")
    case False
    then have "evict_for_memory mem c = evict_for_memory mem ?c"
      using cc cur ok(2) by (subst evict_for_memory.simps) simp
    with False IH cc show ?thesis by (simp add: fits_def)
  next
    case True
    then have "mem_sum d + mem \<le> max_memory_bytes c" using ok(3) by simp
    then have m: "evict_for_memory mem c = c" "evict_for_memory mem ?c = ?c"
      using True Cons.prems cc ok(1) by (simp_all add: evict_for_memory_fits)
    show ?thesis
    proof (cases "int (length (x # d)) < max_entries c")
      case True
      then have "evict_for_entries c = Some c"
        using cc by (subst evict_for_entries.simps) simp
      with True \<open>mem_sum (x # d) + mem \<le> _\<close> m cc Cons.prems(1) show ?thesis
        using evicted_to_self [of c] by (simp add: fits_def)
    next
      case False
      then have "evict_for_entries c = evict_for_entries ?c"
        using cc ok(2) by (subst evict_for_entries.simps) simp
      with False IH m cc show ?thesis by (simp add: fits_def)
    qed
  qed
qed

lemma kv_inv_counted: "kv_inv c \<Longrightarrow> counted c"
  by (simp add: kv_inv_def counted_def)

text \<open>\<^verbatim>\<open>put\<close> in closed form.\<close>

definition put_result :: "string \<Rightarrow> kv_entry \<Rightarrow> kv_cache \<Rightarrow> kv_cache" where
  "put_result h entry c =
     (let d = AList.delete h (cache c);
          r = lru_make_room (max_memory_bytes c) (max_entries c) (memory_bytes entry) d
      in c\<lparr>cache := r @ [(h, entry)], current_memory_bytes := mem_sum r + memory_bytes entry,
           eviction_count := eviction_count c + (int (length d) - int (length r))\<rparr>)"

lemma make_entry_sel [simp]:
  "memory_bytes (make_entry h ids pkv now) = estimate_memory_bytes pkv"
  "prefix_hash (make_entry h ids pkv now) = h"
  "past_key_values (make_entry h ids pkv now) = pkv"
  "prefix_length (make_entry h ids pkv now) = int (length ids)"
  by (simp_all add: make_entry_def)

lemma kv_put_eq:
  assumes "counted c" and "1 \<le> max_entries c"
  shows "kv_put sha ids pkv now c =
    Some (if max_memory_bytes c < estimate_memory_bytes pkv then c
      else put_result (compute_prefix_hash sha ids)
        (make_entry (compute_prefix_hash sha ids) ids pkv now) c)"
proof (cases "max_memory_bytes c < estimate_memory_bytes pkv")
  case False
  let ?h = "compute_prefix_hash sha ids" and ?mem = "estimate_memory_bytes pkv"
  define c1 where "c1 = (case map_of (cache c) ?h of None \<Rightarrow> c | Some old_entry \<Rightarrow>
      c\<lparr>cache := AList.delete ?h (cache c),
        current_memory_bytes := current_memory_bytes c - memory_bytes old_entry\<rparr>)"
  have c1: "c1 = c\<lparr>cache := AList.delete ?h (cache c),
      current_memory_bytes := mem_sum (AList.delete ?h (cache c))\<rparr>"
    using assms(1)
    by (auto simp: c1_def counted_def delete_notin map_of_eq_None_iff mem_sum_delete
        split: option.splits)
  then have "counted c1"
    using assms(1) by (simp add: counted_def entries_ok_delete)
  from evict_loops_reference [OF this, of ?mem] False assms(2)
  have loops: "evict_for_entries (evict_for_memory ?mem c1) =
      Some (evicted_to c1 (lru_make_room (max_memory_bytes c) (max_entries c) ?mem
        (AList.delete ?h (cache c))))"
    by (simp add: c1)
  let ?r = "lru_make_room (max_memory_bytes c) (max_entries c) ?mem (AList.delete ?h (cache c))"
  have "set ?r \<subseteq> set (AList.delete ?h (cache c))"
    by (rule set_mono_suffix) (rule lru_make_room_suffix)
  then have "?h \<notin> set (keys ?r)" by (auto simp: AList.delete_eq)
  with loops False show ?thesis
    unfolding kv_put_def Let_def c1_def [symmetric]
    by (simp add: update_fresh put_result_def evicted_to_def c1 Let_def)
qed (simp add: kv_put_def)

section \<open>Every method keeps the invariant\<close>

lemma kv_inv_init [inv_intros]: "0 \<le> budget \<Longrightarrow> 0 \<le> entries \<Longrightarrow> kv_inv (kv_init budget entries)"
  by (simp add: kv_inv_def kv_init_def)

lemma kv_inv_evicted_to:
  assumes "kv_inv c" and "suffix d (cache c)"
  shows "kv_inv (evicted_to c d)"
proof -
  have "mem_sum d \<le> mem_sum (cache c)" "entries_ok d" "length d \<le> length (cache c)"
    using assms by (auto simp: kv_inv_def mem_sum_suffix suffix_length_le intro: entries_ok_suffix)
  with assms(1) show ?thesis by (simp add: kv_inv_def)
qed

lemma put_result_inv:
  assumes "kv_inv c" and "prefix_hash e = h" and "0 \<le> memory_bytes e"
    and "memory_bytes e \<le> max_memory_bytes c" and "1 \<le> max_entries c"
  shows "kv_inv (put_result h e c)"
proof -
  let ?d = "AList.delete h (cache c)"
  let ?r = "lru_make_room (max_memory_bytes c) (max_entries c) (memory_bytes e) ?d"
  have "fits (max_memory_bytes c) (max_entries c) (memory_bytes e) ?r"
    using assms by (intro lru_make_room_fits)
  moreover have suf: "suffix ?r ?d" by (rule lru_make_room_suffix)
  moreover have "entries_ok ?r"
    using entries_ok_suffix [OF suf] assms(1) by (simp add: kv_inv_def entries_ok_delete)
  moreover have "h \<notin> set (keys ?r)"
    using set_mono_suffix [OF suf] by (auto simp: AList.delete_eq)
  ultimately show ?thesis
    using assms by (simp add: put_result_def kv_inv_def fits_def entries_ok_append1 Let_def)
qed

text \<open>With no entry allowed, the second loop of \<^verbatim>\<open>put\<close> never ends.\<close>

lemma evict_for_entries_diverges:
  assumes "max_entries c \<le> 0"
  shows "evict_for_entries c = None"
proof (rule ccontr)
  assume "evict_for_entries c \<noteq> None"
  then obtain r where ret: "evict_for_entries c = Some r" by blast
  have "max_entries c \<le> 0 \<longrightarrow> False"
  proof (rule evict_for_entries.raw_induct [where P = "\<lambda>c r. max_entries c \<le> 0 \<longrightarrow> False", OF _ ret])
    fix f :: "kv_cache \<Rightarrow> kv_cache option" and c r
    assume IH: "\<And>c r. f c = Some r \<Longrightarrow> max_entries c \<le> 0 \<longrightarrow> False"
      and eq: "(if max_entries c \<le> int (length (cache c))
        then f (snd (evict_one_locked c)) else Some c) = Some r"
    have "max_entries (snd (evict_one_locked c)) = max_entries c"
      by (auto simp: evict_one_locked_def split: list.splits)
    with IH [of "snd (evict_one_locked c)" r] eq show "max_entries c \<le> 0 \<longrightarrow> False"
      by (auto split: if_splits)
  qed
  with assms show False by blast
qed

lemma evict_for_memory_config [simp]: "max_entries (evict_for_memory mem c) = max_entries c"
proof (induction mem c rule: evict_for_memory.induct)
  case (1 mem c)
  have "max_entries (snd (evict_one_locked c)) = max_entries c"
    by (auto simp: evict_one_locked_def split: list.splits)
  with 1 show ?case by (subst evict_for_memory.simps) auto
qed

lemma kv_put_diverges:
  assumes "max_entries c \<le> 0" and "estimate_memory_bytes pkv \<le> max_memory_bytes c"
  shows "kv_put sha ids pkv now c = None"
  using assms by (auto simp: kv_put_def Let_def evict_for_entries_diverges split: option.splits)

lemma kv_put_inv [inv_intros]:
  assumes "kv_inv c" and put: "kv_put sha ids pkv now c = Some c'"
  shows "kv_inv c'"
proof -
  consider "max_memory_bytes c < estimate_memory_bytes pkv"
    | "estimate_memory_bytes pkv \<le> max_memory_bytes c" "1 \<le> max_entries c"
    | "estimate_memory_bytes pkv \<le> max_memory_bytes c" "max_entries c \<le> 0"
    by linarith
  then show ?thesis
  proof cases
    case 1
    with assms show ?thesis by (simp add: kv_put_def)
  next
    case 2
    with assms(1) put show ?thesis
      by (auto simp: kv_put_eq kv_inv_counted intro!: put_result_inv)
  next
    case 3
    with put show ?thesis by (simp add: kv_put_diverges)
  qed
qed

lemma move_to_end_hit:
  "map_of d h = Some e \<Longrightarrow> move_to_end h d = AList.delete h d @ [(h, e)]"
  by (simp add: move_to_end_def)

lemma kv_get_inv [inv_intros]:
  assumes "kv_inv c"
  shows "kv_inv (snd (kv_get sha ids c))"
proof (cases "map_of (cache c) (compute_prefix_hash sha ids)")
  case (Some e)
  let ?h = "compute_prefix_hash sha ids"
  have ok: "entries_ok (cache c)" "prefix_hash e = ?h" "0 \<le> memory_bytes e"
    using assms Some map_of_entry_ok by (auto simp: kv_inv_def)
  have "Suc (length (AList.delete ?h (cache c))) = length (cache c)"
    by (rule length_delete_in [OF _ map_of_key [OF Some]]) (use ok in \<open>simp add: entries_ok_def\<close>)
  with assms ok Some show ?thesis
    by (auto simp: kv_get_def Let_def kv_inv_def move_to_end_hit entries_ok_append1
        entries_ok_delete mem_sum_delete)
qed (use assms in \<open>simp add: kv_get_def Let_def kv_inv_def\<close>)

lemma kv_clear_inv [inv_intros]: "kv_inv c \<Longrightarrow> kv_inv (kv_clear c)"
  by (auto simp: kv_inv_def kv_clear_def dest: entries_ok_nonneg)

text \<open>\<^verbatim>\<open>evict_lru\<close> drops the shortest front part that frees what is asked, or everything.\<close>

fun lru_free :: "int \<Rightarrow> (string \<times> kv_entry) list \<Rightarrow> (string \<times> kv_entry) list" where
  "lru_free needed [] = []"
| "lru_free needed (x # d) =
     (if needed \<le> 0 then x # d else lru_free (needed - memory_bytes (snd x)) d)"

lemma lru_free_suffix: "suffix (lru_free needed d) d"
  by (induction needed d rule: lru_free.induct) (auto intro: suffix_ConsI)

lemma evict_lru_loop_eq:
  "counted c \<Longrightarrow> evict_lru_loop needed freed c = evicted_to c (lru_free (needed - freed) (cache c))"
proof (induction "cache c" arbitrary: c freed)
  case Nil
  then show ?case
    using evicted_to_self [of c] by (subst evict_lru_loop.simps) (simp flip: Nil.hyps)
next
  case (Cons x d)
  have cc: "cache c = x # d" using Cons by simp
  have ok: "counted (evicted_to c d)"
    using Cons.prems cc by (cases x) (auto simp: counted_def entries_ok_Cons)
  have "evict_lru_loop needed freed c =
      (if freed < needed then evict_lru_loop needed (freed + memory_bytes (snd x)) (evicted_to c d)
       else c)"
    using Cons.prems cc by (subst evict_lru_loop.simps) (simp add: evict_one_Cons)
  with Cons.hyps(1) [of "evicted_to c d"] ok cc show ?case
    using evicted_to_self [OF Cons.prems] by (auto simp: algebra_simps)
qed

lemma evict_lru_eq: "counted c \<Longrightarrow> evict_lru needed c = evicted_to c (lru_free needed (cache c))"
  by (simp add: evict_lru_def evict_lru_loop_eq)

lemma evict_lru_inv [inv_intros]: "kv_inv c \<Longrightarrow> kv_inv (evict_lru needed c)"
  by (simp add: evict_lru_eq kv_inv_counted kv_inv_evicted_to lru_free_suffix)

lemma lru_free_enough:
  "entries_ok d \<Longrightarrow> mem_sum (lru_free needed d) \<le> max 0 (mem_sum d - needed)"
  by (induction needed d rule: lru_free.induct) (auto simp: entries_ok_Cons)

section \<open>The contract of an evictable cache\<close>

text \<open>
  What the memory-pressure handler relies on (\<^verbatim>\<open>profiler/pressure.py\<close> calls \<^verbatim>\<open>stats\<close>,
  \<^verbatim>\<open>evict_lru\<close> and \<^verbatim>\<open>clear\<close>): the reported memory is not negative, eviction frees what is asked
  or everything and never adds, and clearing leaves nothing.
\<close>

locale evictable =
  fixes used :: "'c \<Rightarrow> int"
    and evict :: "int \<Rightarrow> 'c \<Rightarrow> 'c"
    and wipe :: "'c \<Rightarrow> 'c"
    and invar :: "'c \<Rightarrow> bool"
  assumes used_nonneg: "invar c \<Longrightarrow> 0 \<le> used c"
    and evict_frees: "invar c \<Longrightarrow> used (evict n c) \<le> max 0 (used c - n)"
    and evict_shrinks: "invar c \<Longrightarrow> used (evict n c) \<le> used c"
    and wipe_empties: "invar c \<Longrightarrow> used (wipe c) = 0"
    and invar_evict: "invar c \<Longrightarrow> invar (evict n c)"
    and invar_wipe: "invar c \<Longrightarrow> invar (wipe c)"
begin

lemma evict_all: "invar c \<Longrightarrow> used c \<le> n \<Longrightarrow> used (evict n c) = 0"
  using evict_frees [of c n] used_nonneg [of "evict n c"] by (simp add: invar_evict)

lemma evict_share: "invar c \<Longrightarrow> 0 \<le> n \<Longrightarrow> n \<le> used c \<Longrightarrow> used (evict n c) \<le> used c - n"
  using evict_frees [of c n] by simp

end

interpretation kvc: evictable "\<lambda>c. st_current_memory_bytes (kv_stats_of c)" evict_lru kv_clear kv_inv
proof
  fix c :: kv_cache and n :: int
  assume inv: "kv_inv c"
  then have ok: "entries_ok (cache c)" and cnt: "counted c"
    by (simp_all add: kv_inv_def kv_inv_counted)
  show "0 \<le> st_current_memory_bytes (kv_stats_of c)"
    using inv ok by (simp add: kv_stats_of_def kv_inv_def entries_ok_nonneg)
  show frees: "st_current_memory_bytes (kv_stats_of (evict_lru n c))
      \<le> max 0 (st_current_memory_bytes (kv_stats_of c) - n)"
    using lru_free_enough [OF ok, of n] inv cnt by (simp add: kv_stats_of_def evict_lru_eq kv_inv_def)
  have "mem_sum (lru_free n (cache c)) \<le> mem_sum (cache c)"
    by (rule mem_sum_suffix) (use ok lru_free_suffix in simp_all)
  then show "st_current_memory_bytes (kv_stats_of (evict_lru n c))
      \<le> st_current_memory_bytes (kv_stats_of c)"
    using inv cnt by (simp add: kv_stats_of_def evict_lru_eq kv_inv_def)
  show "kv_inv (evict_lru n c)" "kv_inv (kv_clear c)"
    using inv by (auto intro: inv_intros)
  show "st_current_memory_bytes (kv_stats_of (kv_clear c)) = 0"
    by (simp add: kv_stats_of_def kv_clear_def)
qed

section \<open>Runs and recency\<close>

datatype kv_op = Get "int list" | Put "int list" past_kv float | Evict int | Clear

fun kv_step :: "(string \<Rightarrow> string) \<Rightarrow> kv_op \<Rightarrow> kv_cache \<Rightarrow> kv_cache option" where
  "kv_step sha (Get ids) c = Some (snd (kv_get sha ids c))"
| "kv_step sha (Put ids pkv now) c = kv_put sha ids pkv now c"
| "kv_step sha (Evict n) c = Some (evict_lru n c)"
| "kv_step sha Clear c = Some (kv_clear c)"

text \<open>The key an operation uses, if any: a hit, or a stored entry.\<close>

fun key_used :: "(string \<Rightarrow> string) \<Rightarrow> kv_op \<Rightarrow> kv_cache \<Rightarrow> string list" where
  "key_used sha (Get ids) c =
     (let h = compute_prefix_hash sha ids in if h \<in> set (keys (cache c)) then [h] else [])"
| "key_used sha (Put ids pkv now) c =
     (if max_memory_bytes c < estimate_memory_bytes pkv then [] else [compute_prefix_hash sha ids])"
| "key_used sha _ c = []"

inductive kv_reachable ::
  "(string \<Rightarrow> string) \<Rightarrow> int \<Rightarrow> int \<Rightarrow> string list \<Rightarrow> kv_cache \<Rightarrow> bool"
  for sha :: "string \<Rightarrow> string" and budget :: int and entries :: int where
  init: "kv_reachable sha budget entries [] (kv_init budget entries)"
| step: "kv_reachable sha budget entries us c \<Longrightarrow> kv_step sha opn c = Some c' \<Longrightarrow>
     kv_reachable sha budget entries (us @ key_used sha opn c) c'"

definition recent :: "string list \<Rightarrow> kv_cache \<Rightarrow> bool" where
  "recent us c \<longleftrightarrow> suffix (keys (cache c)) (remdups us)"

lemma suffix_snoc_use:
  "suffix ks (remdups us) \<Longrightarrow> suffix (removeAll h ks @ [h]) (remdups (us @ [h]))"
  by (auto simp: remdups_snoc suffix_def)

lemma suffix_keys: "suffix d' d \<Longrightarrow> suffix (keys d') (keys d)"
  by (auto simp: suffix_def)

lemma suffix_append_same: "suffix xs ys \<Longrightarrow> suffix (xs @ zs) (ys @ zs)"
  by (auto simp: suffix_def)

lemma put_result_recent:
  assumes "recent us c"
  shows "recent (us @ [h]) (put_result h e c)"
proof -
  let ?d = "AList.delete h (cache c)"
  let ?r = "lru_make_room (max_memory_bytes c) (max_entries c) (memory_bytes e) ?d"
  have "suffix (keys ?r @ [h]) (keys ?d @ [h])"
    by (intro suffix_append_same suffix_keys lru_make_room_suffix)
  also have "suffix (keys ?d @ [h]) (remdups (us @ [h]))"
    using assms by (simp add: recent_def keys_delete suffix_snoc_use)
  finally show ?thesis by (simp add: recent_def put_result_def Let_def)
qed

lemma kv_put_Some_cases:
  assumes "counted c" and "kv_put sha ids pkv now c = Some c'"
  obtains "max_memory_bytes c < estimate_memory_bytes pkv" "c' = c"
  | "estimate_memory_bytes pkv \<le> max_memory_bytes c"
    "c' = put_result (compute_prefix_hash sha ids)
      (make_entry (compute_prefix_hash sha ids) ids pkv now) c"
proof (cases "max_memory_bytes c < estimate_memory_bytes pkv")
  case True
  with assms(2) have "c' = c" by (simp add: kv_put_def)
  with True show ?thesis by (rule that(1))
next
  case False
  then have le: "estimate_memory_bytes pkv \<le> max_memory_bytes c" by simp
  then have "1 \<le> max_entries c"
    using assms(2) kv_put_diverges [of c pkv sha ids now] by (cases "1 \<le> max_entries c") auto
  from kv_put_eq [OF assms(1) this, of sha ids pkv now] False assms(2)
  have "c' = put_result (compute_prefix_hash sha ids)
      (make_entry (compute_prefix_hash sha ids) ids pkv now) c" by simp
  with le show ?thesis by (rule that(2))
qed

lemma kv_step_inv_recent:
  assumes "kv_inv c" and "recent us c" and "kv_step sha opn c = Some c'"
  shows "kv_inv c' \<and> recent (us @ key_used sha opn c) c'"
proof (cases opn)
  case (Get ids)
  let ?h = "compute_prefix_hash sha ids"
  have "recent (us @ key_used sha opn c) c'"
  proof (cases "map_of (cache c) ?h")
    case None
    with Get assms show ?thesis
      by (auto simp: kv_get_def Let_def recent_def map_of_eq_None_iff)
  next
    case (Some e)
    with Get assms show ?thesis
      using suffix_snoc_use [of "keys (cache c)" us ?h]
      by (auto simp: kv_get_def Let_def recent_def move_to_end_hit keys_delete dest: map_of_key)
  qed
  with Get assms show ?thesis by (auto intro: inv_intros)
next
  case (Put ids pkv now)
  with assms have "kv_inv c'" by (auto intro: inv_intros)
  with Put assms show ?thesis
    by (auto elim!: kv_put_Some_cases [OF kv_inv_counted] intro: put_result_recent)
next
  case (Evict n)
  with assms show ?thesis
    using suffix_keys [OF lru_free_suffix [of n "cache c"]]
    by (auto simp: evict_lru_eq kv_inv_counted recent_def intro: inv_intros kv_inv_evicted_to
        lru_free_suffix suffix_order.trans)
next
  case Clear
  with assms show ?thesis
    using kv_clear_inv [OF assms(1)] by (auto simp: recent_def kv_clear_def)
qed

lemma kv_reachable_inv_recent:
  assumes "kv_reachable sha budget entries us c" and "0 \<le> budget" and "0 \<le> entries"
  shows "kv_inv c \<and> recent us c"
  using assms
proof (induction rule: kv_reachable.induct)
  case init
  then show ?case by (simp add: recent_def kv_init_def kv_inv_def)
next
  case (step us c opn c')
  then show ?case using kv_step_inv_recent by blast
qed

lemma kv_step_config:
  assumes "kv_step sha opn c = Some c'" and "kv_inv c"
  shows "max_memory_bytes c' = max_memory_bytes c \<and> max_entries c' = max_entries c"
  using assms
  by (cases opn) (auto simp: kv_get_def Let_def evict_lru_eq kv_clear_def put_result_def
      kv_inv_counted elim!: kv_put_Some_cases [OF kv_inv_counted] split: option.splits)

lemma kv_reachable_config:
  assumes "kv_reachable sha budget entries us c" and "0 \<le> budget" and "0 \<le> entries"
  shows "max_memory_bytes c = budget \<and> max_entries c = entries"
  using assms
proof (induction rule: kv_reachable.induct)
  case init
  then show ?case by (simp add: kv_init_def)
next
  case (step us c opn c')
  have "kv_inv c" using kv_reachable_inv_recent step by blast
  with step kv_step_config show ?case by metis
qed

lemma put_result_lookup:
  assumes "map_of (cache (put_result h e c)) h' = Some x" and "h' \<noteq> h" and "kv_inv c"
  shows "map_of (cache c) h' = Some x"
proof -
  let ?d = "AList.delete h (cache c)"
  let ?r = "lru_make_room (max_memory_bytes c) (max_entries c) (memory_bytes e) ?d"
  have "(h', x) \<in> set ?r"
    using assms by (auto simp: put_result_def Let_def split: option.splits dest!: map_of_SomeD)
  then have "(h', x) \<in> set (cache c)"
    using set_mono_suffix [OF lru_make_room_suffix] by fastforce
  with assms(3) show ?thesis by (simp add: kv_inv_def entries_ok_def)
qed

lemma put_result_same:
  assumes "kv_inv c"
  shows "map_of (cache (put_result h e c)) h = Some e"
proof -
  let ?d = "AList.delete h (cache c)"
  have "h \<notin> set (keys (lru_make_room (max_memory_bytes c) (max_entries c) (memory_bytes e) ?d))"
    using set_mono_suffix [OF lru_make_room_suffix, of "max_memory_bytes c" "max_entries c"
        "memory_bytes e" ?d] by auto
  then show ?thesis
    by (auto simp: put_result_def Let_def map_add_def map_of_eq_None_iff split: option.splits
        dest!: map_of_key)
qed

section \<open>Properties\<close>

text \<open>C31: In every state that a cache with non-negative limits reaches by any sequence of gets, puts,
  evictions and clears, the tracked memory is the sum over the entries and within the budget, the number of entries is
  within the maximum, and every entry is stored once, under its own hash.\<close>

theorem kv_cache_within_limits:
  assumes "kv_reachable sha budget entries us c" and "0 \<le> budget" and "0 \<le> entries"
  shows "let s = kv_stats_of c in
    st_current_memory_bytes s = (\<Sum>x \<leftarrow> cache c. memory_bytes (snd x)) \<and>
    st_current_memory_bytes s \<le> budget \<and> st_num_entries s \<le> entries \<and>
    distinct (keys (cache c)) \<and> (\<forall>(h, e) \<in> set (cache c). prefix_hash e = h)"
proof -
  have "kv_inv c" and "max_memory_bytes c = budget" and "max_entries c = entries"
    using kv_reachable_inv_recent [OF assms] kv_reachable_config [OF assms] by auto
  then show ?thesis
    by (auto simp: kv_inv_def kv_stats_of_def entries_ok_def mem_sum_def Let_def split_beta comp_def)
qed

theorem kv_cache_within_limits_witness:
  "st_current_memory_bytes (kv_stats_of (put_result ''[1]'' (make_entry ''[1]'' [1]
     [Tuple [With_nbytes 40]] 7) (kv_init 100 2))) \<le> 100"
proof -
  let ?c = "kv_init 100 2" and ?pkv = "[Tuple [With_nbytes 40]]"
  have h: "compute_prefix_hash id [1] = ''[1]''"
    by (simp add: compute_prefix_hash_def str_int_list_def str_int_def str_nat.simps digit_def
        char_of_def bit_iff_odd)
  have "counted ?c" by (simp add: kv_init_def counted_def)
  from kv_put_eq [OF this, of id "[1]" ?pkv 7]
  have "kv_step id (Put [1] ?pkv 7) ?c =
      Some (put_result ''[1]'' (make_entry ''[1]'' [1] ?pkv 7) ?c)"
    by (simp add: h kv_init_def estimate_memory_bytes_def)
  from kv_reachable.step [OF kv_reachable.init this] show ?thesis
    by (auto dest!: kv_cache_within_limits simp: Let_def)
qed

text \<open>C22: \<^verbatim>\<open>put\<close> is LRU eviction: with room for at least one entry it returns, an oversized entry
  leaves the cache as it was, and any other is stored as most recent after dropping a previous
  entry of the same prefix and then oldest entries, one at a time, until both the memory budget
  and the entry count admit it.\<close>

theorem kv_put_is_lru:
  assumes "kv_inv c" and "1 \<le> max_entries c"
  shows "\<exists>c'. kv_put sha ids pkv now c = Some c' \<and>
    (let h = compute_prefix_hash sha ids; mem = estimate_memory_bytes pkv;
         room = lru_make_room (max_memory_bytes c) (max_entries c) mem (AList.delete h (cache c))
     in if max_memory_bytes c < mem then c' = c
        else cache c' = room @ [(h, make_entry h ids pkv now)] \<and>
          current_memory_bytes c' = mem_sum room + mem \<and>
          hit_count c' = hit_count c \<and> miss_count c' = miss_count c)"
  using kv_put_eq [OF kv_inv_counted [OF assms(1)] assms(2), of sha ids pkv now]
  by (simp add: put_result_def Let_def)

theorem kv_put_is_lru_witness:
  "\<exists>c'. kv_put id [5] [Tuple [With_elements 2 8]] 3 (kv_init 20 1) = Some c' \<and>
     current_memory_bytes c' = 16"
proof -
  have "kv_inv (kv_init 20 1)" "1 \<le> max_entries (kv_init 20 1)"
    by (simp_all add: inv_intros) (simp add: kv_init_def)
  from kv_put_is_lru [OF this, of id "[5]" "[Tuple [With_elements 2 8]]" 3]
  show ?thesis by (auto simp: Let_def kv_init_def estimate_memory_bytes_def)
qed

text \<open>C11: The cache holds exactly the most recently used prefixes: in every reachable state its
  keys, oldest first, are a final segment of the keys ordered by their last use, where a hit and
  a stored entry are uses.\<close>

theorem kv_cache_keeps_most_recent:
  assumes "kv_reachable sha budget entries us c" and "0 \<le> budget" and "0 \<le> entries"
  shows "suffix (keys (cache c)) (remdups us)"
  using kv_reachable_inv_recent [OF assms] by (simp add: recent_def)

theorem kv_cache_keeps_most_recent_witness:
  "suffix (keys (cache (put_result ''a'' (make_entry ''a'' [1] [] 0) (kv_init 9 1)))) [''a'']"
proof -
  let ?c = "kv_init 9 1" and ?sha = "\<lambda>_. ''a''"
  have h: "compute_prefix_hash ?sha [1] = ''a''" by (simp add: compute_prefix_hash_def)
  have "counted ?c" by (simp add: kv_init_def counted_def)
  from kv_put_eq [OF this, of ?sha "[1]" "[]" 0]
  have "kv_step ?sha (Put [1] [] 0) ?c = Some (put_result ''a'' (make_entry ''a'' [1] [] 0) ?c)"
    by (simp add: h kv_init_def estimate_memory_bytes_def)
  from kv_cache_keeps_most_recent [OF kv_reachable.step [OF kv_reachable.init this]]
  show ?thesis by (simp add: h kv_init_def estimate_memory_bytes_def)
qed

text \<open>After a prefix was stored, looking it up hits and returns the stored key-value state and
  the prefix's length; any other prefix whose hash differs finds what it found before or is a
  miss, never another prefix's entry.\<close>

theorem kv_get_after_put:
  assumes "kv_inv c" and "1 \<le> max_entries c" and "estimate_memory_bytes pkv \<le> max_memory_bytes c"
    and "kv_put sha ids pkv now c = Some c'"
  shows "(\<exists>e. fst (kv_get sha ids c') = Some e \<and> past_key_values e = pkv \<and>
      prefix_length e = int (length ids)) \<and>
    (\<forall>ids' e. ids' \<noteq> ids \<and> inj_on sha {str_int_list ids, str_int_list ids'} \<and>
       fst (kv_get sha ids' c') = Some e \<longrightarrow> fst (kv_get sha ids' c) = Some e)"
proof -
  let ?h = "compute_prefix_hash sha ids"
  have c': "c' = put_result ?h (make_entry ?h ids pkv now) c"
    using kv_put_eq [OF kv_inv_counted [OF assms(1)] assms(2), of sha ids pkv now] assms(3,4) by simp
  have other: "map_of (cache c) (compute_prefix_hash sha ids') = Some e"
    if "ids' \<noteq> ids" "inj_on sha {str_int_list ids, str_int_list ids'}"
      "map_of (cache c') (compute_prefix_hash sha ids') = Some e" for ids' e
  proof (rule put_result_lookup [OF _ _ assms(1)])
    show "map_of (cache (put_result ?h (make_entry ?h ids pkv now) c))
        (compute_prefix_hash sha ids') = Some e"
      using that(3) by (simp add: c')
    show "compute_prefix_hash sha ids' \<noteq> ?h"
      using that by (auto simp: compute_prefix_hash_def inj_on_def str_int_list_inject)
  qed
  have fst_get: "fst (kv_get sha ids c) = map_of (cache c) (compute_prefix_hash sha ids)" for ids c
    by (simp add: kv_get_def Let_def split: option.splits)
  from other put_result_same [OF assms(1)] show ?thesis by (simp add: fst_get c')
qed

theorem kv_get_after_put_witness:
  "\<exists>c' e. kv_put id [5] [] 3 (kv_init 20 1) = Some c' \<and> fst (kv_get id [5] c') = Some e \<and>
     prefix_length e = 1"
proof -
  have inv: "kv_inv (kv_init 20 1)" and m: "1 \<le> max_entries (kv_init 20 1)"
    and b: "estimate_memory_bytes [] \<le> max_memory_bytes (kv_init 20 1)"
    by (simp_all add: inv_intros) (simp_all add: kv_init_def estimate_memory_bytes_def)
  obtain c' where put: "kv_put id [5] [] 3 (kv_init 20 1) = Some c'"
    using kv_put_eq [OF kv_inv_counted [OF inv] m] by simp
  from kv_get_after_put [OF inv m b put] put show ?thesis by auto
qed

text \<open>With a maximum of zero (or fewer) entries, \<^verbatim>\<open>put\<close> of an entry within the memory budget
  does not return: the second eviction loop keeps popping an empty cache, holding the lock.\<close>

theorem kv_put_never_returns_without_entries:
  assumes "max_entries c \<le> 0" and "estimate_memory_bytes pkv \<le> max_memory_bytes c"
  shows "kv_put sha ids pkv now c = None"
  using assms by (rule kv_put_diverges)

theorem kv_put_never_returns_without_entries_witness:
  "kv_put id [1] [Tuple [With_nbytes 4]] 0 (kv_init 512 0) = None"
  by (rule kv_put_never_returns_without_entries)
    (simp_all add: kv_init_def estimate_memory_bytes_def)

text \<open>\<^verbatim>\<open>evict_lru\<close> frees at least the bytes asked for, or empties the cache; it drops oldest
  entries only, and not one more than needed: had it kept the last one it dropped, fewer bytes
  than asked would have been freed.\<close>

theorem evict_lru_frees_minimally:
  assumes "kv_inv c"
  shows "let c' = evict_lru needed c in
    (cache c' = [] \<or> needed \<le> current_memory_bytes c - current_memory_bytes c') \<and>
    (\<exists>dropped. cache c = dropped @ cache c' \<and>
      (dropped \<noteq> [] \<longrightarrow> mem_sum (butlast dropped) < needed))"
proof -
  have "(lru_free needed d = [] \<or> needed \<le> mem_sum d - mem_sum (lru_free needed d)) \<and>
    (\<exists>dropped. d = dropped @ lru_free needed d \<and>
      (dropped \<noteq> [] \<longrightarrow> mem_sum (butlast dropped) < needed))" for d
  proof (induction needed d rule: lru_free.induct)
    case (2 needed x d)
    show ?case
    proof (cases "needed \<le> 0")
      case False
      with 2 obtain dropped where
        "d = dropped @ lru_free (needed - memory_bytes (snd x)) d"
        "dropped \<noteq> [] \<longrightarrow> mem_sum (butlast dropped) < needed - memory_bytes (snd x)"
        by auto
      then have "x # d = (x # dropped) @ lru_free needed (x # d)"
        "mem_sum (butlast (x # dropped)) < needed"
        using False by auto
      then show ?thesis using 2 False by fastforce
    qed auto
  qed auto
  from this [of "cache c"] assms show ?thesis
    by (simp add: Let_def evict_lru_eq kv_inv_counted kv_inv_def)
qed

theorem evict_lru_frees_minimally_witness:
  "cache (evict_lru 5 (kv_init 10 2)) = [] \<or>
     5 \<le> current_memory_bytes (kv_init 10 2) - current_memory_bytes (evict_lru 5 (kv_init 10 2))"
  using evict_lru_frees_minimally [OF kv_inv_init, of 10 2 5] by (simp add: Let_def)

text \<open>
  The text that is hashed determines the tokens: \<^verbatim>\<open>str\<close> of a list of integers is injective, so
  two prefixes share a cache key only where the hash itself collides.
\<close>

lemma prefix_hash_injective:
  assumes "inj_on sha (range str_int_list)"
  shows "compute_prefix_hash sha xs = compute_prefix_hash sha ys \<longleftrightarrow> xs = ys"
  using assms by (auto simp: compute_prefix_hash_def inj_on_def str_int_list_inject)

lemma kv_put_entries:
  assumes "counted c" and "kv_put sha ids pkv now c = Some c'" and "(h, e) \<in> set (cache c')"
  shows "(h, e) \<in> set (cache c) \<or> h = compute_prefix_hash sha ids \<and> past_key_values e = pkv"
  using assms(1,2)
proof (cases rule: kv_put_Some_cases)
  case 2
  then have "(h, e) \<in> set (cache (put_result (compute_prefix_hash sha ids)
      (make_entry (compute_prefix_hash sha ids) ids pkv now) c))" using assms(3) by simp
  then show ?thesis
    using set_mono_suffix [OF lru_make_room_suffix] 
    by (fastforce simp: put_result_def Let_def make_entry_def)
qed (use assms(3) in simp)

lemma kv_get_entries:
  assumes "kv_get sha ids c = (r, c')" and "(h, e) \<in> set (cache c')"
  shows "(h, e) \<in> set (cache c)"
  using assms
  by (cases "map_of (cache c) (compute_prefix_hash sha ids)")
    (auto simp: kv_get_def Let_def move_to_end_def dest: map_of_SomeD map_of_SomeD [OF sym])

lemma kv_get_result:
  "kv_get sha ids c = (Some e, c') \<Longrightarrow> (compute_prefix_hash sha ids, e) \<in> set (cache c)"
  by (cases "map_of (cache c) (compute_prefix_hash sha ids)")
    (auto simp: kv_get_def Let_def dest: map_of_SomeD map_of_SomeD [OF sym])

lemma kv_get_config: "kv_get sha ids c = (r, c') \<Longrightarrow> max_entries c' = max_entries c"
  by (auto simp: kv_get_def Let_def split: option.splits)

lemma kv_put_config: "counted c \<Longrightarrow> kv_put sha ids pkv now c = Some c' \<Longrightarrow> max_entries c' = max_entries c"
  by (erule (1) kv_put_Some_cases) (auto simp: put_result_def Let_def)

end
