(* ===== verification/Redis_Client.thy ===== *)
theory Redis_Client
  imports Prelude
begin

text \<open>
  \<^verbatim>\<open>queue/redis_client.py\<close>: the wrapper that holds the connection pool.  The pool itself and
  \<^verbatim>\<open>PING\<close> belong to redis-py and Redis: \<open>ping\<close> is a parameter, an action on the state of the
  service that may raise, and so are what \<^verbatim>\<open>from_url\<close> (a malformed URL) and \<^verbatim>\<open>aclose\<close> return or raise.
\<close>

record redis_client =
  redis_url :: string
  redis_open :: bool  \<comment> \<open>\<^verbatim>\<open>self._redis is not None\<close>\<close>

definition redis_client_init :: "string \<Rightarrow> redis_client" where
  "redis_client_init url = \<lparr>redis_url = url, redis_open = False\<rparr>"

definition redis_property :: "redis_client \<Rightarrow> (unit, 'z) action" where
  "redis_property cl =
     (if redis_open cl then ret ()
      else raise (RuntimeError ''Redis client is not connected. Call connect() first.''))"

text \<open>\<^verbatim>\<open>connect\<close> stores the pool before it pings, so a failed ping leaves the client open.\<close>

definition connect :: "unit result \<Rightarrow> (bool, 'z) action \<Rightarrow> redis_client \<Rightarrow> 'z \<Rightarrow>
    unit result \<times> redis_client \<times> 'z" where
  "connect from_url ping cl z =
     (case from_url of
        Inl e \<Rightarrow> (Inl e, cl, z)
      | Inr _ \<Rightarrow>
          (let cl = cl\<lparr>redis_open := True\<rparr> in
           case ping z of (Inl e, z) \<Rightarrow> (Inl e, cl, z) | (Inr _, z) \<Rightarrow> (Inr (), cl, z)))"

definition close :: "unit result \<Rightarrow> redis_client \<Rightarrow> unit result \<times> redis_client" where
  "close aclose cl =
     (if redis_open cl
      then (case aclose of Inl e \<Rightarrow> (Inl e, cl) | Inr _ \<Rightarrow> (Inr (), cl\<lparr>redis_open := False\<rparr>))
      else (Inr (), cl))"

definition health_check :: "(bool, 'z) action \<Rightarrow> redis_client \<Rightarrow> 'z \<Rightarrow> bool" where
  "health_check ping cl z =
     (if \<not> redis_open cl then False
      else case fst (ping z) of
             Inr ok \<Rightarrow> ok
           | Inl e \<Rightarrow> False)"

lemma close_closes: "close aclose cl = (Inr (), cl') \<Longrightarrow> \<not> redis_open cl'"
  by (auto simp: close_def split: if_splits sum.splits)

text \<open>Closing again is a no-op; closing may be tried again after it raised.\<close>

lemma close_again: "close aclose cl = (Inr (), cl') \<Longrightarrow> close aclose' cl' = (Inr (), cl')"
  by (drule close_closes) (simp add: close_def)

lemma close_raised: "close aclose cl = (Inl e, cl') \<Longrightarrow> cl' = cl \<and> redis_open cl"
  by (auto simp: close_def split: if_splits sum.splits)

lemma redis_property_open [simp]: "redis_open cl \<Longrightarrow> redis_property cl z = (Inr (), z)"
  by (simp add: redis_property_def ret_def)

lemma health_check_closed [simp]: "\<not> redis_open cl \<Longrightarrow> \<not> health_check ping cl z"
  by (simp add: health_check_def)

end
