(* ===== verification/Request_Queue.thy ===== *)
theory Request_Queue
  imports Float_Arith Redis_Client "HOL-Library.Char_ord" "HOL-Library.List_Lexorder"
    "HOL-Library.Product_Lexorder" "HOL-Library.Multiset"
begin

text \<open>
  \<^verbatim>\<open>queue/priority_queue.py\<close>: the priority queue on a Redis sorted set.  Redis is a service
  outside the repository: its commands \<^verbatim>\<open>ZADD\<close>, \<^verbatim>\<open>ZPOPMIN\<close> and \<^verbatim>\<open>ZCARD\<close> are a record of
  parameters, and the locale \<open>redis_zset\<close> states their documented behaviour.  \<^verbatim>\<open>json.dumps\<close> and
  \<^verbatim>\<open>json.loads\<close> are a codec, the locale \<open>json_codec\<close>.  The score arithmetic is binary64.
\<close>

section \<open>Priorities and payloads\<close>

datatype priority = CRITICAL | STANDARD | BATCH

fun priority_value :: "priority \<Rightarrow> int" where
  "priority_value CRITICAL = 1"
| "priority_value STANDARD = 2"
| "priority_value BATCH = 3"

lemma priority_value_inject [simp]: "priority_value p = priority_value q \<longleftrightarrow> p = q"
  by (cases p; cases q) auto

lemma priority_value_range: "1 \<le> priority_value p" "priority_value p \<le> 3"
  by (cases p; simp)+

text \<open>\<^verbatim>\<open>IntEnum\<close> members compare by value.\<close>

instantiation priority :: linorder
begin

definition less_eq_priority :: "priority \<Rightarrow> priority \<Rightarrow> bool" where
  "less_eq_priority p q \<longleftrightarrow> priority_value p \<le> priority_value q"

definition less_priority :: "priority \<Rightarrow> priority \<Rightarrow> bool" where
  "less_priority p q \<longleftrightarrow> priority_value p < priority_value q"

instance
  by standard (auto simp: less_eq_priority_def less_priority_def)

end

text \<open>The JSON values a request carries, and the dictionary that is stored.\<close>

datatype json = JNull | JBool bool | JInt int | JFloat float | JStr string

type_synonym item = "(string \<times> json) list"

fun json_key :: "json \<Rightarrow> nat \<times> rat \<times> string" where
  "json_key JNull = (0, 0, [])"
| "json_key (JBool b) = (1, if b then 1 else 0, [])"
| "json_key (JInt i) = (2, of_int i, [])"
| "json_key (JFloat x) = (3, x, [])"
| "json_key (JStr s) = (4, 0, s)"

lemma json_key_inject: "json_key a = json_key b \<longleftrightarrow> a = b"
  by (cases a; cases b) auto

instantiation json :: linorder
begin

definition less_eq_json :: "json \<Rightarrow> json \<Rightarrow> bool" where
  "less_eq_json a b \<longleftrightarrow> json_key a \<le> json_key b"

definition less_json :: "json \<Rightarrow> json \<Rightarrow> bool" where
  "less_json a b \<longleftrightarrow> json_key a < json_key b"

instance
  by standard (auto simp: less_eq_json_def less_json_def json_key_inject dest: antisym)

end

section \<open>The score\<close>

definition priority_multiplier :: float where
  "priority_multiplier = 10000000000"

definition compute_score :: "int \<Rightarrow> float \<Rightarrow> float" where
  "compute_score priority timestamp =
     fadd (fmul (of_int priority) priority_multiplier) timestamp"

lemma tier_base_exact:
  assumes "0 \<le> p" and "p \<le> 1000"
  shows "fmul (of_int p) priority_multiplier = of_int (p * 10000000000)"
proof -
  have "fl64 (of_int (p * 10000000000)) = of_int (p * 10000000000)"
    by (rule f64.exact_int) (use assms in auto)
  then show ?thesis by (simp add: fmul_def priority_multiplier_def)
qed

lemma compute_score_eq:
  "0 \<le> p \<Longrightarrow> p \<le> 1000 \<Longrightarrow> compute_score p t = fl64 (of_int (p * 10000000000) + t)"
  by (simp add: compute_score_def tier_base_exact fadd_def)

lemma compute_score_bounds:
  assumes "0 \<le> p" and "p \<le> 1000" and "0 \<le> t" and "t \<le> 9999999999"
  shows "of_int (p * 10000000000) \<le> compute_score p t"
    and "compute_score p t < of_int ((p + 1) * 10000000000)"
proof -
  have "of_int (p * 10000000000) \<le> fl64 (of_int (p * 10000000000) + t)"
    by (rule f64.ge_int) (use assms in auto)
  then show "of_int (p * 10000000000) \<le> compute_score p t"
    using assms by (simp add: compute_score_eq)
  have "fl64 (of_int (p * 10000000000) + t) \<le> of_int (p * 10000000000 + 9999999999)"
    by (rule f64.le_int) (use assms in auto)
  also have "\<dots> < of_int ((p + 1) * 10000000000)" by (simp only: of_int_less_iff) simp
  finally show "compute_score p t < of_int ((p + 1) * 10000000000)"
    using assms by (simp add: compute_score_eq)
qed

lemma score_tiers:
  assumes "0 \<le> p" and "p < q" and "q \<le> 1000" and "0 \<le> t" and "t \<le> 9999999999"
    and "0 \<le> u" and "u \<le> 9999999999"
  shows "compute_score p t < compute_score q u"
proof -
  have "compute_score p t < of_int ((p + 1) * 10000000000)"
    using assms by (intro compute_score_bounds) auto
  also have "\<dots> \<le> of_int (q * 10000000000)"
    using assms(2) by (simp only: of_int_le_iff) simp
  also have "\<dots> \<le> compute_score q u"
    using assms by (intro compute_score_bounds) auto
  finally show ?thesis .
qed

lemma score_mono: "0 \<le> p \<Longrightarrow> p \<le> 1000 \<Longrightarrow> t \<le> u \<Longrightarrow> compute_score p t \<le> compute_score p u"
  by (simp add: compute_score_eq f64.mono)

text \<open>
  Within a tier two scores differ as soon as the timestamps are 16 microseconds apart: the
  scores are below \<open>4 * 10 ^ 10 + 1\<close>, where the rounding error is below 4.5 microseconds.
\<close>

lemma score_strict:
  assumes p: "1 \<le> p" "p \<le> 3" and t: "0 \<le> t" "t + 16 / 10 ^ 6 \<le> u" and u: "u \<le> 9999999999"
  shows "compute_score p t < compute_score p u"
proof -
  let ?x = "of_int (p * 10000000000) + t" and ?y = "of_int (p * 10000000000) + u"
  have b: "(of_int (p * 10000000000) :: rat) \<le> of_int 30000000000"
    by (simp only: of_int_le_iff) (use p in simp)
  have nn: "(0 :: rat) \<le> of_int (p * 10000000000)" using p by simp
  have x: "0 \<le> ?x" "?x \<le> 40000000000" and y: "0 \<le> ?y" "?y \<le> 40000000000"
    using b nn t u by simp_all
  have "compute_score p t = fl64 ?x" using p by (simp add: compute_score_eq)
  also have "\<dots> \<le> ?x + 40000000000 / 2 ^ 53" by (rule fl64_within [OF x])
  also have "\<dots> < ?y - 40000000000 / 2 ^ 53" using t by simp
  also have "\<dots> \<le> fl64 ?y" by (rule fl64_within [OF y])
  also have "\<dots> = compute_score p u" using p by (simp add: compute_score_eq)
  finally show ?thesis .
qed

section \<open>Redis and the codec as contracts\<close>

record ('z, 'm) zset_ops =
  zadd :: "string \<Rightarrow> 'm \<Rightarrow> float \<Rightarrow> (unit, 'z) action"
  zpopmin :: "string \<Rightarrow> nat \<Rightarrow> (('m \<times> float) list, 'z) action"
  zcard :: "string \<Rightarrow> (nat, 'z) action"

text \<open>The order in which a sorted set gives up its members: by score, ties by member.\<close>

definition before :: "'m::linorder \<times> float \<Rightarrow> 'm \<times> float \<Rightarrow> bool" where
  "before a b \<longleftrightarrow> snd a < snd b \<or> snd a = snd b \<and> fst a \<le> fst b"

text \<open>
  A reachable Redis: \<open>view z\<close> is the sorted set stored under the queue's key.  \<^verbatim>\<open>ZADD\<close> sets a
  member's score, \<^verbatim>\<open>ZPOPMIN\<close> removes and returns the first member of the order, \<^verbatim>\<open>ZCARD\<close>
  counts.
\<close>

locale redis_zset =
  fixes ops :: "('z, 'm::linorder) zset_ops" and key :: string and view :: "'z \<Rightarrow> 'm \<rightharpoonup> float"
  assumes finite_view: "finite (dom (view z))"
    and zadd: "\<exists>z'. zadd ops key m s z = (Inr (), z') \<and> view z' = (view z)(m \<mapsto> s)"
    and zpopmin_empty: "view z = Map.empty \<Longrightarrow>
      \<exists>z'. zpopmin ops key 1 z = (Inr [], z') \<and> view z' = Map.empty"
    and zpopmin: "view z \<noteq> Map.empty \<Longrightarrow>
      \<exists>m s z'. zpopmin ops key 1 z = (Inr [(m, s)], z') \<and> view z m = Some s \<and>
        (\<forall>m' s'. view z m' = Some s' \<longrightarrow> before (m, s) (m', s')) \<and>
        view z' = (view z)(m := None)"
    and zcard: "zcard ops key z = (Inr (card (dom (view z))), z)"

locale json_codec =
  fixes dumps :: "item \<Rightarrow> 'm" and loads :: "'m \<Rightarrow> item result"
  assumes loads_dumps: "loads (dumps d) = Inr d"
begin

lemma dumps_inject: "dumps d = dumps d' \<longleftrightarrow> d = d'"
  by (metis loads_dumps sum.inject(2))

end

section \<open>The queue's methods\<close>

text \<open>\<^verbatim>\<open>{"request_id": .., "priority": .., "enqueued_at": .., **payload}\<close>.\<close>

definition make_item :: "string \<Rightarrow> int \<Rightarrow> float \<Rightarrow> item \<Rightarrow> item" where
  "make_item request_id priority now payload =
     fold (\<lambda>(k, v). AList.update k v) payload
       [(''request_id'', JStr request_id), (''priority'', JInt priority),
        (''enqueued_at'', JFloat now)]"

definition enqueue :: "('z, 'm) zset_ops \<Rightarrow> (item \<Rightarrow> 'm) \<Rightarrow> redis_client \<Rightarrow> string \<Rightarrow>
    string \<Rightarrow> int \<Rightarrow> item \<Rightarrow> float \<Rightarrow> (nat, 'z) action" where
  "enqueue ops dumps cl key request_id priority payload now =
     bind (redis_property cl) (\<lambda>_.
     let score = compute_score priority now;
         member = dumps (make_item request_id priority now payload) in
     bind (zadd ops key member score) (\<lambda>_.
     bind (zcard ops key) (\<lambda>depth. ret depth)))"

definition dequeue :: "('z, 'm) zset_ops \<Rightarrow> ('m \<Rightarrow> item result) \<Rightarrow> redis_client \<Rightarrow> string \<Rightarrow>
    (item option, 'z) action" where
  "dequeue ops loads cl key =
     bind (redis_property cl) (\<lambda>_.
     bind (zpopmin ops key 1) (\<lambda>popped.
     case popped of
       [] \<Rightarrow> ret None
     | (member, score) # _ \<Rightarrow>
         (case loads member of Inl e \<Rightarrow> raise e | Inr d \<Rightarrow> ret (Some d))))"

definition queue_depth :: "('z, 'm) zset_ops \<Rightarrow> redis_client \<Rightarrow> string \<Rightarrow> (nat, 'z) action" where
  "queue_depth ops cl key = bind (redis_property cl) (\<lambda>_. zcard ops key)"

lemma map_of_fold_update:
  "map_of (fold (\<lambda>(k, v). AList.update k v) xs d) = map_of d ++ map_of (rev xs)"
  by (induction xs arbitrary: d) (auto simp: update_conv' fun_eq_iff map_add_def split: option.splits)

lemma map_of_rev: "distinct (keys xs) \<Longrightarrow> map_of (rev xs) = map_of xs"
  by (rule map_of_eqI) (auto simp: map_of_eq_Some_distinct rev_map [symmetric])

text \<open>A request as the router hands it over, and a sequence of requests enqueued in order.\<close>

record request =
  rq_id :: string
  rq_priority :: int
  rq_payload :: item
  rq_time :: float

definition request_item :: "request \<Rightarrow> item" where
  "request_item r = make_item (rq_id r) (rq_priority r) (rq_time r) (rq_payload r)"

definition request_score :: "request \<Rightarrow> float" where
  "request_score r = compute_score (rq_priority r) (rq_time r)"

fun enqueue_all :: "('z, 'm) zset_ops \<Rightarrow> (item \<Rightarrow> 'm) \<Rightarrow> redis_client \<Rightarrow> string \<Rightarrow>
    request list \<Rightarrow> 'z \<Rightarrow> 'z" where
  "enqueue_all ops dumps cl key [] z = z"
| "enqueue_all ops dumps cl key (r # rs) z =
     enqueue_all ops dumps cl key rs
       (snd (enqueue ops dumps cl key (rq_id r) (rq_priority r) (rq_payload r) (rq_time r) z))"

text \<open>Taking items until the queue reports empty, at most \<open>n\<close> of them.\<close>

fun dequeue_all :: "('z, 'm) zset_ops \<Rightarrow> ('m \<Rightarrow> item result) \<Rightarrow> redis_client \<Rightarrow> string \<Rightarrow>
    nat \<Rightarrow> 'z \<Rightarrow> item list" where
  "dequeue_all ops loads cl key 0 z = []"
| "dequeue_all ops loads cl key (Suc n) z =
     (case dequeue ops loads cl key z of
        (Inr (Some d), z') \<Rightarrow> d # dequeue_all ops loads cl key n z'
      | _ \<Rightarrow> [])"

section \<open>What the methods do on a reachable Redis\<close>

context redis_zset
begin

lemma enqueue_view:
  assumes "redis_open cl"
  shows "\<exists>z'. enqueue ops dumps cl key rid p payload now z =
      (Inr (card (dom (view z'))), z') \<and>
    view z' = (view z)(dumps (make_item rid p now payload) \<mapsto> compute_score p now)"
proof -
  obtain z' where "zadd ops key (dumps (make_item rid p now payload)) (compute_score p now) z =
      (Inr (), z')" "view z' = (view z)(dumps (make_item rid p now payload) \<mapsto> compute_score p now)"
    using zadd by blast
  with assms show ?thesis by (simp add: enqueue_def bind_def ret_def zcard)
qed

lemma dequeue_empty:
  assumes "redis_open cl" and "view z = Map.empty"
  shows "\<exists>z'. dequeue ops loads cl key z = (Inr None, z') \<and> view z' = Map.empty"
proof -
  obtain z' where "zpopmin ops key 1 z = (Inr [], z')" "view z' = Map.empty"
    using zpopmin_empty assms(2) by blast
  with assms show ?thesis by (simp add: dequeue_def bind_def ret_def)
qed

lemma queue_depth_eq: "redis_open cl \<Longrightarrow> queue_depth ops cl key z = (Inr (card (dom (view z))), z)"
  by (simp add: queue_depth_def bind_def zcard)

end

text \<open>Both contracts together: the environment of the queue.\<close>

locale queue_env = redis_zset ops key view + json_codec dumps loads
  for ops :: "('z, 'm::linorder) zset_ops" and key view and dumps :: "item \<Rightarrow> 'm" and loads
begin

lemma dequeue_first:
  assumes "redis_open cl" and "view z (dumps d0) = Some s0"
    and "\<And>m. m \<in> dom (view z) \<Longrightarrow> \<exists>d. m = dumps d"
  obtains d s z' where "dequeue ops loads cl key z = (Inr (Some d), z')"
    "view z (dumps d) = Some s" "view z' = (view z)(dumps d := None)"
    "\<And>d' s'. view z (dumps d') = Some s' \<Longrightarrow> before (dumps d, s) (dumps d', s')"
proof -
  have "view z \<noteq> Map.empty" using assms(2) by auto
  then obtain m s z' where pop: "zpopmin ops key 1 z = (Inr [(m, s)], z')" "view z m = Some s"
      "\<forall>m' s'. view z m' = Some s' \<longrightarrow> before (m, s) (m', s')" "view z' = (view z)(m := None)"
    using zpopmin by blast
  then obtain d where m: "m = dumps d" using assms(3) by blast
  have "dequeue ops loads cl key z = (Inr (Some d), z')"
    using assms(1) pop(1) by (simp add: dequeue_def bind_def ret_def loads_dumps m)
  with pop m that show ?thesis by blast
qed

lemma enqueue_all_view:
  assumes "redis_open cl"
  shows "view (enqueue_all ops dumps cl key rs z) =
    view z ++ map_of (map (\<lambda>r. (dumps (request_item r), request_score r)) (rev rs))"
proof (induction rs arbitrary: z)
  case (Cons r rs)
  obtain z' where "enqueue ops dumps cl key (rq_id r) (rq_priority r) (rq_payload r) (rq_time r) z =
      (Inr (card (dom (view z'))), z')"
    "view z' = (view z)(dumps (request_item r) \<mapsto> request_score r)"
    using enqueue_view [OF assms] unfolding request_item_def request_score_def by blast
  then show ?case
    by (simp add: Cons.IH) (simp add: fun_eq_iff map_add_def split: option.split)
qed simp

lemma map_of_remove1:
  assumes "distinct (map (fst \<circ> f) rs)" and "r \<in> set rs"
  shows "(map_of (map f rs))(fst (f r) := None) = map_of (map f (remove1 r rs))"
  using assms
proof (induction rs)
  case (Cons a rs)
  show ?case
  proof (cases "a = r")
    case True
    then have "map_of (map f rs) (fst (f r)) = None"
      using Cons.prems by (simp add: map_of_eq_None_iff image_image)
    then show ?thesis using True by (cases "f r") (simp add: fun_eq_iff)
  next
    case False
    then have "fst (f a) \<noteq> fst (f r)" using Cons.prems by force
    moreover have "map_of (map f (remove1 r rs)) = (map_of (map f rs))(fst (f r) := None)"
      using Cons False by (simp add: fun_upd_def)
    ultimately show ?thesis using False by (cases "f a") (simp add: fun_eq_iff)
  qed
qed simp

abbreviation first_in_line :: "request \<Rightarrow> request \<Rightarrow> bool" where
  "first_in_line a b \<equiv>
     before (dumps (request_item a), request_score a) (dumps (request_item b), request_score b)"

lemma dequeue_all_sorted:
  assumes "redis_open cl" and "distinct (map request_item rs)" and "length rs \<le> n"
    and "view z = map_of (map (\<lambda>r. (dumps (request_item r), request_score r)) rs)"
  shows "\<exists>qs. mset qs = mset rs \<and> sorted_wrt first_in_line qs \<and>
    dequeue_all ops loads cl key n z = map request_item qs"
  using assms(2-)
proof (induction n arbitrary: rs z)
  case 0
  then show ?case by simp
next
  case (Suc n)
  let ?f = "\<lambda>r. (dumps (request_item r), request_score r)"
  have dist: "distinct (map (fst \<circ> ?f) rs)"
    using Suc.prems(1) by (simp add: comp_def distinct_map inj_on_def dumps_inject)
  show ?case
  proof (cases rs)
    case Nil
    then obtain z' where "dequeue ops loads cl key z = (Inr None, z')"
      using dequeue_empty [OF assms(1), of z] Suc.prems by auto
    then show ?thesis using Nil by simp
  next
    case (Cons r0 rs0)
    have "view z (dumps (request_item r0)) = Some (request_score r0)"
      using Suc.prems(3) Cons by simp
    moreover have "\<exists>d. m = dumps d" if "m \<in> dom (view z)" for m
      using that unfolding Suc.prems(3) dom_map_of_conv_image_fst by auto
    ultimately obtain d s z' where pop: "dequeue ops loads cl key z = (Inr (Some d), z')"
        "view z (dumps d) = Some s" "view z' = (view z)(dumps d := None)"
      and first: "\<And>d' s'. view z (dumps d') = Some s' \<Longrightarrow> before (dumps d, s) (dumps d', s')"
      using dequeue_first [OF assms(1)] by metis
    then obtain r where r: "r \<in> set rs" "request_item r = d" "request_score r = s"
      using Suc.prems(3) by (auto dest!: map_of_SomeD simp: dumps_inject)
    have "view z' = map_of (map ?f (remove1 r rs))"
      using map_of_remove1 [OF dist r(1)] pop(3) Suc.prems(3) r(2) by simp
    moreover have "distinct (map request_item (remove1 r rs))"
      using Suc.prems(1) by (auto simp: distinct_map dest: notin_set_remove1 intro: inj_on_subset)
    moreover have "length (remove1 r rs) \<le> n"
      using Suc.prems(2) r(1) by (simp add: length_remove1)
    ultimately obtain qs where qs: "mset qs = mset (remove1 r rs)" "sorted_wrt first_in_line qs"
        "dequeue_all ops loads cl key n z' = map request_item qs"
      using Suc.IH by blast
    have "first_in_line r q" if "q \<in> set qs" for q
    proof -
      have "q \<in> set rs" using that qs(1) by (metis in_set_remove1 mset_eq_setD notin_set_remove1)
      then have "view z (dumps (request_item q)) = Some (request_score q)"
        using dist Suc.prems(3) by (auto simp: comp_def intro!: map_of_is_SomeI)
      with first r show ?thesis by simp
    qed
    with qs pop(1) r show ?thesis
      by (intro exI [of _ "r # qs"]) (auto simp: r(1))
  qed
qed

lemma drain_sorted:
  assumes "redis_open cl" and "view z = Map.empty" and "distinct (map request_item rs)"
    and "length rs \<le> n"
  shows "\<exists>qs. mset qs = mset rs \<and> sorted_wrt first_in_line qs \<and>
    dequeue_all ops loads cl key n (enqueue_all ops dumps cl key rs z) = map request_item qs"
  using dequeue_all_sorted [OF assms(1), of "rev rs" n "enqueue_all ops dumps cl key rs z"]
    enqueue_all_view [OF assms(1), of rs z] assms(2-)
  by (simp add: rev_map [symmetric])

lemma tie_break:
  assumes "redis_open cl" and "view z = Map.empty" and "request_score r = request_score r'"
    and "dumps (request_item r') < dumps (request_item r)"
  shows "fst (dequeue ops loads cl key (enqueue_all ops dumps cl key [r, r'] z)) =
    Inr (Some (request_item r'))"
proof -
  let ?z = "enqueue_all ops dumps cl key [r, r'] z"
  have "request_item r \<noteq> request_item r'" using assms(4) by auto
  then obtain qs where qs: "mset qs = mset [r, r']" "sorted_wrt first_in_line qs"
    "dequeue_all ops loads cl key 2 ?z = map request_item qs"
    using drain_sorted [OF assms(1,2), of "[r, r']" 2] by auto
  have "qs = [r, r'] \<or> qs = [r', r]"
    using qs(1) by (cases qs; cases "tl qs"; cases "tl (tl qs)") (auto simp: add_eq_conv_ex)
  then have "qs = [r', r]" using qs(2) assms(3,4) by (auto simp: before_def)
  with qs(3) show ?thesis
    by (auto simp: numeral_2_eq_2 split: prod.splits sum.splits option.splits)
qed

lemma dequeue_only:
  assumes "redis_open cl" and "view z = [dumps d \<mapsto> s]"
  shows "\<exists>z'. dequeue ops loads cl key z = (Inr (Some d), z') \<and> view z' = Map.empty"
proof -
  obtain d' s' z' where "dequeue ops loads cl key z = (Inr (Some d'), z')"
    "view z (dumps d') = Some s'" "view z' = (view z)(dumps d' := None)"
    by (rule dequeue_first [OF assms(1), of z d s]) (auto simp: assms(2) split: if_splits)
  then show ?thesis using assms(2) by (auto simp: dumps_inject split: if_splits)
qed

end

section \<open>A reference sorted set\<close>

text \<open>
  A sorted set as a dictionary of members and scores, to show that the contracts can hold.
\<close>

fun first_of :: "('m::linorder \<times> float) list \<Rightarrow> ('m \<times> float) option" where
  "first_of [] = None"
| "first_of (x # xs) =
     (case first_of xs of None \<Rightarrow> Some x | Some y \<Rightarrow> Some (if before x y then x else y))"

fun pop_first :: "nat \<Rightarrow> ('m::linorder \<times> float) list \<Rightarrow> ('m \<times> float) list \<times> ('m \<times> float) list" where
  "pop_first 0 d = ([], d)"
| "pop_first (Suc n) d =
     (case first_of (AList.clearjunk d) of
        None \<Rightarrow> ([], d)
      | Some x \<Rightarrow> (let (xs, d') = pop_first n (AList.delete (fst x) d) in (x # xs, d')))"

definition ref_zset :: "(string \<Rightarrow> ('m \<times> float) list, 'm::linorder) zset_ops" where
  "ref_zset =
     \<lparr>zadd = (\<lambda>k m s z. (Inr (), z(k := AList.update m s (z k)))),
      zpopmin = (\<lambda>k n z. (Inr (fst (pop_first n (z k))), z(k := snd (pop_first n (z k))))),
      zcard = (\<lambda>k z. (Inr (card (dom (map_of (z k)))), z))\<rparr>"

lemma before_total: "before x y \<or> before y x"
  by (auto simp: before_def)

lemma before_trans: "before x y \<Longrightarrow> before y z \<Longrightarrow> before x z"
  by (auto simp: before_def)

lemma before_refl [simp]: "before x x"
  by (simp add: before_def)

lemma first_of_None: "first_of d = None \<longleftrightarrow> d = []"
  by (cases d) (auto split: option.splits)

lemma first_of_Some: "first_of d = Some x \<Longrightarrow> x \<in> set d \<and> (\<forall>y \<in> set d. before x y)"
proof (induction d arbitrary: x)
  case (Cons a d)
  then show ?case
    by (auto simp: first_of_None split: option.splits if_splits)
      (metis before_total before_trans)+
qed simp

interpretation ref: redis_zset ref_zset key "\<lambda>z. map_of (z key)" for key
proof
  fix z :: "string \<Rightarrow> ('m::linorder \<times> float) list" and m :: 'm and s
  show "finite (dom (map_of (z key)))" by (rule finite_dom_map_of)
  show "\<exists>z'. zset_ops.zadd ref_zset key m s z = (Inr (), z') \<and>
      map_of (z' key) = (map_of (z key))(m \<mapsto> s)"
    by (simp add: ref_zset_def update_conv')
  show "zset_ops.zcard ref_zset key z = (Inr (card (dom (map_of (z key)))), z)"
    by (simp add: ref_zset_def)
  let ?d = "AList.clearjunk (z key)"
  show "\<exists>z'. zset_ops.zpopmin ref_zset key 1 z = (Inr [], z') \<and> map_of (z' key) = Map.empty"
    if "map_of (z key) = Map.empty"
    using that by (simp add: ref_zset_def)
  show "\<exists>m s z'. zset_ops.zpopmin ref_zset key 1 z = (Inr [(m, s)], z') \<and>
      map_of (z key) m = Some s \<and>
      (\<forall>m' s'. map_of (z key) m' = Some s' \<longrightarrow> before (m, s) (m', s')) \<and>
      map_of (z' key) = (map_of (z key))(m := None)"
    if ne: "map_of (z key) \<noteq> Map.empty"
  proof -
    have "?d \<noteq> []" using ne by (metis map_of.simps(1) map_of_clearjunk)
    then obtain x where x: "first_of ?d = Some x" using first_of_None [of ?d] by blast
    have dist: "distinct (keys ?d)" by (rule distinct_clearjunk)
    from first_of_Some [OF x] have "map_of ?d (fst x) = Some (snd x)"
      and "\<forall>m' s'. map_of ?d m' = Some s' \<longrightarrow> before x (m', s')"
      using dist by (auto simp: map_of_eq_Some_distinct)
    with x show ?thesis
      by (intro exI [of _ "fst x"] exI [of _ "snd x"])
        (simp add: ref_zset_def map_of_clearjunk delete_conv')
  qed
qed

text \<open>The codec that keeps the dictionary.\<close>

interpretation ref_codec: json_codec id Inr
  by unfold_locales simp

interpretation ref_env: queue_env ref_zset key "\<lambda>z. map_of (z key)" id Inr for key
  by unfold_locales

section \<open>Properties\<close>

text \<open>Priority tiers never mix: with the score arithmetic done in binary64, any request of a
  lower tier number scores strictly below any request of a higher one, for all timestamps from
  the epoch to the year 2286.\<close>

theorem score_separates_tiers:
  assumes "p < q" and "0 \<le> t" and "t \<le> 9999999999" and "0 \<le> u" and "u \<le> 9999999999"
  shows "compute_score (priority_value p) t < compute_score (priority_value q) u"
  using assms priority_value_range [of p] priority_value_range [of q]
  by (intro score_tiers) (auto simp: less_priority_def)

theorem score_separates_tiers_witness:
  "compute_score (priority_value CRITICAL) 1700000500 <
     compute_score (priority_value STANDARD) 1700000000"
  by (rule score_separates_tiers) (simp_all add: less_priority_def)

text \<open>C4: On a reachable Redis, draining the queue after enqueueing distinct requests gives back
  each of them exactly once, ordered by tier, and within a tier no request comes before one that
  was enqueued 16 microseconds or more earlier.\<close>

theorem queue_drains_in_priority_order:
  assumes "queue_env ops key view dumps loads" and "redis_open cl" and "view z = Map.empty"
    and "distinct (map request_item rs)" and "length rs \<le> n"
    and "\<forall>r \<in> set rs. rq_priority r \<in> {1, 2, 3} \<and> 0 \<le> rq_time r \<and> rq_time r \<le> 9999999999"
  shows "\<exists>qs. mset qs = mset rs \<and>
    dequeue_all ops loads cl key n (enqueue_all ops dumps cl key rs z) = map request_item qs \<and>
    sorted_wrt (\<lambda>a b. rq_priority a < rq_priority b \<or>
      rq_priority a = rq_priority b \<and> rq_time a < rq_time b + 16 / 10 ^ 6) qs"
proof -
  let ?line = "\<lambda>a b. before (dumps (request_item a), request_score a)
      (dumps (request_item b), request_score b)"
  obtain qs where qs: "mset qs = mset rs" "sorted_wrt ?line qs"
    "dequeue_all ops loads cl key n (enqueue_all ops dumps cl key rs z) = map request_item qs"
    using queue_env.drain_sorted [OF assms(1-5)] by blast
  have "rq_priority a < rq_priority b \<or>
      rq_priority a = rq_priority b \<and> rq_time a < rq_time b + 16 / 10 ^ 6"
    if ab: "a \<in> set qs" "b \<in> set qs" "?line a b" for a b
  proof -
    have r: "rq_priority a \<in> {1, 2, 3}" "0 \<le> rq_time a" "rq_time a \<le> 9999999999"
      "rq_priority b \<in> {1, 2, 3}" "0 \<le> rq_time b" "rq_time b \<le> 9999999999"
      using ab qs(1) assms(6) by (auto dest: mset_eq_setD)
    have le: "request_score a \<le> request_score b" using ab(3) by (auto simp: before_def)
    have "\<not> rq_priority b < rq_priority a"
      using score_tiers [of "rq_priority b" "rq_priority a" "rq_time b" "rq_time a"] r le
      by (auto simp: request_score_def)
    moreover have "rq_time a < rq_time b + 16 / 10 ^ 6" if "rq_priority a = rq_priority b"
      using score_strict [of "rq_priority b" "rq_time b" "rq_time a"] r le that
      by (force simp: request_score_def not_less)
    ultimately show ?thesis by linarith
  qed
  with qs show ?thesis
    by (intro exI [of _ qs]) (auto intro: sorted_wrt_mono_rel [rotated])
qed

definition ex_requests :: "request list" where
  "ex_requests =
     [\<lparr>rq_id = ''a'', rq_priority = 3, rq_payload = [], rq_time = 10\<rparr>,
      \<lparr>rq_id = ''b'', rq_priority = 1, rq_payload = [], rq_time = 20\<rparr>]"

theorem queue_drains_in_priority_order_witness:
  "\<exists>qs. mset qs = mset ex_requests \<and>
     dequeue_all ref_zset Inr (redis_client_init []\<lparr>redis_open := True\<rparr>) ''q'' 2
       (enqueue_all ref_zset id (redis_client_init []\<lparr>redis_open := True\<rparr>) ''q'' ex_requests
         (\<lambda>_. [])) = map request_item qs \<and>
     sorted_wrt (\<lambda>a b. rq_priority a < rq_priority b \<or>
       rq_priority a = rq_priority b \<and> rq_time a < rq_time b + 16 / 10 ^ 6) qs"
  by (rule queue_drains_in_priority_order [OF ref_env.queue_env_axioms])
    (simp_all add: ex_requests_def request_item_def make_item_def)

lemma score_collision: "compute_score 2 (1700000000 + 1 / 2 ^ 20) = compute_score 2 1700000000"
  by (simp add: compute_score_eq fl_eval)

text \<open>The FIFO promise fails below that resolution: two standard requests almost a microsecond
  apart get the same binary64 score, and then the sorted set gives back first the one whose
  JSON text is smaller, here the later one.\<close>

theorem same_score_breaks_fifo:
  assumes "queue_env ops key view dumps loads" and "redis_open cl" and "view z = Map.empty"
    and "rq_priority r = 2" and "rq_time r = 1700000000"
    and "rq_priority r' = 2" and "rq_time r' = 1700000000 + 1 / 2 ^ 20"
    and "dumps (request_item r') < dumps (request_item r)"
  shows "fst (dequeue ops loads cl key (enqueue_all ops dumps cl key [r, r'] z)) =
    Inr (Some (request_item r'))"
proof -
  have "request_score r = request_score r'"
    using score_collision by (simp add: request_score_def assms(4-7))
  then show ?thesis using queue_env.tie_break [OF assms(1-3)] assms(8) by simp
qed

definition ex_tie :: "request list" where
  "ex_tie =
     [\<lparr>rq_id = ''b'', rq_priority = 2, rq_payload = [], rq_time = 1700000000\<rparr>,
      \<lparr>rq_id = ''a'', rq_priority = 2, rq_payload = [], rq_time = 1700000000 + 1 / 2 ^ 20\<rparr>]"

theorem same_score_breaks_fifo_witness:
  "fst (dequeue ref_zset Inr (redis_client_init []\<lparr>redis_open := True\<rparr>) ''q''
     (enqueue_all ref_zset id (redis_client_init []\<lparr>redis_open := True\<rparr>) ''q''
       [ex_tie ! 0, ex_tie ! 1] (\<lambda>_. []))) = Inr (Some (request_item (ex_tie ! 1)))"
  by (rule same_score_breaks_fifo [OF ref_env.queue_env_axioms])
    (simp_all add: ex_tie_def request_item_def make_item_def less_json_def less_char_def)

text \<open>What is dequeued carries what was enqueued: on a reachable Redis a lone request comes back
  with its id and priority, and with every payload entry, provided the payload does not itself
  use the reserved names.\<close>

theorem enqueue_dequeue_roundtrip:
  assumes "queue_env ops key view dumps loads" and "redis_open cl" and "view z = Map.empty"
    and "distinct (keys payload)"
    and "set (keys payload) \<inter> {''request_id'', ''priority'', ''enqueued_at''} = {}"
  shows "\<exists>z1 z2 d. enqueue ops dumps cl key rid p payload now z = (Inr 1, z1) \<and>
    dequeue ops loads cl key z1 = (Inr (Some d), z2) \<and> view z2 = Map.empty \<and>
    map_of d ''request_id'' = Some (JStr rid) \<and> map_of d ''priority'' = Some (JInt p) \<and>
    (\<forall>k v. map_of payload k = Some v \<longrightarrow> map_of d k = Some v)"
proof -
  let ?d = "make_item rid p now payload"
  obtain z1 where z1: "enqueue ops dumps cl key rid p payload now z =
      (Inr (card (dom (view z1))), z1)" "view z1 = [dumps ?d \<mapsto> compute_score p now]"
    using redis_zset.enqueue_view [OF queue_env.axioms(1) [OF assms(1)] assms(2)] assms(3) by metis
  obtain z2 where "dequeue ops loads cl key z1 = (Inr (Some ?d), z2)" "view z2 = Map.empty"
    using queue_env.dequeue_only [OF assms(1,2) z1(2)] by blast
  moreover have "map_of ?d k = (case map_of payload k of Some v \<Rightarrow> Some v | None \<Rightarrow> map_of
      [(''request_id'', JStr rid), (''priority'', JInt p), (''enqueued_at'', JFloat now)] k)" for k
    using assms(4) by (simp add: make_item_def map_of_fold_update map_of_rev map_add_def split: option.split)
  moreover have "map_of payload k = None" if "k \<in> {''request_id'', ''priority'', ''enqueued_at''}" for k
    using assms(5) that map_of_key [of payload k] by (cases "map_of payload k") blast+
  ultimately show ?thesis using z1 by auto
qed

theorem enqueue_dequeue_roundtrip_witness:
  "\<exists>z1 z2 d. enqueue ref_zset id (redis_client_init []\<lparr>redis_open := True\<rparr>) ''q'' ''r1'' 2
       [(''prompt'', JStr ''hi'')] 5 (\<lambda>_. []) = (Inr 1, z1) \<and>
     dequeue ref_zset Inr (redis_client_init []\<lparr>redis_open := True\<rparr>) ''q'' z1 =
       (Inr (Some d), z2) \<and> map_of d ''prompt'' = Some (JStr ''hi'')"
  using enqueue_dequeue_roundtrip [OF ref_env.queue_env_axioms,
      of "redis_client_init []\<lparr>redis_open := True\<rparr>" "\<lambda>_. []" _ "[(''prompt'', JStr ''hi'')]"
      "''r1''" 2 5]
  by fastforce

end
