(* ===== verification/Rate_Limiter.thy ===== *)
theory Rate_Limiter
  imports Float_Arith Redis_Client
begin

text \<open>
  \<^verbatim>\<open>queue/rate_limiter.py\<close>: the token bucket.  The Lua script is code of the repository and is
  translated; its number type is binary64 and what it stores goes through \<^verbatim>\<open>tostring\<close>.  Both
  roundings are arguments: \<open>fl64\<close> and \<open>fmt14\<close> give the script as Redis runs it, the identity
  the ideal arithmetic.  The commands \<^verbatim>\<open>SCRIPT LOAD\<close> and \<^verbatim>\<open>EVALSHA\<close> are parameters of the Python side.
\<close>

section \<open>The Lua script\<close>

record bucket =
  tokens :: rat
  last_refill :: rat

text \<open>
  The result \<open>(allowed, floor tokens, retry_after_ms)\<close>, the bucket written back, and the
  time to live.  \<open>None\<close> is a missing key.  The refill rate and the bucket size are positive
  wherever the result is used: with a rate of zero the time to live would be infinite and
  \<^verbatim>\<open>EXPIRE\<close> an error, which the model does not express.
\<close>

definition token_bucket_script :: "(rat \<Rightarrow> rat) \<Rightarrow> (rat \<Rightarrow> rat) \<Rightarrow> rat \<Rightarrow> rat \<Rightarrow> rat \<Rightarrow>
    bucket option \<Rightarrow> (int \<times> int \<times> int) \<times> bucket \<times> int" where
  "token_bucket_script rd st bucket_size refill_rate now data =
     (let (tk, last) = (case data of None \<Rightarrow> (bucket_size, now)
                                   | Some b \<Rightarrow> (tokens b, last_refill b));
          elapsed = rd (now - last);
          refill = rd (elapsed * refill_rate);
          tk = min bucket_size (rd (tk + refill));
          (tk, allowed) = (if 1 \<le> tk then (rd (tk - 1), 1) else (tk, 0));
          ttl = \<lceil>rd (rd (bucket_size / refill_rate) * 2)\<rceil>;
          retry_after_ms =
            (if allowed = 0 then \<lceil>rd (rd (rd (1 - tk) / refill_rate) * 1000)\<rceil> else 0)
      in ((allowed, \<lfloor>tk\<rfloor>, retry_after_ms),
          \<lparr>tokens = rd (st tk), last_refill = rd (st now)\<rparr>, ttl))"

definition is_allowed :: "(int \<times> int \<times> int) \<times> bucket \<times> int \<Rightarrow> bool" where
  "is_allowed r \<longleftrightarrow> fst (fst r) = 1"

definition stored :: "(int \<times> int \<times> int) \<times> bucket \<times> int \<Rightarrow> bucket" where
  "stored r = fst (snd r)"

definition retry_ms :: "(int \<times> int \<times> int) \<times> bucket \<times> int \<Rightarrow> int" where
  "retry_ms r = snd (snd (fst r))"

definition ttl_of :: "(int \<times> int \<times> int) \<times> bucket \<times> int \<Rightarrow> int" where
  "ttl_of r = snd (snd r)"

text \<open>The balance after the refill, before the attempt to take a token.\<close>

definition refilled :: "(rat \<Rightarrow> rat) \<Rightarrow> rat \<Rightarrow> rat \<Rightarrow> rat \<Rightarrow> bucket option \<Rightarrow> rat" where
  "refilled rd bucket_size refill_rate now data =
     (let (tk, last) = (case data of None \<Rightarrow> (bucket_size, now)
                                   | Some b \<Rightarrow> (tokens b, last_refill b))
      in min bucket_size (rd (tk + rd (rd (now - last) * refill_rate))))"

lemma script_parts [simp]:
  "is_allowed (token_bucket_script rd st n r now d) \<longleftrightarrow> 1 \<le> refilled rd n r now d"
  "tokens (stored (token_bucket_script rd st n r now d)) =
     (let tk = refilled rd n r now d in rd (st (if 1 \<le> tk then rd (tk - 1) else tk)))"
  "last_refill (stored (token_bucket_script rd st n r now d)) = rd (st now)"
  "retry_ms (token_bucket_script rd st n r now d) =
     (let tk = refilled rd n r now d in
      if 1 \<le> tk then 0 else \<lceil>rd (rd (rd (1 - tk) / r) * 1000)\<rceil>)"
  "ttl_of (token_bucket_script rd st n r now d) = \<lceil>rd (rd (n / r) * 2)\<rceil>"
  by (auto simp: token_bucket_script_def refilled_def is_allowed_def stored_def retry_ms_def
      ttl_of_def Let_def split: prod.splits)

text \<open>Calls at a list of times on one bucket: how many are allowed, and the bucket left.\<close>

fun bucket_run :: "(rat \<Rightarrow> rat) \<Rightarrow> (rat \<Rightarrow> rat) \<Rightarrow> rat \<Rightarrow> rat \<Rightarrow> rat list \<Rightarrow> bucket option \<Rightarrow>
    nat \<times> bucket option" where
  "bucket_run rd st n r [] d = (0, d)"
| "bucket_run rd st n r (t # ts) d =
     (let res = token_bucket_script rd st n r t d;
          (k, d') = bucket_run rd st n r ts (Some (stored res))
      in (if is_allowed res then Suc k else k, d'))"

section \<open>Ideal arithmetic\<close>

abbreviation "ideal_script \<equiv> token_bucket_script (\<lambda>x. x) (\<lambda>x. x)"
abbreviation "ideal_run \<equiv> bucket_run (\<lambda>x. x) (\<lambda>x. x)"
abbreviation "lua_script \<equiv> token_bucket_script fl64 fmt14"
abbreviation "lua_run \<equiv> bucket_run fl64 fmt14"

lemma refilled_le: "refilled rd n r now d \<le> n"
  by (simp add: refilled_def split: option.splits prod.splits)

lemma refilled_ideal:
  "refilled (\<lambda>x. x) n r now (Some b) = min n (tokens b + (now - last_refill b) * r)"
  "0 \<le> n \<Longrightarrow> refilled (\<lambda>x. x) n r now None = n"
  by (simp_all add: refilled_def)

lemma bucket_run_Cons:
  "fst (bucket_run rd st n r (t # ts) d) =
     (if 1 \<le> refilled rd n r t d then 1 else 0) +
     fst (bucket_run rd st n r ts (Some (stored (token_bucket_script rd st n r t d))))"
  by (simp add: Let_def split: prod.split)

text \<open>
  The balance plus what was let through never exceeds what was there plus what flowed in.
\<close>

lemma ideal_run_le:
  assumes "0 \<le> r" and "1 \<le> n"
    and "sorted (last_refill b # ts)" and "0 \<le> tokens b"
  shows "of_nat (fst (ideal_run n r ts (Some b))) \<le>
    tokens b + r * (last (last_refill b # ts) - last_refill b)"
  using assms(3-4)
proof (induction ts arbitrary: b)
  case Nil
  then show ?case by simp
next
  case (Cons t ts)
  let ?tk = "refilled (\<lambda>x. x) n r t (Some b)"
  let ?b = "stored (ideal_script n r t (Some b))"
  have "0 \<le> (t - last_refill b) * r" using Cons.prems assms(1) by simp
  then have tk: "0 \<le> ?tk" "?tk \<le> tokens b + (t - last_refill b) * r"
    using Cons.prems assms(2) by (simp_all add: refilled_ideal)
  have b: "last_refill ?b = t" "tokens ?b = (if 1 \<le> ?tk then ?tk - 1 else ?tk)"
    by (simp_all add: Let_def)
  have "sorted (last_refill ?b # ts)" using Cons.prems(1) by (simp add: b(1))
  moreover have "0 \<le> tokens ?b" using tk(1) by (simp add: Let_def)
  ultimately have "of_nat (fst (ideal_run n r ts (Some ?b))) \<le> tokens ?b + r * (last (t # ts) - t)"
    using Cons.IH [of ?b] by (simp only: b(1))
  then have "of_nat (fst (ideal_run n r (t # ts) (Some b))) \<le> ?tk + r * (last (t # ts) - t)"
    unfolding bucket_run_Cons b(2) by (simp only: of_nat_add split: if_splits) auto
  moreover have "last (last_refill b # t # ts) = last (t # ts)" by simp
  ultimately show ?case using tk(2) by (simp only:) (simp add: algebra_simps)
qed

lemma ideal_retry:
  assumes "0 < r" and "1 \<le> n"
    and denied: "\<not> is_allowed (ideal_script n r now d)"
    and later: "now + of_int (retry_ms (ideal_script n r now d)) / 1000 \<le> now'"
  shows "is_allowed (ideal_script n r now' (Some (stored (ideal_script n r now d))))"
proof -
  let ?tk = "refilled (\<lambda>x. x) n r now d"
  have tk: "?tk < 1" using denied by simp
  have "(1 - ?tk) / r * 1000 \<le> of_int \<lceil>(1 - ?tk) / r * 1000\<rceil>" by simp
  also have "\<dots> \<le> (now' - now) * 1000" using later tk by (simp add: Let_def field_simps)
  finally have "1 - ?tk \<le> (now' - now) * r" using assms(1) by (simp add: field_simps)
  then show ?thesis using assms(2) tk by (simp add: refilled_ideal Let_def)
qed

section \<open>Whole seconds in the script's own arithmetic\<close>

text \<open>At one instant of a whole second all quantities are integers, which both roundings keep.\<close>

lemma script_whole_second:
  assumes "k \<le> 10 ^ 14" and "t \<le> 10 ^ 14" and "k \<le> n"
  shows "refilled fl64 (of_nat n) r (of_nat t) (Some \<lparr>tokens = of_nat k, last_refill = of_nat t\<rparr>) =
    of_nat k"
proof -
  have "fl64 (of_nat k) = of_nat k" using assms(1) by (intro fl64_nat) simp
  then show ?thesis using assms(3) by (simp add: refilled_def)
qed

lemma roundings_nat: "k \<le> 10 ^ 14 \<Longrightarrow> fl64 (fmt14 (of_nat k)) = of_nat k"
  using g14.exact_int [of "int k"] fl64_nat [of k] by simp

lemma stored_whole_second:
  assumes "k \<le> n" and "n \<le> 10 ^ 14" and "t \<le> 10 ^ 14"
    and tk: "refilled fl64 (of_nat n) r (of_nat t) d = of_nat k"
  shows "stored (lua_script (of_nat n) r (of_nat t) d) =
    \<lparr>tokens = of_nat (k - 1), last_refill = of_nat t\<rparr>"
proof -
  have "fl64 (of_nat k - 1) = of_nat (k - 1)" if "1 \<le> k"
    using fl64_nat [of "k - 1"] that assms by (simp add: of_nat_diff)
  then show ?thesis
    using tk roundings_nat [of "k - 1"] roundings_nat [of t] assms
    by (intro bucket.equality; cases k) (simp_all add: Let_def)
qed

lemma burst_whole_second:
  assumes "n \<le> 10 ^ 14" and "t \<le> 10 ^ 14" and "k \<le> n"
  shows "fst (lua_run (of_nat n) r (replicate m (of_nat t))
    (Some \<lparr>tokens = of_nat k, last_refill = of_nat t\<rparr>)) = min m k"
  using assms(3)
proof (induction m arbitrary: k)
  case 0
  then show ?case by simp
next
  case (Suc m)
  let ?d = "Some \<lparr>tokens = of_nat k, last_refill = of_nat t :: rat\<rparr>"
  have tk: "refilled fl64 (of_nat n) r (of_nat t) ?d = of_nat k"
    using Suc.prems assms by (intro script_whole_second) auto
  have "fst (lua_run (of_nat n) r (replicate m (of_nat t))
      (Some \<lparr>tokens = of_nat (k - 1), last_refill = of_nat t\<rparr>)) = min m (k - 1)"
    by (rule Suc.IH) (use Suc.prems in simp)
  then show ?case
    using stored_whole_second [OF Suc.prems assms(1,2) tk] tk
    by (cases k) (simp_all only: replicate_Suc bucket_run_Cons, simp_all)
qed

section \<open>Expiry\<close>

lemma script_of_balance:
  "token_bucket_script rd st n r now d =
     (let tk = refilled rd n r now d;
          left = (if 1 \<le> tk then rd (tk - 1) else tk)
      in ((if 1 \<le> tk then 1 else 0, \<lfloor>left\<rfloor>,
           if 1 \<le> tk then 0 else \<lceil>rd (rd (rd (1 - tk) / r) * 1000)\<rceil>),
          \<lparr>tokens = rd (st left), last_refill = rd (st now)\<rparr>, \<lceil>rd (rd (n / r) * 2)\<rceil>))"
  by (cases d) (simp_all add: token_bucket_script_def refilled_def Let_def)

text \<open>Three quarters of the time to live fill the bucket, whatever the roundings lose.\<close>

lemma lua_refill_after_ttl:
  assumes r: "0 < r" and E: "3 / 4 * of_int \<lceil>fl64 (fl64 (n / r) * 2)\<rceil> \<le> E" and n: "0 \<le> n"
  shows "5 / 4 * n \<le> fl64 (fl64 E * r)"
proof -
  let ?c = "1 - 1 / 2 ^ 53 :: rat"
  have c: "0 \<le> ?c" by simp
  have "n / r * ?c * 2 * ?c \<le> fl64 (n / r) * 2 * ?c"
    using fl64_lower [of "n / r"] r n by (intro mult_right_mono) auto
  also have "\<dots> \<le> fl64 (fl64 (n / r) * 2)"
    using r n by (intro fl64_lower) (auto intro: f64.nonneg)
  also have "\<dots> \<le> 4 / 3 * E" using E le_of_int_ceiling [of "fl64 (fl64 (n / r) * 2)"] by linarith
  finally have E': "3 / 2 * (n / r * ?c * ?c) \<le> E" by simp
  moreover have "0 \<le> 3 / 2 * (n / r * ?c * ?c)" using r n c by simp
  ultimately have E0: "0 \<le> E" by linarith
  have "3 / 2 * (n * ?c * ?c) * ?c * ?c = 3 / 2 * (n / r * ?c * ?c) * ?c * r * ?c"
    using r by simp
  also have "\<dots> \<le> E * ?c * r * ?c"
    using E' r c by (intro mult_right_mono) auto
  also have "\<dots> \<le> fl64 E * r * ?c"
    using fl64_lower [OF E0] r c by (intro mult_right_mono) auto
  also have "\<dots> \<le> fl64 (fl64 E * r)"
    using r E0 by (intro fl64_lower) (simp add: f64.nonneg)
  finally have "n * (3 / 2 * ?c ^ 4) \<le> fl64 (fl64 E * r)"
    by (simp only: power4_eq_xxxx) (simp only: mult.assoc mult.commute mult.left_commute)
  moreover have "n * (5 / 4) \<le> n * (3 / 2 * ?c ^ 4)"
    using n by (intro mult_left_mono) (simp_all add: power4_eq_xxxx)
  ultimately show ?thesis by (simp add: mult.commute)
qed

text \<open>
  Calls at given times on one key, each with whether Redis dropped the key before it: the answers,
  and the bucket each call would find if the key never expired.
\<close>

fun expiring_run :: "nat \<Rightarrow> rat \<Rightarrow> (rat \<times> bool) list \<Rightarrow> bucket option \<Rightarrow> (int \<times> int \<times> int) list" where
  "expiring_run n r [] d = []"
| "expiring_run n r ((t, expired) # calls) d =
     (let res = lua_script (of_nat n) r t (if expired then None else d)
      in fst res # expiring_run n r calls (Some (stored res)))"

fun bucket_trace :: "nat \<Rightarrow> rat \<Rightarrow> (rat \<times> bool) list \<Rightarrow> bucket option \<Rightarrow> (rat \<times> bool \<times> bucket) list" where
  "bucket_trace n r [] d = []"
| "bucket_trace n r ((t, expired) # calls) d =
     (case d of None \<Rightarrow> [] | Some b \<Rightarrow> [(t, expired, b)]) @
     bucket_trace n r calls (Some (stored (lua_script (of_nat n) r t d)))"

lemma expired_bucket_is_full:
  assumes "0 < r" and "n \<le> 2 ^ 53"
    and "3 / 4 * of_int (ttl_of (lua_script (of_nat n) r t d)) \<le> now - last_refill b"
    and "- (of_nat n / 4) \<le> tokens b"
  shows "lua_script (of_nat n) r now (Some b) = lua_script (of_nat n) r now None"
proof -
  have n: "fl64 (of_nat n) = of_nat n" using assms(2) by (rule fl64_nat)
  have "5 / 4 * of_nat n \<le> fl64 (fl64 (now - last_refill b) * r)"
    using lua_refill_after_ttl [OF assms(1), of "of_nat n"] assms(3) by simp
  then have "of_nat n \<le> tokens b + fl64 (fl64 (now - last_refill b) * r)"
    using assms(4) by simp
  from f64.mono [OF this] have "refilled fl64 (of_nat n) r now (Some b) = of_nat n"
    by (simp add: refilled_def n)
  moreover have "refilled fl64 (of_nat n) r now None = of_nat n" by (simp add: refilled_def n)
  ultimately show ?thesis unfolding script_of_balance by (simp only:)
qed

lemma expiring_run_eq:
  assumes "0 < r" and "n \<le> 2 ^ 53"
    and "\<forall>(t, expired, b)\<in>set (bucket_trace n r calls d). expired \<longrightarrow>
      3 / 4 * of_int (ttl_of (lua_script (of_nat n) r t None)) \<le> t - last_refill b \<and>
      - (of_nat n / 4) \<le> tokens b"
  shows "expiring_run n r calls d = expiring_run n r (map (\<lambda>(t, expired). (t, False)) calls) d"
  using assms(3)
proof (induction calls arbitrary: d)
  case (Cons c calls)
  obtain t expired where c: "c = (t, expired)" by force
  have "lua_script (of_nat n) r t (if expired then None else d) = lua_script (of_nat n) r t d"
  proof (cases "expired \<and> d \<noteq> None")
    case True
    then obtain b where "d = Some b" by blast
    with True Cons.prems c show ?thesis
      using expired_bucket_is_full [OF assms(1,2), of t None t b] by simp
  qed auto
  moreover have "expiring_run n r calls (Some (stored (lua_script (of_nat n) r t d))) =
      expiring_run n r (map (\<lambda>(t, expired). (t, False)) calls) (Some (stored (lua_script (of_nat n) r t d)))"
    by (rule Cons.IH) (use Cons.prems c in \<open>auto split: option.splits\<close>)
  ultimately show ?case by (simp add: c Let_def)
qed simp

text \<open>A clock that is never behind the recorded refill keeps the balance from falling below zero.\<close>

lemma steady_balances:
  assumes "0 < r" and "n \<le> 2 ^ 53"
  shows "\<forall>(t, expired, b)\<in>set (bucket_trace n r calls d). last_refill b \<le> t \<Longrightarrow>
    case d of None \<Rightarrow> True | Some b \<Rightarrow> 0 \<le> tokens b \<Longrightarrow>
    \<forall>(t, expired, b)\<in>set (bucket_trace n r calls d). 0 \<le> tokens b"
proof (induction calls arbitrary: d)
  case (Cons c calls)
  obtain t expired where c: "c = (t, expired)" by force
  have n: "fl64 (of_nat n) = of_nat n" using assms(2) by (rule fl64_nat)
  have "0 \<le> refilled fl64 (of_nat n) r t d"
  proof (cases d)
    case None
    then show ?thesis by (simp add: refilled_def n)
  next
    case (Some b)
    then have "0 \<le> t - last_refill b" "0 \<le> tokens b" using Cons.prems c by auto
    then have "0 \<le> fl64 (tokens b + fl64 (fl64 (t - last_refill b) * r))"
      using assms(1) by (intro f64.nonneg add_nonneg_nonneg mult_nonneg_nonneg) auto
    then show ?thesis by (simp add: refilled_def Some)
  qed
  then have "0 \<le> tokens (stored (lua_script (of_nat n) r t d))"
    by (auto simp: Let_def intro!: f64.nonneg g14.nonneg)
  then have "\<forall>(t, expired, b)\<in>set (bucket_trace n r calls (Some (stored (lua_script (of_nat n) r t d)))). 0 \<le> tokens b"
    using Cons.prems c by (intro Cons.IH) auto
  then show ?case using Cons.prems(2) by (auto simp: c split: option.splits)
qed simp

section \<open>The limiter\<close>

record limiter =
  lim_bucket_size :: int
  lim_refill_rate :: float
  lim_key_prefix :: string
  script_sha :: "string option"

record rate_info =
  info_remaining :: float
  info_limit :: float
  info_retry_after :: float

definition limiter_init :: "int \<Rightarrow> float \<Rightarrow> string \<Rightarrow> limiter" where
  "limiter_init bucket_size refill_rate key_prefix =
     \<lparr>lim_bucket_size = bucket_size, lim_refill_rate = refill_rate, lim_key_prefix = key_prefix,
      script_sha = None\<rparr>"

definition bucket_key :: "limiter \<Rightarrow> string \<Rightarrow> string" where
  "bucket_key rl api_key = lim_key_prefix rl @ '':'' @ api_key"

definition ensure_script_loaded :: "redis_client \<Rightarrow> (string, 'z) action \<Rightarrow> limiter \<Rightarrow> 'z \<Rightarrow>
    string result \<times> limiter \<times> 'z" where
  "ensure_script_loaded cl script_load rl z =
     (case script_sha rl of
        None \<Rightarrow>
          (case bind (redis_property cl) (\<lambda>_. script_load) z of
             (Inl e, z) \<Rightarrow> (Inl e, rl, z)
           | (Inr sha, z) \<Rightarrow> (Inr sha, rl\<lparr>script_sha := Some sha\<rparr>, z))
      | Some sha \<Rightarrow> (Inr sha, rl, z))"

text \<open>\<open>evalsha sha key bucket_size refill_rate now\<close> returns the three integers of the script.\<close>

type_synonym 'z evalsha = "string \<Rightarrow> string \<Rightarrow> int \<Rightarrow> float \<Rightarrow> float \<Rightarrow> (int \<times> int \<times> int, 'z) action"

definition try_consume :: "redis_client \<Rightarrow> (string, 'z) action \<Rightarrow> 'z evalsha \<Rightarrow> float \<Rightarrow> limiter \<Rightarrow>
    string \<Rightarrow> 'z \<Rightarrow> (bool \<times> rate_info) result \<times> limiter \<times> 'z" where
  "try_consume cl script_load evalsha now rl api_key z =
     (let (sha, rl, z) = ensure_script_loaded cl script_load rl z;
          (res, z) =
            (case sha of
               Inl e \<Rightarrow> (Inl e, z)
             | Inr sha \<Rightarrow> bind (redis_property cl)
                 (\<lambda>_. evalsha sha (bucket_key rl api_key) (lim_bucket_size rl)
                        (lim_refill_rate rl) now) z)
      in case res of
           Inr (allowed, remaining, retry_after_ms) \<Rightarrow>
             (Inr (allowed \<noteq> 0,
                \<lparr>info_remaining = fl64 (of_int remaining),
                 info_limit = fl64 (of_int (lim_bucket_size rl)),
                 info_retry_after = fdiv (of_int retry_after_ms) 1000\<rparr>), rl, z)
         | Inl e \<Rightarrow>
             (if is_Exception e
              then (Inr (True,
                \<lparr>info_remaining = fl64 (of_int (lim_bucket_size rl)),
                 info_limit = fl64 (of_int (lim_bucket_size rl)),
                 info_retry_after = 0\<rparr>), rl, z)
              else (Inl e, rl, z)))"

text \<open>What the limiter relies on: \<^verbatim>\<open>SCRIPT LOAD\<close> and \<^verbatim>\<open>EVALSHA\<close> as Redis documents them.\<close>

locale script_store =
  fixes script_load :: "(string, 'z) action"
    and evalsha :: "'z evalsha"
    and sha :: string
    and loaded :: "'z \<Rightarrow> bool"
    and bucket_at :: "'z \<Rightarrow> string \<Rightarrow> bucket option"
  assumes load: "\<exists>z'. script_load z = (Inr sha, z') \<and> loaded z' \<and> bucket_at z' = bucket_at z"
    and run: "loaded z \<Longrightarrow> 1 \<le> n \<Longrightarrow> 0 < r \<Longrightarrow> \<exists>z'. evalsha sha k n r now z =
        (Inr (fst (lua_script (of_int n) r now (bucket_at z k))), z') \<and> loaded z' \<and>
        bucket_at z' = (bucket_at z)(k := Some (stored (lua_script (of_int n) r now (bucket_at z k))))"
    and noscript: "\<not> loaded z \<Longrightarrow>
        \<exists>e. evalsha sha k n r now z = (Inl e, z) \<and> is_Exception e"
begin

text \<open>With a script that is loaded, or not yet looked for, the limiter's answer is the script's.\<close>

lemma try_consume_answers:
  fixes key :: string and now :: float and rl :: limiter and z :: 'z
  assumes open_client: "redis_open cl"
    and st: "script_sha rl = None \<or> script_sha rl = Some sha \<and> loaded z"
    and positive: "1 \<le> lim_bucket_size rl" "0 < lim_refill_rate rl"
  defines "d \<equiv> bucket_at z (bucket_key rl key)"
  defines "res \<equiv> lua_script (of_int (lim_bucket_size rl)) (lim_refill_rate rl) now d"
  shows "\<exists>info rl' z'. try_consume cl script_load evalsha now rl key z =
      (Inr (is_allowed res, info), rl', z') \<and>
    info_retry_after info = fdiv (of_int (retry_ms res)) 1000 \<and>
    rl' = rl\<lparr>script_sha := Some sha\<rparr> \<and> loaded z' \<and>
    bucket_at z' = (bucket_at z)(bucket_key rl key := Some (stored res))"
proof -
  obtain z1 where z1: "ensure_script_loaded cl script_load rl z =
      (Inr sha, rl\<lparr>script_sha := Some sha\<rparr>, z1)" "loaded z1" "bucket_at z1 = bucket_at z"
    using st load [of z] open_client
    by (auto simp: ensure_script_loaded_def bind_def split: option.splits)
  have key: "bucket_key (rl\<lparr>script_sha := Some sha\<rparr>) key = bucket_key rl key"
    by (simp add: bucket_key_def)
  obtain z2 where z2: "evalsha sha (bucket_key rl key) (lim_bucket_size rl)
      (lim_refill_rate rl) now z1 = (Inr (fst res), z2)" "loaded z2"
      "bucket_at z2 = (bucket_at z)(bucket_key rl key := Some (stored res))"
    using run [OF z1(2) positive, of "bucket_key rl key" now]
    unfolding res_def d_def z1(3) by blast
  obtain a b c where abc: "fst res = (a, b, c)" by (cases "fst res") auto
  have "a = 0 \<or> a = 1" using abc by (auto simp: res_def script_of_balance Let_def split: if_splits)
  then show ?thesis
    using z2 abc open_client
    by (auto simp: try_consume_def z1(1) key bind_def is_allowed_def retry_ms_def)
qed

text \<open>A script cache that was emptied is not noticed: the remembered hash is used for ever.\<close>

lemma flushed_cache_fails_open:
  assumes "redis_open cl" and "script_sha rl = Some sha" and "\<not> loaded z"
  shows "try_consume cl script_load evalsha now rl key z =
    (Inr (True, \<lparr>info_remaining = fl64 (of_int (lim_bucket_size rl)),
       info_limit = fl64 (of_int (lim_bucket_size rl)), info_retry_after = 0\<rparr>), rl, z)"
  using noscript [OF assms(3), of "bucket_key rl key" "lim_bucket_size rl" "lim_refill_rate rl" now]
    assms(1,2) by (auto simp: try_consume_def ensure_script_loaded_def bind_def)

end

text \<open>A reference Redis: whether the script is cached, and the buckets.\<close>

record script_redis =
  sr_loaded :: bool
  sr_buckets :: "(string \<times> bucket) list"

definition sr_script_load :: "(string, script_redis) action" where
  "sr_script_load z = (Inr ''sha'', z\<lparr>sr_loaded := True\<rparr>)"

definition sr_evalsha :: "script_redis evalsha" where
  "sr_evalsha sha k n r now z =
     (if sr_loaded z \<and> sha = ''sha''
      then let res = lua_script (of_int n) r now (map_of (sr_buckets z) k)
           in (Inr (fst res), z\<lparr>sr_buckets := AList.update k (stored res) (sr_buckets z)\<rparr>)
      else (Inl (RedisError ''NOSCRIPT''), z))"

interpretation sr: script_store sr_script_load sr_evalsha "''sha''" sr_loaded
    "\<lambda>z. map_of (sr_buckets z)"
  by unfold_locales
    (auto simp: sr_script_load_def sr_evalsha_def Let_def is_Exception_def update_conv' fun_eq_iff)

section \<open>Properties\<close>

text \<open>In ideal arithmetic, over any window of calls in time order, starting from a bucket
  whose balance lies between 0 and the bucket size (in particular a fresh, full one), the
  script lets through at most the bucket size plus the refill rate times the length of the
  window.\<close>

theorem ideal_window_bound:
  assumes "0 < r" and "1 \<le> n" and "sorted (last_refill b # ts)"
    and "0 \<le> tokens b" and "tokens b \<le> n"
  shows "of_nat (fst (bucket_run (\<lambda>x. x) (\<lambda>x. x) n r ts (Some b))) \<le>
    n + r * (last (last_refill b # ts) - last_refill b)"
  using ideal_run_le [OF less_imp_le [OF assms(1)] assms(2-4)] assms(5) by linarith

lemma ideal_window_bound_witness:
  "of_nat (fst (bucket_run (\<lambda>x. x) (\<lambda>x. x) 2 1 [10, 10, 10, 11, 13]
      (Some \<lparr>tokens = 2, last_refill = 10\<rparr>))) \<le> (2 + 1 * (13 - 10) :: rat)"
  using ideal_window_bound [of 1 2 "\<lparr>tokens = 2, last_refill = 10\<rparr>" "[10, 10, 10, 11, 13]"]
  by simp

text \<open>In ideal arithmetic the \<^verbatim>\<open>retry_after_ms\<close> of a denial is honoured: if no other
  call touches the bucket, a call made at least that many milliseconds later is allowed.\<close>

theorem retry_after_is_honoured:
  assumes "0 < r" and "1 \<le> n"
    and "\<not> is_allowed (token_bucket_script (\<lambda>x. x) (\<lambda>x. x) n r now d)"
    and "now + of_int (retry_ms (token_bucket_script (\<lambda>x. x) (\<lambda>x. x) n r now d)) / 1000 \<le> now'"
  shows "is_allowed (token_bucket_script (\<lambda>x. x) (\<lambda>x. x) n r now'
    (Some (stored (token_bucket_script (\<lambda>x. x) (\<lambda>x. x) n r now d))))"
  by (rule ideal_retry [OF assms])

lemma retry_after_is_honoured_witness:
  "is_allowed (token_bucket_script (\<lambda>x. x) (\<lambda>x. x) 2 2 (11 :: rat)
    (Some (stored (token_bucket_script (\<lambda>x. x) (\<lambda>x. x) 2 2 10
      (Some \<lparr>tokens = 1 / 2, last_refill = 10\<rparr>)))))"
  by (rule retry_after_is_honoured) (simp_all add: refilled_def Let_def)

text \<open>In the script's own arithmetic (binary64, with the fourteen digits that
  \<^verbatim>\<open>tostring\<close> keeps), calls made at one whole second on an unused key are allowed up to the
  bucket size exactly.\<close>

theorem burst_is_bucket_size:
  assumes "1 \<le> n" and "n \<le> 10 ^ 14" and "t \<le> 10 ^ 14" and "0 < r"
  shows "fst (bucket_run fl64 fmt14 (of_nat n) r (replicate m (of_nat t)) None) = min m n"
proof (cases m)
  case (Suc m')
  have tk: "refilled fl64 (of_nat n) r (of_nat t) None = of_nat n"
    using fl64_nat [of n] assms by (simp add: refilled_def)
  show ?thesis
    using assms(1) burst_whole_second [OF assms(2,3), of "n - 1" r m']
    by (simp only: Suc replicate_Suc bucket_run_Cons stored_whole_second [OF order.refl assms(2,3) tk])
      (auto simp: tk)
qed simp

lemma burst_is_bucket_size_witness:
  "fst (bucket_run fl64 fmt14 (of_nat 10) 2 (replicate 15 (of_nat 1750000000)) None) = min 15 10"
  by (rule burst_is_bucket_size) simp_all

text \<open>C32: The expiry is unobservable: over any calls on an unused key, in the script's own
  arithmetic, for a positive refill rate and a bucket size of at most \<open>2 ^ 53\<close>, each call answers what it would if the key never expired, wherever Redis drops the
  key between two calls, provided that it does so only when three quarters of the time to live
  that the script sets have passed, by the callers' clocks, since the recorded refill.  The other
  condition is on the balance, which a clock behind the recorded refill (a clock that was set back,
  or an instant within the rounding of the recorded one) lowers: either no call's clock is behind
  the refill it finds recorded, or no key expires with a balance below minus a quarter of the
  bucket size.\<close>

theorem expiry_is_transparent:
  assumes "0 < r" and "n \<le> 2 ^ 53"
    and "\<forall>(t, expired, b)\<in>set (bucket_trace n r calls None). expired \<longrightarrow>
      3 / 4 * of_int (ttl_of (token_bucket_script fl64 fmt14 (of_nat n) r t None)) \<le> t - last_refill b"
    and "(\<forall>(t, expired, b)\<in>set (bucket_trace n r calls None). last_refill b \<le> t) \<or>
      (\<forall>(t, expired, b)\<in>set (bucket_trace n r calls None). expired \<longrightarrow> - (of_nat n / 4) \<le> tokens b)"
  shows "expiring_run n r calls None = expiring_run n r (map (\<lambda>(t, expired). (t, False)) calls) None"
proof (rule expiring_run_eq [OF assms(1,2)])
  have "\<forall>(t, expired, b)\<in>set (bucket_trace n r calls None). expired \<longrightarrow> - (of_nat n / 4) \<le> tokens b"
    using assms(4)
  proof
    assume "\<forall>(t, expired, b)\<in>set (bucket_trace n r calls None). last_refill b \<le> t"
    then have "\<forall>(t, expired, b)\<in>set (bucket_trace n r calls None). 0 \<le> tokens b"
      by (rule steady_balances [OF assms(1,2)]) simp
    then show ?thesis by (force intro: order.trans [of _ 0])
  qed
  with assms(3) show "\<forall>(t, expired, b)\<in>set (bucket_trace n r calls None). expired \<longrightarrow>
      3 / 4 * of_int (ttl_of (lua_script (of_nat n) r t None)) \<le> t - last_refill b \<and>
      - (of_nat n / 4) \<le> tokens b" by blast
qed

lemma fl64_small: "fl64 10 = 10" "fl64 5 = 5"
  by (rule fl64_numeral; simp)+

text \<open>Two calls at one second and a third ten seconds later, before which the key expires.\<close>

lemma expiry_is_transparent_witness:
  "expiring_run 10 2 [(10, False), (10, False), (20, True)] None =
    expiring_run 10 2 [(10, False), (10, False), (20, False)] None"
proof -
  have refill: "last_refill (stored (lua_script 10 2 10 d)) = 10" for d
    using roundings_nat [of 10] by simp
  have "expiring_run 10 2 [(10, False), (10, False), (20, True)] None =
      expiring_run 10 2 (map (\<lambda>(t, expired). (t, False)) [(10, False), (10, False), (20, True)]) None"
    by (rule expiry_is_transparent) (simp_all add: refill fl64_small del: script_parts(2,3))
  then show ?thesis by (simp only: list.map prod.case)
qed

text \<open>C33: With Redis up and the script cached or not yet looked for, \<^verbatim>\<open>try_consume\<close> answers
  what the script answers on the bucket of this API key, reports the denial's waiting time in
  seconds, remembers the script's hash, and leaves every other key's bucket alone.\<close>

theorem try_consume_runs_the_script:
  assumes "script_store script_load evalsha sha loaded bucket_at"
    and "redis_open cl"
    and "script_sha rl = None \<or> script_sha rl = Some sha \<and> loaded z"
    and "1 \<le> lim_bucket_size rl" and "0 < lim_refill_rate rl"
    and "res = token_bucket_script fl64 fmt14 (of_int (lim_bucket_size rl)) (lim_refill_rate rl) now
      (bucket_at z (bucket_key rl key))"
  shows "\<exists>info rl' z'. try_consume cl script_load evalsha now rl key z =
      (Inr (is_allowed res, info), rl', z') \<and>
    info_retry_after info = fdiv (of_int (retry_ms res)) 1000 \<and>
    rl' = rl\<lparr>script_sha := Some sha\<rparr> \<and> loaded z' \<and>
    bucket_at z' = (bucket_at z)(bucket_key rl key := Some (stored res))"
  using script_store.try_consume_answers [OF assms(1-5)] unfolding assms(6) .

lemma try_consume_runs_the_script_witness:
  "\<exists>info rl' z'. try_consume \<lparr>redis_url = '''', redis_open = True\<rparr> sr_script_load sr_evalsha 5
      (limiter_init 10 2 ''rate_limit'') ''user'' \<lparr>sr_loaded = False, sr_buckets = []\<rparr> =
      (Inr (is_allowed (token_bucket_script fl64 fmt14 (of_int 10) 2 5 None), info), rl', z') \<and>
    info_retry_after info =
      fdiv (of_int (retry_ms (token_bucket_script fl64 fmt14 (of_int 10) 2 5 None))) 1000"
  using try_consume_runs_the_script [OF sr.script_store_axioms,
    of "\<lparr>redis_url = '''', redis_open = True\<rparr>" "limiter_init 10 2 ''rate_limit''"
       "\<lparr>sr_loaded = False, sr_buckets = []\<rparr>" _ 5 "''user''"]
  by (fastforce simp: limiter_init_def bucket_key_def)

text \<open>After Redis lost its script cache (a restart, \<^verbatim>\<open>SCRIPT FLUSH\<close>), a limiter that
  remembers the hash allows every call with a full bucket reported, changes nothing and
  never loads the script again, so the limit is off until the process restarts.\<close>

theorem flushed_script_disables_limit:
  assumes "script_store script_load evalsha sha loaded bucket_at"
    and "redis_open cl" and "script_sha rl = Some sha" and "\<not> loaded z"
  shows "try_consume cl script_load evalsha now rl key z =
    (Inr (True, \<lparr>info_remaining = fl64 (of_int (lim_bucket_size rl)),
       info_limit = fl64 (of_int (lim_bucket_size rl)), info_retry_after = 0\<rparr>), rl, z)"
  by (rule script_store.flushed_cache_fails_open [OF assms])

lemma flushed_script_disables_limit_witness:
  "try_consume \<lparr>redis_url = '''', redis_open = True\<rparr> sr_script_load sr_evalsha 5
      ((limiter_init 10 2 ''rate_limit'')\<lparr>script_sha := Some ''sha''\<rparr>) ''user''
      \<lparr>sr_loaded = False, sr_buckets = []\<rparr> =
    (Inr (True, \<lparr>info_remaining = fl64 (of_int 10), info_limit = fl64 (of_int 10),
       info_retry_after = 0\<rparr>),
     (limiter_init 10 2 ''rate_limit'')\<lparr>script_sha := Some ''sha''\<rparr>,
     \<lparr>sr_loaded = False, sr_buckets = []\<rparr>)"
  using flushed_script_disables_limit [OF sr.script_store_axioms,
    of "\<lparr>redis_url = '''', redis_open = True\<rparr>"
       "(limiter_init 10 2 ''rate_limit'')\<lparr>script_sha := Some ''sha''\<rparr>"
       "\<lparr>sr_loaded = False, sr_buckets = []\<rparr>" 5 "''user''"]
  by (simp add: limiter_init_def)

lemma fmt14_rounds_up: "fmt14 (1750000000 + 3 / 2 ^ 15) = 17500000000001 / 10 ^ 4"
  by (simp add: fl_eval)

text \<open>The reported balance can be negative: the fourteen digits the script keeps of the clock
  can lie after the instant itself, so that a second call at the same instant refills a
  negative amount; on a bucket of one token it is denied with less than 0 remaining.\<close>

theorem remaining_can_be_negative:
  assumes "0 < r" and "now < fl64 (fmt14 now)"
    and "d = Some (stored (token_bucket_script fl64 fmt14 1 r now None))"
  shows "\<not> is_allowed (token_bucket_script fl64 fmt14 1 r now d) \<and>
    fst (snd (fst (token_bucket_script fl64 fmt14 1 r now d))) < 0"
proof -
  let ?tk = "refilled fl64 1 r now d"
  have first: "refilled fl64 1 r now None = 1" using fl64_nat [of 1] by (simp add: refilled_def)
  have "d = Some \<lparr>tokens = 0, last_refill = fl64 (fmt14 now)\<rparr>"
    unfolding assms(3) by (simp add: first Let_def)
  then have tk: "?tk \<le> fl64 (fl64 (fl64 (now - fl64 (fmt14 now)) * r))"
    by (simp add: refilled_def)
  have "fl64 (now - fl64 (fmt14 now)) * r < 0"
    using assms(1,2) by (simp add: fl64_neg mult_neg_pos)
  with tk have "?tk < 0" using fl64_neg by (meson le_less_trans)
  then show ?thesis by (simp add: is_allowed_def script_of_balance Let_def floor_less_iff)
qed

lemma remaining_can_be_negative_witness:
  "let now = 1750000000 + 3 / 2 ^ 15;
       d = Some (stored (token_bucket_script fl64 fmt14 1 2 now None))
   in fst (snd (fst (token_bucket_script fl64 fmt14 1 2 now d))) < 0"
proof -
  let ?now = "1750000000 + 3 / 2 ^ 15 :: rat"
  have "?now < 17500000000001 / 10 ^ 4 * (1 - 1 / 2 ^ 53)" by simp
  also have "\<dots> \<le> fl64 (fmt14 ?now)" unfolding fmt14_rounds_up by (rule fl64_lower) simp
  finally have "?now < fl64 (fmt14 ?now)" .
  from remaining_can_be_negative [OF _ this refl, of 2] show ?thesis by (simp only: Let_def)
qed

end
