(* ===== verification/Memory_Profiler.thy ===== *)
theory Memory_Profiler
  imports KV_Cache
begin

text \<open>
  \<^verbatim>\<open>profiler/{tracker,watermark,pressure,memory_estimator,config}.py\<close>: manual allocation
  accounting, the watermark level with its callbacks on transitions, the handler that evicts
  from the KV cache and rejects requests, and the memory estimates.  The CUDA runtime is a
  parameter: what it reports at a call, \<open>None\<close> where it is not available.
\<close>

section \<open>The tracker\<close>

record mem_config =
  mem_enabled :: bool
  high_watermark_ratio :: float
  critical_watermark_ratio :: float
  total_memory_bytes :: int
  enable_cuda :: bool

record cuda_device =
  dev_allocated :: int
  dev_reserved :: int
  dev_total :: "int result"  \<comment> \<open>what reading \<^verbatim>\<open>total_mem\<close> gives or raises\<close>

record tracker =
  tr_config :: mem_config
  manual_allocations :: "(string \<times> int) list"
  tr_total_bytes :: int

record mem_snapshot =
  allocated_bytes :: int
  reserved_bytes :: int
  total_bytes :: int
  snap_manual :: "(string \<times> int) list"

definition visible_device :: "mem_config \<Rightarrow> cuda_device option \<Rightarrow> cuda_device option" where
  "visible_device cfg dev = (if enable_cuda cfg then dev else None)"

definition tracker_init :: "mem_config \<Rightarrow> cuda_device option \<Rightarrow> tracker result" where
  "tracker_init cfg dev =
     map_sum id (\<lambda>total. \<lparr>tr_config = cfg, manual_allocations = [], tr_total_bytes = total\<rparr>)
       (if total_memory_bytes cfg = 0
        then (case visible_device cfg dev of
                Some d \<Rightarrow> dev_total d
              | None \<Rightarrow> Inr (8 * 1024 * 1024 * 1024))
        else Inr (total_memory_bytes cfg))"

definition snapshot :: "cuda_device option \<Rightarrow> tracker \<Rightarrow> mem_snapshot" where
  "snapshot dev tr =
     (let (allocated, reserved) =
        (case visible_device (tr_config tr) dev of
           Some d \<Rightarrow> (dev_allocated d, dev_reserved d)
         | None \<Rightarrow> (let a = sum_list (map snd (manual_allocations tr)) in (a, a)))
      in \<lparr>allocated_bytes = allocated, reserved_bytes = reserved, total_bytes = tr_total_bytes tr,
          snap_manual = manual_allocations tr\<rparr>)"

definition utilization :: "mem_snapshot \<Rightarrow> float" where
  "utilization s =
     (if total_bytes s = 0 then 0 else fdiv (of_int (allocated_bytes s)) (of_int (total_bytes s)))"

definition register_allocation :: "string \<Rightarrow> int \<Rightarrow> tracker \<Rightarrow> tracker" where
  "register_allocation tag size_bytes tr =
     (let current = (case map_of (manual_allocations tr) tag of None \<Rightarrow> 0 | Some n \<Rightarrow> n)
      in tr\<lparr>manual_allocations := AList.update tag (current + size_bytes) (manual_allocations tr)\<rparr>)"

definition release :: "string \<Rightarrow> int option \<Rightarrow> tracker \<Rightarrow> tracker" where
  "release tag size_bytes tr =
     (case map_of (manual_allocations tr) tag of
        None \<Rightarrow> tr
      | Some held \<Rightarrow>
          (case size_bytes of
             None \<Rightarrow> tr\<lparr>manual_allocations := AList.delete tag (manual_allocations tr)\<rparr>
           | Some n \<Rightarrow>
               (let left = max 0 (held - n);
                    d = AList.update tag left (manual_allocations tr)
                in if left = 0 then tr\<lparr>manual_allocations := AList.delete tag d\<rparr>
                   else tr\<lparr>manual_allocations := d\<rparr>)))"

text \<open>
  \<^verbatim>\<open>force_gc\<close> changes what the device reports: \<open>collected\<close> is the effect of \<^verbatim>\<open>gc.collect()\<close>,
  \<open>emptied\<close> that of \<^verbatim>\<open>torch.cuda.empty_cache()\<close>.
\<close>

definition force_gc :: "(cuda_device \<Rightarrow> cuda_device) \<Rightarrow> (cuda_device \<Rightarrow> cuda_device) \<Rightarrow> tracker \<Rightarrow>
    cuda_device option \<Rightarrow> cuda_device option" where
  "force_gc collected emptied tr dev =
     (let dev = map_option collected dev in
      if enable_cuda (tr_config tr) \<and> dev \<noteq> None then map_option emptied dev else dev)"

section \<open>Watermarks\<close>

datatype watermark_level = NORMAL | HIGH | CRITICAL

text \<open>The callbacks are actions on the state \<open>'s\<close> of whoever registered them.\<close>

record 's monitor =
  high_ratio :: float
  critical_ratio :: float
  current_level :: watermark_level
  callbacks :: "watermark_level \<Rightarrow> ('s \<Rightarrow> 's) list"

definition monitor_init :: "float \<Rightarrow> float \<Rightarrow> 's monitor" where
  "monitor_init high critical =
     \<lparr>high_ratio = high, critical_ratio = critical, current_level = NORMAL, callbacks = (\<lambda>_. [])\<rparr>"

definition register_callback :: "watermark_level \<Rightarrow> ('s \<Rightarrow> 's) \<Rightarrow> 's monitor \<Rightarrow> 's monitor" where
  "register_callback level fn mon =
     mon\<lparr>callbacks := (callbacks mon)(level := callbacks mon level @ [fn])\<rparr>"

definition level_of :: "float \<Rightarrow> float \<Rightarrow> float \<Rightarrow> watermark_level" where
  "level_of high critical u = (if critical \<le> u then CRITICAL else if high \<le> u then HIGH else NORMAL)"

definition check :: "cuda_device option \<Rightarrow> tracker \<Rightarrow> 's monitor \<Rightarrow> 's \<Rightarrow>
    watermark_level \<times> 's monitor \<times> 's" where
  "check dev tr mon s =
     (let new_level = level_of (high_ratio mon) (critical_ratio mon) (utilization (snapshot dev tr)) in
      if new_level \<noteq> current_level mon
      then let mon = mon\<lparr>current_level := new_level\<rparr>
           in (new_level, mon, fold (\<lambda>cb s. cb s) (callbacks mon new_level) s)
      else (current_level mon, mon, s))"

record watermark_status =
  ws_level :: watermark_level
  ws_utilization :: float
  ws_high_ratio :: float
  ws_critical_ratio :: float
  ws_allocated_bytes :: int
  ws_total_bytes :: int

definition get_status :: "cuda_device option \<Rightarrow> tracker \<Rightarrow> 's monitor \<Rightarrow> watermark_status" where
  "get_status dev tr mon =
     (let s = snapshot dev tr in
      \<lparr>ws_level = current_level mon, ws_utilization = py_round (utilization s) 4,
       ws_high_ratio = high_ratio mon, ws_critical_ratio = critical_ratio mon,
       ws_allocated_bytes = allocated_bytes s, ws_total_bytes = total_bytes s\<rparr>)"

section \<open>The pressure handler\<close>

record pressure =
  rejecting :: bool
  escalation_step :: nat
  pr_kv :: "kv_cache option"

definition escalation_ratios :: "float list" where
  "escalation_ratios = [fl64 (1 / 10), 1 / 4, 1 / 2]"

text \<open>\<^verbatim>\<open>int(current_memory * ratio)\<close>: the integer becomes a float first.\<close>

definition evict_share_bytes :: "nat \<Rightarrow> int \<Rightarrow> int" where
  "evict_share_bytes step current_memory =
     py_int (fmul (fl64 (of_int current_memory))
       (escalation_ratios ! min step (length escalation_ratios - 1)))"

definition on_high :: "pressure \<Rightarrow> pressure" where
  "on_high h =
     (case pr_kv h of
        None \<Rightarrow> h
      | Some kv \<Rightarrow>
          (let current_memory = st_current_memory_bytes (kv_stats_of kv);
               evict_bytes = evict_share_bytes (escalation_step h) current_memory;
               h = (if 0 < evict_bytes then h\<lparr>pr_kv := Some (evict_lru evict_bytes kv)\<rparr> else h)
           in h\<lparr>escalation_step := escalation_step h + 1\<rparr>))"

definition on_critical :: "pressure \<Rightarrow> pressure" where
  "on_critical h =
     (let h = h\<lparr>rejecting := True\<rparr>
      in case pr_kv h of None \<Rightarrow> h | Some kv \<Rightarrow> h\<lparr>pr_kv := Some (kv_clear kv)\<rparr>)"

definition on_normal :: "pressure \<Rightarrow> pressure" where
  "on_normal h = h\<lparr>rejecting := False, escalation_step := 0\<rparr>"

definition pressure_init :: "pressure monitor \<Rightarrow> kv_cache option \<Rightarrow> pressure monitor \<times> pressure" where
  "pressure_init mon kv =
     (register_callback NORMAL on_normal
        (register_callback CRITICAL on_critical
           (register_callback HIGH on_high mon)),
      \<lparr>rejecting = False, escalation_step = 0, pr_kv = kv\<rparr>)"

definition should_admit :: "cuda_device option \<Rightarrow> tracker \<Rightarrow> pressure monitor \<times> pressure \<Rightarrow>
    bool \<times> pressure monitor \<times> pressure" where
  "should_admit dev tr = (\<lambda>(mon, h).
     let (_, mon, h) = check dev tr mon h in (\<not> rejecting h, mon, h))"

section \<open>Estimates\<close>

record model_memory =
  num_layers :: int
  hidden_dim :: int
  num_heads :: int
  dtype_bytes :: int

definition estimate_kv_cache_bytes :: "model_memory \<Rightarrow> int \<Rightarrow> int \<Rightarrow> int" where
  "estimate_kv_cache_bytes cfg seq_len batch_size =
     2 * num_layers cfg * hidden_dim cfg * seq_len * batch_size * dtype_bytes cfg"

definition estimate_activation_bytes :: "model_memory \<Rightarrow> int \<Rightarrow> int \<Rightarrow> int" where
  "estimate_activation_bytes cfg seq_len batch_size =
     4 * batch_size * seq_len * hidden_dim cfg * dtype_bytes cfg"

definition estimate_total_inference_bytes :: "model_memory \<Rightarrow> int \<Rightarrow> int \<Rightarrow> int" where
  "estimate_total_inference_bytes cfg seq_len batch_size =
     estimate_kv_cache_bytes cfg seq_len batch_size + estimate_activation_bytes cfg seq_len batch_size"

definition can_fit :: "model_memory \<Rightarrow> int \<Rightarrow> int \<Rightarrow> int \<Rightarrow> bool" where
  "can_fit cfg seq_len available_bytes batch_size \<longleftrightarrow>
     estimate_total_inference_bytes cfg seq_len batch_size \<le> available_bytes"

section \<open>Eviction under pressure\<close>

lemma escalation_ratios_range:
  "0 \<le> escalation_ratios ! min step (length escalation_ratios - 1)"
  "escalation_ratios ! min step (length escalation_ratios - 1) \<le> 1 / 2"
proof -
  have "0 \<le> fl64 (1 / 10)" "fl64 (1 / 10) \<le> 1 / 2"
    using fl64_upper [of "1 / 10"] f64.nonneg [of "1 / 10"] by simp_all
  then have "\<forall>r\<in>set escalation_ratios. 0 \<le> r \<and> r \<le> 1 / 2" by (simp add: escalation_ratios_def)
  moreover have "min step (length escalation_ratios - 1) < length escalation_ratios"
    by (simp add: escalation_ratios_def)
  ultimately show "0 \<le> escalation_ratios ! min step (length escalation_ratios - 1)"
    "escalation_ratios ! min step (length escalation_ratios - 1) \<le> 1 / 2"
    by (blast dest: nth_mem)+
qed

lemma evict_share_range:
  assumes "0 \<le> u"
  shows "0 \<le> evict_share_bytes step u" and "evict_share_bytes step u \<le> u"
proof -
  let ?r = "escalation_ratios ! min step (length escalation_ratios - 1)"
  let ?x = "fl64 (of_int u)"
  have x: "0 \<le> ?x" "?x \<le> of_int u * (1 + 1 / 2 ^ 53)"
    using assms fl64_upper [of "of_int u"] f64.nonneg [of "of_int u"] by simp_all
  have "?x * ?r \<le> ?x * (1 / 2)" using x escalation_ratios_range(2) by (rule_tac mult_left_mono)
  then have "?x * ?r * (1 + 1 / 2 ^ 53) \<le> ?x * (1 / 2) * (1 + 1 / 2 ^ 53)" by (intro mult_right_mono) simp_all
  also have "\<dots> \<le> of_int u * (1 + 1 / 2 ^ 53) * (1 / 2) * (1 + 1 / 2 ^ 53)"
    using x(2) by (intro mult_right_mono) simp_all
  also have "\<dots> = of_int u * ((1 + 1 / 2 ^ 53) * (1 / 2) * (1 + 1 / 2 ^ 53))" by (simp only: mult.assoc)
  also have "\<dots> \<le> of_int u * 1" using assms by (intro mult_left_mono) simp_all
  finally have "?x * ?r * (1 + 1 / 2 ^ 53) \<le> of_int u" by simp
  moreover have nonneg: "0 \<le> ?x * ?r" using x(1) escalation_ratios_range(1) by simp
  ultimately have "fl64 (?x * ?r) \<le> of_int u" using fl64_upper [of "?x * ?r"] by linarith
  moreover have "0 \<le> fl64 (?x * ?r)" using nonneg by (rule f64.nonneg)
  ultimately show "0 \<le> evict_share_bytes step u" and "evict_share_bytes step u \<le> u"
    by (simp_all add: evict_share_bytes_def fmul_def py_int_def floor_le_iff)
qed

definition kv_used :: "kv_cache \<Rightarrow> int" where
  "kv_used c = st_current_memory_bytes (kv_stats_of c)"

lemma on_high_frees:
  assumes "kv_inv c"
  shows "\<exists>c'. pr_kv (on_high (h\<lparr>pr_kv := Some c\<rparr>)) = Some c' \<and> kv_inv c' \<and>
    kv_used c' \<le> kv_used c - evict_share_bytes (escalation_step h) (kv_used c)"
proof -
  have "0 \<le> kv_used c" using kvc.used_nonneg [OF assms] by (simp add: kv_used_def)
  note range = evict_share_range [OF this, of "escalation_step h"]
  show ?thesis
    using kvc.evict_share [OF assms range(1), folded kv_used_def, OF range(2)] kvc.invar_evict [OF assms] assms range(1)
    by (auto simp: on_high_def Let_def kv_used_def)
qed

lemma on_critical_frees:
  "kv_inv c \<Longrightarrow> \<exists>c'. pr_kv (on_critical (h\<lparr>pr_kv := Some c\<rparr>)) = Some c' \<and> kv_inv c' \<and> kv_used c' = 0"
  using kvc.wipe_empties kvc.invar_wipe by (simp add: on_critical_def kv_used_def)

section \<open>Reachable states of the handler\<close>

definition observed :: "float \<Rightarrow> float \<Rightarrow> cuda_device option \<Rightarrow> tracker \<Rightarrow> watermark_level" where
  "observed high critical dev tr = level_of high critical (utilization (snapshot dev tr))"

text \<open>
  The levels observed by the admission checks so far, and the state after them; between the
  checks the rest of the program may use the cache.
\<close>

inductive pressure_reachable ::
  "float \<Rightarrow> float \<Rightarrow> watermark_level list \<Rightarrow> pressure monitor \<times> pressure \<Rightarrow> bool"
  for high critical :: float where
  init: "(\<And>c. kv = Some c \<Longrightarrow> kv_inv c) \<Longrightarrow>
     pressure_reachable high critical [] (pressure_init (monitor_init high critical) kv)"
| admit: "pressure_reachable high critical ls s \<Longrightarrow>
     pressure_reachable high critical (ls @ [observed high critical dev tr])
       (snd (should_admit dev tr s))"
| cache: "pressure_reachable high critical ls (mon, h) \<Longrightarrow> pr_kv h = Some c \<Longrightarrow> kv_inv c' \<Longrightarrow>
     pressure_reachable high critical ls (mon, h\<lparr>pr_kv := Some c'\<rparr>)"

text \<open>Rejecting is remembered from CRITICAL until NORMAL.\<close>

definition critical_since_normal :: "watermark_level list \<Rightarrow> bool" where
  "critical_since_normal ls \<longleftrightarrow> CRITICAL \<in> set (takeWhile (\<lambda>l. l \<noteq> NORMAL) (rev ls))"

definition last_level :: "watermark_level list \<Rightarrow> watermark_level" where
  "last_level ls = (if ls = [] then NORMAL else last ls)"

lemma critical_since_normal_simps [simp]:
  "\<not> critical_since_normal []"
  "critical_since_normal (ls @ [l]) \<longleftrightarrow> l = CRITICAL \<or> l = HIGH \<and> critical_since_normal ls"
  by (cases l; simp add: critical_since_normal_def)+

lemma last_level_snoc [simp]: "last_level [] = NORMAL" "last_level (ls @ [l]) = l"
  by (simp_all add: last_level_def)

definition handlers :: "watermark_level \<Rightarrow> (pressure \<Rightarrow> pressure) list" where
  "handlers l = (case l of NORMAL \<Rightarrow> [on_normal] | HIGH \<Rightarrow> [on_high] | CRITICAL \<Rightarrow> [on_critical])"

definition pressure_inv :: "float \<Rightarrow> float \<Rightarrow> watermark_level list \<Rightarrow> pressure monitor \<times> pressure \<Rightarrow> bool" where
  "pressure_inv high critical ls = (\<lambda>(mon, h).
     high_ratio mon = high \<and> critical_ratio mon = critical \<and> callbacks mon = handlers \<and>
     current_level mon = last_level ls \<and> rejecting h = critical_since_normal ls \<and>
     (last_level ls = NORMAL \<longrightarrow> escalation_step h = 0) \<and>
     (\<forall>c. pr_kv h = Some c \<longrightarrow> kv_inv c))"

lemma handler_fields [simp]:
  "rejecting (on_high h) = rejecting h"
  "rejecting (on_critical h)"
  "rejecting (on_normal h) = False" "escalation_step (on_normal h) = 0" "pr_kv (on_normal h) = pr_kv h"
  by (simp_all add: on_high_def on_critical_def on_normal_def Let_def split: option.split)

lemma handler_kv:
  "(\<forall>c. pr_kv h = Some c \<longrightarrow> kv_inv c) \<Longrightarrow> \<forall>c. pr_kv (on_high h) = Some c \<longrightarrow> kv_inv c"
  "(\<forall>c. pr_kv h = Some c \<longrightarrow> kv_inv c) \<Longrightarrow> \<forall>c. pr_kv (on_critical h) = Some c \<longrightarrow> kv_inv c"
  by (auto simp: on_high_def on_critical_def Let_def intro: inv_intros split: option.splits)

lemma pressure_inv_admit:
  assumes "pressure_inv high critical ls s"
  shows "pressure_inv high critical (ls @ [observed high critical dev tr]) (snd (should_admit dev tr s))"
proof -
  obtain mon h where s: "s = (mon, h)" by force
  let ?l = "observed high critical dev tr"
  have inv: "high_ratio mon = high" "critical_ratio mon = critical" "callbacks mon = handlers"
    "current_level mon = last_level ls" "rejecting h = critical_since_normal ls"
    "last_level ls = NORMAL \<longrightarrow> escalation_step h = 0"
    "\<forall>c. pr_kv h = Some c \<longrightarrow> kv_inv c"
    using assms by (simp_all add: s pressure_inv_def)
  have level: "level_of high critical (utilization (snapshot dev tr)) = ?l"
    by (simp add: observed_def)
  show ?thesis
  proof (cases "?l = last_level ls")
    case True
    have "critical_since_normal ls \<longleftrightarrow> ?l = CRITICAL \<or> ?l = HIGH \<and> critical_since_normal ls"
      unfolding True by (cases ls rule: rev_cases; cases "last_level ls") auto
    then show ?thesis
      using inv True by (simp add: pressure_inv_def should_admit_def check_def level s Let_def)
  next
    case False
    then show ?thesis
      using inv handler_kv [OF inv(7)]
      by (cases ?l) (simp_all add: pressure_inv_def should_admit_def check_def level s handlers_def Let_def)
  qed
qed

lemma pressure_reachable_inv: "pressure_reachable high critical ls s \<Longrightarrow> pressure_inv high critical ls s"
proof (induction rule: pressure_reachable.induct)
  case (init kv)
  then show ?case
    by (auto simp: pressure_inv_def pressure_init_def register_callback_def monitor_init_def
        handlers_def fun_eq_iff split: watermark_level.split)
next
  case (cache ls mon h c c')
  then show ?case by (auto simp: pressure_inv_def)
qed (rule pressure_inv_admit)

section \<open>Properties\<close>

text \<open>C24: A request is admitted exactly when no CRITICAL level was observed since the last NORMAL
  one: after a drop from CRITICAL to HIGH the handler keeps rejecting, and only NORMAL ends
  it.  The observations are those of the admission checks, this one included, from start-up
  on, whatever the cache does in between.\<close>

theorem admission_is_hysteresis:
  assumes "pressure_reachable high critical ls s"
  shows "fst (should_admit dev tr s) \<longleftrightarrow>
    \<not> critical_since_normal (ls @ [level_of high critical (utilization (snapshot dev tr))])"
proof -
  have "pressure_inv high critical (ls @ [observed high critical dev tr]) (snd (should_admit dev tr s))"
    by (rule pressure_inv_admit [OF pressure_reachable_inv [OF assms]])
  then show ?thesis
    by (simp add: should_admit_def pressure_inv_def observed_def case_prod_unfold Let_def)
qed

lemma fl64_one_pct: "n \<le> 100 \<Longrightarrow> 0 \<le> n \<Longrightarrow> fl64 (of_int n / 100) \<le> of_int n / 100 + 1 / 2 ^ 53"
  "n \<le> 100 \<Longrightarrow> 0 \<le> n \<Longrightarrow> of_int n / 100 - 1 / 2 ^ 53 \<le> fl64 (of_int n / 100)"
  using fl64_within [of "of_int n / 100" 1] by simp_all

definition full_tracker :: "int \<Rightarrow> tracker" where
  "full_tracker n = register_allocation ''kv_cache'' n
     \<lparr>tr_config = \<lparr>mem_enabled = True, high_watermark_ratio = 17 / 20,
        critical_watermark_ratio = 19 / 20, total_memory_bytes = 100, enable_cuda = False\<rparr>,
      manual_allocations = [], tr_total_bytes = 100\<rparr>"

lemma full_tracker_utilization: "utilization (snapshot None (full_tracker n)) = fl64 (of_int n / 100)"
  by (simp add: full_tracker_def utilization_def snapshot_def visible_device_def fdiv_def
      register_allocation_def)

lemma admission_is_hysteresis_witness:
  "fst (should_admit None (full_tracker 0)
      (pressure_init (monitor_init (17 / 20) (19 / 20)) None)) \<longleftrightarrow>
    \<not> critical_since_normal ([] @ [level_of (17 / 20) (19 / 20) (utilization (snapshot None (full_tracker 0)))])"
  by (rule admission_is_hysteresis, rule pressure_reachable.init) simp

text \<open>Entering HIGH evicts at least the share of the step from the KV cache, and entering
  CRITICAL empties it; both keep the cache's invariant.  Coming from NORMAL the step is the
  first one, a tenth.\<close>

theorem pressure_frees_cache:
  assumes "pressure_reachable high critical ls (mon, h)" and "pr_kv h = Some c"
    and "level_of high critical (utilization (snapshot dev tr)) = new_level"
    and "new_level \<noteq> last_level ls" and "new_level \<noteq> NORMAL"
  shows "\<exists>c'. pr_kv (snd (snd (should_admit dev tr (mon, h)))) = Some c' \<and> kv_inv c' \<and>
    kv_used c' \<le> (if new_level = CRITICAL then 0
      else kv_used c - evict_share_bytes (if last_level ls = NORMAL then 0 else escalation_step h) (kv_used c))"
proof -
  have inv: "pressure_inv high critical ls (mon, h)" by (rule pressure_reachable_inv [OF assms(1)])
  then have "kv_inv c" using assms(2) by (simp add: pressure_inv_def)
  have h: "h\<lparr>pr_kv := Some c\<rparr> = h" using assms(2) by simp
  have "snd (snd (should_admit dev tr (mon, h))) =
      (if new_level = CRITICAL then on_critical h else on_high h)"
    using inv assms(3-5)
    by (cases new_level) (simp_all add: pressure_inv_def should_admit_def check_def Let_def handlers_def)
  moreover have "last_level ls = NORMAL \<Longrightarrow> escalation_step h = 0"
    using inv by (simp add: pressure_inv_def)
  ultimately show ?thesis
    using on_high_frees [OF \<open>kv_inv c\<close>, of h] on_critical_frees [OF \<open>kv_inv c\<close>, of h] by (auto simp: h)
qed

lemma pressure_frees_cache_witness:
  "\<exists>c'. pr_kv (snd (snd (should_admit None (full_tracker 90)
      (pressure_init (monitor_init (17 / 20) (19 / 20)) (Some (kv_init 1000 10)))))) = Some c' \<and>
    kv_inv c' \<and> kv_used c' \<le> kv_used (kv_init 1000 10) - evict_share_bytes 0 (kv_used (kv_init 1000 10))"
proof -
  let ?s = "pressure_init (monitor_init (17 / 20) (19 / 20)) (Some (kv_init 1000 10))"
  have "pressure_reachable (17 / 20) (19 / 20) [] ?s"
    by (rule pressure_reachable.init) (auto intro: inv_intros)
  then have r: "pressure_reachable (17 / 20) (19 / 20) [] (fst ?s, snd ?s)" by simp
  have "level_of (17 / 20) (19 / 20) (utilization (snapshot None (full_tracker 90))) = HIGH"
    using fl64_one_pct [of 90] by (simp add: full_tracker_utilization level_of_def)
  then show ?thesis
    using pressure_frees_cache [OF r, of "kv_init 1000 10" None "full_tracker 90" HIGH]
    by (simp add: pressure_init_def)
qed

text \<open>Checks act on transitions only: while the observed level stays what it is, an admission
  check changes nothing, so a lasting HIGH evicts once and never escalates.\<close>

theorem steady_level_changes_nothing:
  assumes "level_of (high_ratio mon) (critical_ratio mon) (utilization (snapshot dev tr)) = current_level mon"
  shows "should_admit dev tr (mon, h) = (\<not> rejecting h, mon, h)"
  using assms by (simp add: should_admit_def check_def)

lemma steady_level_changes_nothing_witness:
  "should_admit None (full_tracker 0) (monitor_init (17 / 20) (19 / 20),
      \<lparr>rejecting = False, escalation_step = 0, pr_kv = None\<rparr>) =
    (True, monitor_init (17 / 20) (19 / 20), \<lparr>rejecting = False, escalation_step = 0, pr_kv = None\<rparr>)"
  by (subst steady_level_changes_nothing)
    (simp_all add: full_tracker_utilization level_of_def monitor_init_def)

text \<open>Without CUDA and without registered allocations, which is how the program starts and
  nothing in it registers any, the handler is inert: with positive thresholds every check
  admits and leaves the handler as it was.\<close>

theorem unregistered_pressure_is_inert:
  assumes "0 < high" and "0 < critical" and "\<not> enable_cuda cfg" and "tracker_init cfg dev' = Inr tr"
  shows "should_admit dev tr (pressure_init (monitor_init high critical) kv) =
    (True, pressure_init (monitor_init high critical) kv)"
proof -
  have "tr_config tr = cfg" "manual_allocations tr = []"
    using assms(3,4) by (auto simp: tracker_init_def visible_device_def split: if_splits)
  then show ?thesis
    using assms(1-3)
    by (simp add: should_admit_def pressure_init_def register_callback_def monitor_init_def check_def
        Let_def snapshot_def visible_device_def utilization_def fdiv_def level_of_def)
qed

lemma unregistered_pressure_is_inert_witness:
  "\<exists>tr. tracker_init \<lparr>mem_enabled = True, high_watermark_ratio = 17 / 20,
        critical_watermark_ratio = 19 / 20, total_memory_bytes = 0, enable_cuda = False\<rparr> None = Inr tr \<and>
    should_admit None tr (pressure_init (monitor_init (17 / 20) (19 / 20)) (Some (kv_init 1000 10))) =
    (True, pressure_init (monitor_init (17 / 20) (19 / 20)) (Some (kv_init 1000 10)))"
proof -
  let ?cfg = "\<lparr>mem_enabled = True, high_watermark_ratio = 17 / 20,
    critical_watermark_ratio = 19 / 20, total_memory_bytes = 0, enable_cuda = False\<rparr>"
  obtain tr where tr: "tracker_init ?cfg None = Inr tr" by (simp add: tracker_init_def visible_device_def)
  show ?thesis using unregistered_pressure_is_inert [OF _ _ _ tr] tr by fastforce
qed

text \<open>
  With CUDA switched on and no configured total, the start of the profiler fails when the device
  has no attribute \<^verbatim>\<open>total_mem\<close> (PyTorch names it \<^verbatim>\<open>total_memory\<close>).
\<close>

theorem cuda_total_fails:
  assumes "enable_cuda cfg" and "total_memory_bytes cfg = 0" and "dev_total d = Inl e"
  shows "tracker_init cfg (Some d) = Inl e"
  using assms by (simp add: tracker_init_def visible_device_def)

lemma cuda_total_fails_witness:
  "tracker_init \<lparr>mem_enabled = True, high_watermark_ratio = 17 / 20, critical_watermark_ratio = 19 / 20,
     total_memory_bytes = 0, enable_cuda = True\<rparr>
     (Some \<lparr>dev_allocated = 0, dev_reserved = 0, dev_total = Inl (OtherException ''AttributeError'')\<rparr>) =
   Inl (OtherException ''AttributeError'')"
  by (rule cuda_total_fails) simp_all

lemma update_update: "AList.update k v (AList.update k w d) = AList.update k v d"
  by (induction d) auto

lemma update_same: "map_of d k = Some v \<Longrightarrow> AList.update k v d = d"
  by (induction d) (auto split: if_splits)

lemma delete_update_new: "map_of d k = None \<Longrightarrow> AList.delete k (AList.update k v d) = d"
  by (induction d) (auto split: if_splits)

text \<open>Releasing what was registered restores the accounting exactly: for a tag that is absent
  or holds a positive amount, the tracker, and hence every later snapshot, is the one from
  before.\<close>

theorem release_undoes_register:
  assumes "0 \<le> n" and "\<And>m. map_of (manual_allocations tr) tag = Some m \<Longrightarrow> 0 < m"
  shows "release tag (Some n) (register_allocation tag n tr) = tr"
  using assms
  by (cases "map_of (manual_allocations tr) tag")
    (simp_all add: register_allocation_def release_def update_conv' update_update update_same
      delete_update_new Let_def)

lemma release_undoes_register_witness:
  "release ''kv_cache'' (Some 5) (register_allocation ''kv_cache'' 5 (full_tracker 7)) = full_tracker 7"
  by (rule release_undoes_register)
    (simp_all add: full_tracker_def register_allocation_def)

lemma le_mult_iff_div:
  fixes m :: int
  assumes m: "0 < m"
  shows "n * m \<le> a \<longleftrightarrow> n \<le> a div m"
proof
  assume "n * m \<le> a"
  then have "n * m div m \<le> a div m" using m by (intro zdiv_mono1) simp_all
  then show "n \<le> a div m" using m by simp
next
  assume "n \<le> a div m"
  then have "n * m \<le> a div m * m" using m by (intro mult_right_mono) simp_all
  also have "\<dots> \<le> a" using m by (simp add: minus_mod_eq_div_mult [symmetric])
  finally show "n * m \<le> a" .
qed

text \<open>For a model with positive dimensions \<^verbatim>\<open>can_fit\<close> admits exactly the lengths up to the
  available bytes divided by the bytes per token.\<close>

theorem can_fit_iff_max_length:
  assumes "0 < hidden_dim cfg" and "0 \<le> num_layers cfg" and "0 < dtype_bytes cfg" and "0 < batch_size"
  shows "can_fit cfg seq_len available batch_size \<longleftrightarrow>
    seq_len \<le> available div (batch_size * hidden_dim cfg * dtype_bytes cfg * (2 * num_layers cfg + 4))"
proof -
  let ?per = "batch_size * hidden_dim cfg * dtype_bytes cfg * (2 * num_layers cfg + 4)"
  have "estimate_total_inference_bytes cfg seq_len batch_size = seq_len * ?per"
    by (simp add: estimate_total_inference_bytes_def estimate_kv_cache_bytes_def
        estimate_activation_bytes_def algebra_simps)
  moreover have "0 < ?per" using assms by simp
  ultimately show ?thesis
    by (simp only: can_fit_def le_mult_iff_div)
qed

lemma can_fit_iff_max_length_witness:
  "can_fit \<lparr>num_layers = 22, hidden_dim = 2048, num_heads = 32, dtype_bytes = 2\<rparr> 1000 (10 ^ 9) 1 \<longleftrightarrow>
    1000 \<le> (10 ^ 9 :: int) div (1 * 2048 * 2 * (2 * 22 + 4))"
  using can_fit_iff_max_length [of "\<lparr>num_layers = 22, hidden_dim = 2048, num_heads = 32, dtype_bytes = 2\<rparr>"
      1 1000 "10 ^ 9"] by simp

end
