(* ===== verification/Random_Program.thy ===== *)
theory Random_Program
  imports Prelude
begin

text \<open>
  Programs that draw random numbers, as trees: every node is one draw, its branches are the
  continuations.  \<open>Flip p\<close> is the test \<^verbatim>\<open>torch.rand(1).item() < p\<close>, the only use the code makes
  of a uniform draw; \<open>Choose w\<close> is one draw of \<^verbatim>\<open>torch.multinomial\<close> with weights \<open>w\<close>.  \<open>E f m\<close> is
  the expectation of \<open>f\<close> over the results for an ideal source (a failed run counts 0), and
  \<open>always P m\<close> says that every result that can come out satisfies \<open>P\<close>.
\<close>

datatype 'a rnd =
    Done 'a
  | Fail exn
  | Flip real "bool \<Rightarrow> 'a rnd"
  | Choose "real list" "nat \<Rightarrow> 'a rnd"

primrec rbind :: "'a rnd \<Rightarrow> ('a \<Rightarrow> 'b rnd) \<Rightarrow> 'b rnd" where
  "rbind (Done a) f = f a"
| "rbind (Fail e) f = Fail e"
| "rbind (Flip p k) f = Flip p (\<lambda>b. rbind (k b) f)"
| "rbind (Choose w k) f = Choose w (\<lambda>j. rbind (k j) f)"

definition clip :: "real \<Rightarrow> real" where
  "clip p = max 0 (min 1 p)"

primrec E :: "('a \<Rightarrow> real) \<Rightarrow> 'a rnd \<Rightarrow> real" where
  "E f (Done a) = f a"
| "E f (Fail e) = 0"
| "E f (Flip p k) = clip p * E f (k True) + (1 - clip p) * E f (k False)"
| "E f (Choose w k) = (\<Sum>j<length w. w ! j / sum_list w * E f (k j))"

text \<open>Failing runs satisfy \<open>always\<close>; \<open>fails_only F\<close> restricts the errors a run can end with.\<close>

primrec always :: "('a \<Rightarrow> bool) \<Rightarrow> 'a rnd \<Rightarrow> bool" where
  "always P (Done a) = P a"
| "always P (Fail e) = True"
| "always P (Flip p k) = ((0 < clip p \<longrightarrow> always P (k True)) \<and> (clip p < 1 \<longrightarrow> always P (k False)))"
| "always P (Choose w k) = (\<forall>j<length w. w ! j \<noteq> 0 \<longrightarrow> always P (k j))"

primrec fails_only :: "(exn \<Rightarrow> bool) \<Rightarrow> 'a rnd \<Rightarrow> bool" where
  "fails_only F (Done a) = True"
| "fails_only F (Fail e) = F e"
| "fails_only F (Flip p k) =
     ((0 < clip p \<longrightarrow> fails_only F (k True)) \<and> (clip p < 1 \<longrightarrow> fails_only F (k False)))"
| "fails_only F (Choose w k) = (\<forall>j<length w. w ! j \<noteq> 0 \<longrightarrow> fails_only F (k j))"

text \<open>\<^verbatim>\<open>torch.multinomial\<close> raises on negative weights and on weights that sum to nothing.\<close>

definition multinomial :: "real list \<Rightarrow> nat rnd" where
  "multinomial w =
     (if (\<exists>x\<in>set w. x < 0) \<or> sum_list w \<le> 0 then Fail (RuntimeError ''invalid multinomial distribution'')
      else Choose w Done)"

definition is_dist :: "real list \<Rightarrow> bool" where
  "is_dist w \<longleftrightarrow> (\<forall>x\<in>set w. 0 \<le> x) \<and> sum_list w = 1"

definition index_error :: exn where
  "index_error = OtherException ''IndexError''"

definition item_at :: "'a list \<Rightarrow> nat \<Rightarrow> ('a \<Rightarrow> 'b rnd) \<Rightarrow> 'b rnd" where
  "item_at xs i k = (if i < length xs then k (xs ! i) else Fail index_error)"

section \<open>The monad\<close>

lemma rbind_assoc: "rbind (rbind m f) g = rbind m (\<lambda>a. rbind (f a) g)"
  by (induction m) auto

lemma rbind_Done [simp]: "rbind m Done = m"
  by (induction m) auto

lemma E_rbind: "E f (rbind m k) = E (\<lambda>a. E f (k a)) m"
  by (induction m) auto

lemma E_cong_always: "always P m \<Longrightarrow> (\<And>a. P a \<Longrightarrow> f a = g a) \<Longrightarrow> E f m = E g m"
proof (induction m)
  case (Flip p k)
  have "0 \<le> clip p" "clip p \<le> 1" by (simp_all add: clip_def)
  then consider "clip p = 0" | "clip p = 1" | "0 < clip p" "clip p < 1" by linarith
  then show ?case
    using Flip.IH [OF rangeI, of True] Flip.IH [OF rangeI, of False] Flip.prems by cases auto
next
  case (Choose w k)
  have eq: "w ! j / sum_list w * E f (k j) = w ! j / sum_list w * E g (k j)" if "j < length w" for j
    using Choose.IH [OF rangeI, of j] Choose.prems that by (cases "w ! j = 0") auto
  show ?case unfolding E.simps by (rule sum.cong [OF refl]) (use eq in blast)
qed simp_all

lemma always_rbind: "always P (rbind m k) \<longleftrightarrow> always (\<lambda>a. always P (k a)) m"
  by (induction m) auto

lemma always_mono: "always P m \<Longrightarrow> (\<And>a. P a \<Longrightarrow> Q a) \<Longrightarrow> always Q m"
  by (induction m) auto

lemma always_True [simp]: "always (\<lambda>_. True) m"
  by (induction m) auto

lemma E_scale: "E (\<lambda>a. c * f a) m = c * E f m"
  by (induction m) (simp_all add: algebra_simps sum_distrib_left)

lemma E_add: "E (\<lambda>a. f a + g a) m = E f m + E g m"
  by (induction m) (simp_all add: algebra_simps sum.distrib)

lemma always_rbindI:
  "always P m \<Longrightarrow> (\<And>a. P a \<Longrightarrow> always Q (k a)) \<Longrightarrow> always Q (rbind m k)"
  by (simp add: always_rbind always_mono)

lemma fails_only_rbindI:
  "fails_only F m \<Longrightarrow> always P m \<Longrightarrow> (\<And>a. P a \<Longrightarrow> fails_only F (k a)) \<Longrightarrow>
   fails_only F (rbind m k)"
  by (induction m) auto

section \<open>Single draws\<close>

lemma clip_prob [simp]: "0 \<le> p \<Longrightarrow> p \<le> 1 \<Longrightarrow> clip p = p"
  by (simp add: clip_def)

lemma is_dist_nth: "is_dist w \<Longrightarrow> j < length w \<Longrightarrow> 0 \<le> w ! j"
  by (simp add: is_dist_def)

lemma sum_list_nths: "sum_list w = (\<Sum>j<length w. w ! j)" for w :: "real list"
  by (simp add: sum_list_sum_nth atLeast0LessThan)

lemma E_multinomial:
  assumes "is_dist w"
  shows "E f (rbind (multinomial w) k) = (\<Sum>j<length w. w ! j * E f (k j))"
  using assms by (auto simp: multinomial_def is_dist_def)

lemma E_multinomial_weights:
  assumes "\<forall>x\<in>set w. 0 \<le> x" and "0 < sum_list w"
  shows "E f (rbind (multinomial w) k) = (\<Sum>j<length w. w ! j / sum_list w * E f (k j))"
  using assms by (auto simp: multinomial_def)

lemma always_multinomial:
  assumes "\<And>j. j < length w \<Longrightarrow> w ! j \<noteq> 0 \<Longrightarrow> always P (k j)"
  shows "always P (rbind (multinomial w) k)"
  using assms by (auto simp: multinomial_def)

lemma always_item_at: "(i < length xs \<Longrightarrow> always P (k (xs ! i))) \<Longrightarrow> always P (item_at xs i k)"
  by (simp add: item_at_def)

lemma dist_sum_const: "is_dist w \<Longrightarrow> (\<Sum>j<length w. w ! j * c) = c"
  by (simp add: is_dist_def sum_list_nths sum_distrib_right [symmetric])

lemma rbind_item_at: "rbind (item_at xs i k) f = item_at xs i (\<lambda>x. rbind (k x) f)"
  by (simp add: item_at_def)

lemma item_at_Suc [simp]: "item_at (x # xs) (Suc i) k = item_at xs i k"
  by (simp add: item_at_def)

lemma item_at_0 [simp]: "item_at (x # xs) 0 k = k x"
  by (simp add: item_at_def)

lemma fails_only_item_at:
  "F index_error \<Longrightarrow> (\<And>x. fails_only F (k x)) \<Longrightarrow> fails_only F (item_at xs i k)"
  by (simp add: item_at_def)

lemma fails_only_multinomial:
  "F (RuntimeError ''invalid multinomial distribution'') \<Longrightarrow> (\<And>j. fails_only F (k j)) \<Longrightarrow>
   fails_only F (rbind (multinomial w) k)"
  by (simp add: multinomial_def)

end
