(* ===== verification/Speculative_Sampler.thy ===== *)
theory Speculative_Sampler
  imports Random_Program
begin

text \<open>
  \<^verbatim>\<open>speculative/sampler.py\<close>: acceptance and rejection of the draft tokens.  The arithmetic of
  Python floats and torch tensors is an argument; \<open>exact_arith\<close> says that it is exact, which
  the distribution results assume.
\<close>

record torch =
  py_div :: "real \<Rightarrow> real \<Rightarrow> real"
  t_sub :: "real \<Rightarrow> real \<Rightarrow> real"
  t_div :: "real \<Rightarrow> real \<Rightarrow> real"
  t_sum :: "real list \<Rightarrow> real"

definition exact_torch :: torch where
  "exact_torch = \<lparr>py_div = (/), t_sub = (-), t_div = (/), t_sum = sum_list\<rparr>"

record accept_result =
  num_accepted :: nat
  accepted_tokens :: "nat list"
  bonus_token :: "nat option"
  resampled_token :: "nat option"

definition residual :: "torch \<Rightarrow> real list \<Rightarrow> real list \<Rightarrow> real list" where
  "residual T target draft = map2 (\<lambda>p q. max 0 (t_sub T p q)) target draft"

definition reject :: "torch \<Rightarrow> real list \<Rightarrow> real list \<Rightarrow> nat \<Rightarrow> nat list \<Rightarrow> accept_result rnd" where
  "reject T target draft i accepted =
     (if length target \<noteq> length draft then Fail (RuntimeError ''size of tensors must match'')
      else let res = residual T target draft; residual_sum = t_sum T res in
        rbind (if 0 < residual_sum then multinomial (map (\<lambda>x. t_div T x residual_sum) res)
               else multinomial target)
          (\<lambda>token. Done \<lparr>num_accepted = i, accepted_tokens = accepted, bonus_token = None,
                         resampled_token = Some token\<rparr>))"

text \<open>The loop over the draft tokens from position \<open>i\<close> on, and the bonus token after it.\<close>

fun sampler_loop :: "torch \<Rightarrow> nat list \<Rightarrow> real list list \<Rightarrow> real list list \<Rightarrow> nat \<Rightarrow> nat list \<Rightarrow>
    accept_result rnd" where
  "sampler_loop T [] draft_probs target_probs i accepted =
     item_at target_probs i (\<lambda>target.
     rbind (multinomial target) (\<lambda>bonus.
       Done \<lparr>num_accepted = i, accepted_tokens = accepted, bonus_token = Some bonus,
             resampled_token = None\<rparr>))"
| "sampler_loop T (token_id # ds) draft_probs target_probs i accepted =
     item_at target_probs i (\<lambda>target.
     item_at target token_id (\<lambda>p_target.
     item_at draft_probs i (\<lambda>draft.
     item_at draft token_id (\<lambda>p_draft.
       if p_draft = 0
       then sampler_loop T ds draft_probs target_probs (Suc i) (accepted @ [token_id])
       else Flip (min 1 (py_div T p_target p_draft)) (\<lambda>r_below.
         if r_below
         then sampler_loop T ds draft_probs target_probs (Suc i) (accepted @ [token_id])
         else reject T target draft i accepted)))))"

definition rejection_sampler :: "torch \<Rightarrow> nat list \<Rightarrow> real list list \<Rightarrow> real list list \<Rightarrow>
    accept_result rnd" where
  "rejection_sampler T draft_tokens draft_probs target_probs =
     sampler_loop T draft_tokens draft_probs target_probs 0 []"

section \<open>Shape of the result\<close>

definition new_tokens_of :: "accept_result \<Rightarrow> nat list" where
  "new_tokens_of r = accepted_tokens r @
     (case bonus_token r of Some b \<Rightarrow> [b]
      | None \<Rightarrow> (case resampled_token r of Some x \<Rightarrow> [x] | None \<Rightarrow> []))"

definition result_ok :: "nat list \<Rightarrow> accept_result \<Rightarrow> bool" where
  "result_ok ds r \<longleftrightarrow> num_accepted r \<le> length ds \<and> accepted_tokens r = take (num_accepted r) ds \<and>
     (if num_accepted r = length ds \<and> resampled_token r = None then bonus_token r \<noteq> None
      else bonus_token r = None \<and> resampled_token r \<noteq> None \<and> num_accepted r < length ds)"

lemma sampler_loop_ok:
  assumes "i \<le> length all" and "ds = drop i all" and "accepted = take i all"
  shows "always (result_ok all) (sampler_loop T ds qs ps i accepted)"
  using assms
proof (induction T ds qs ps i accepted rule: sampler_loop.induct)
  case (1 T qs ps i accepted)
  then show ?case
    unfolding sampler_loop.simps
    by (intro always_item_at always_multinomial) (simp add: result_ok_def)
next
  case (2 T t ds qs ps i accepted)
  have i: "i < length all"
  proof (rule ccontr)
    assume "\<not> i < length all"
    then show False using "2.prems" by simp
  qed
  have hd_tl: "t = all ! i" "ds = drop (Suc i) all"
    using Cons_nth_drop_Suc [OF i] "2.prems"(2) by (metis list.inject)+
  have step: "ds = drop (Suc i) all" "accepted @ [t] = take (Suc i) all"
    using "2.prems"(3) i hd_tl by (simp_all add: take_Suc_conv_app_nth)
  have rej: "always (result_ok all) (reject T p q i accepted)" for p q
    using i "2.prems" by (auto simp: reject_def Let_def result_ok_def intro!: always_multinomial)
  show ?case
    unfolding sampler_loop.simps
    by (intro always_item_at) (use "2.IH" step rej i in \<open>auto simp: less_eq_Suc_le\<close>)
qed

section \<open>One position\<close>

lemma exact_torch_ops [simp]:
  "py_div exact_torch = (/)" "t_sub exact_torch = (-)" "t_div exact_torch = (/)"
  "t_sum exact_torch = sum_list"
  by (simp_all add: exact_torch_def)


lemma residual_exact [simp]:
  "length p = length q \<Longrightarrow> length (residual exact_torch p q) = length p"
  "j < length p \<Longrightarrow> length p = length q \<Longrightarrow>
     residual exact_torch p q ! j = max 0 (p ! j - q ! j)"
  by (simp_all add: residual_def)

lemma residual_sum:
  assumes "is_dist p" and "is_dist q" and "length p = length q"
  shows "sum_list (residual exact_torch p q) = 1 - (\<Sum>j<length p. min (p ! j) (q ! j))"
proof -
  have "max 0 (a - b) = a - min a b" for a b :: real by simp
  then have "sum_list (residual exact_torch p q) = (\<Sum>j<length p. p ! j - min (p ! j) (q ! j))"
    using assms(3) by (simp add: sum_list_nths)
  then show ?thesis using assms(1) by (simp add: is_dist_def sum_list_nths sum_subtractf)
qed

lemma E_reject:
  assumes p: "is_dist p" and q: "is_dist q" and len: "length p = length q"
  defines "S \<equiv> sum_list (residual exact_torch p q)"
  shows "S * E f (reject exact_torch p q i acc) =
    (\<Sum>j<length p. max 0 (p ! j - q ! j) *
      f \<lparr>num_accepted = i, accepted_tokens = acc, bonus_token = None, resampled_token = Some j\<rparr>)"
proof -
  let ?res = "residual exact_torch p q"
  let ?g = "\<lambda>j. f \<lparr>num_accepted = i, accepted_tokens = acc, bonus_token = None,
    resampled_token = Some j\<rparr>"
  have nonneg: "0 \<le> max 0 (p ! j - q ! j)" for j by simp
  have S: "S = (\<Sum>j<length p. max 0 (p ! j - q ! j))"
    using len by (simp add: S_def sum_list_nths)
  show ?thesis
  proof (cases "0 < S")
    case True
    have "sum_list (map (\<lambda>x. x / S) ?res) = S / S"
      by (simp only: sum_list_nths S_def) (simp add: sum_divide_distrib [symmetric])
    then have dist: "is_dist (map (\<lambda>x. x / S) ?res)"
      using True len by (auto simp: is_dist_def residual_def)
    have "E f (reject exact_torch p q i acc) =
        (\<Sum>j<length p. max 0 (p ! j - q ! j) / S * ?g j)"
      using True len by (simp add: reject_def Let_def S_def [symmetric] E_multinomial [OF dist])
    then show ?thesis using True by (simp add: sum_distrib_left)
  next
    case False
    then have "S = 0" using S sum_nonneg [of "{..<length p}" "\<lambda>j. max 0 (p ! j - q ! j)"] by simp
    moreover have "max 0 (p ! j - q ! j) = 0" if "j < length p" for j
      using S \<open>S = 0\<close> that nonneg by (simp add: sum_nonneg_eq_0_iff)
    ultimately show ?thesis by simp
  qed
qed

text \<open>Drawing from the draft and then accepting or resampling is drawing from the target.\<close>

lemma one_position:
  assumes p: "is_dist p" and q: "is_dist q" and len: "length p = length q"
  defines "S \<equiv> sum_list (residual exact_torch p q)"
  assumes R: "S * R = (\<Sum>j<length p. max 0 (p ! j - q ! j) * g j)"
  shows "(\<Sum>j<length q. q ! j * (if q ! j = 0 then g j
      else clip (min 1 (p ! j / q ! j)) * g j + (1 - clip (min 1 (p ! j / q ! j))) * R)) =
    (\<Sum>j<length p. p ! j * g j)"
proof -
  have one: "q ! j * (if q ! j = 0 then g j
      else clip (min 1 (p ! j / q ! j)) * g j + (1 - clip (min 1 (p ! j / q ! j))) * R) =
    min (p ! j) (q ! j) * g j + (q ! j - min (p ! j) (q ! j)) * R" if "j < length q" for j
  proof -
    have "0 \<le> p ! j" "0 \<le> q ! j" using p q len that by (auto intro: is_dist_nth)
    then show ?thesis
      by (cases "p ! j \<le> q ! j") (auto simp: clip_def field_simps min_def max_def)
  qed
  have "(\<Sum>j<length q. q ! j - min (p ! j) (q ! j)) = S"
    using q residual_sum [OF p q len] len
    by (simp add: S_def sum_subtractf is_dist_def sum_list_nths)
  then have "(\<Sum>j<length q. (q ! j - min (p ! j) (q ! j)) * R) =
      (\<Sum>j<length q. max 0 (p ! j - q ! j) * g j)"
    using R len by (simp add: sum_distrib_right [symmetric])
  moreover have "min a b + max 0 (a - b) = a" for a b :: real by simp
  ultimately show ?thesis
    using one len by (simp add: sum.distrib) (simp add: sum.distrib [symmetric] distrib_right [symmetric])
qed

section \<open>All positions\<close>

text \<open>
  \<open>Q xs\<close> and \<open>P xs\<close> are the draft's and the target's next-token distributions after the new
  tokens \<open>xs\<close>.
\<close>

fun draws :: "(nat list \<Rightarrow> real list) \<Rightarrow> nat \<Rightarrow> nat list \<Rightarrow> (nat list \<times> real list list) rnd" where
  "draws Q 0 xs = Done ([], [])"
| "draws Q (Suc n) xs =
     rbind (multinomial (Q xs)) (\<lambda>t.
     rbind (draws Q n (xs @ [t])) (\<lambda>(ts, qs). Done (t # ts, Q xs # qs)))"

fun rows :: "(nat list \<Rightarrow> real list) \<Rightarrow> nat list \<Rightarrow> nat list \<Rightarrow> real list list" where
  "rows P xs [] = [P xs]"
| "rows P xs (t # ts) = P xs # rows P (xs @ [t]) ts"

lemma length_rows [simp]: "length (rows P xs ts) = Suc (length ts)"
  by (induction ts arbitrary: xs) auto

lemma nth_rows: "i \<le> length ts \<Longrightarrow> rows P xs ts ! i = P (xs @ take i ts)"
  by (induction ts arbitrary: xs i) (auto simp: nth_Cons split: nat.split)

lemma draws_mass: "(\<And>xs. is_dist (Q xs)) \<Longrightarrow> E (\<lambda>_. c) (draws Q n xs) = c"
  by (induction n arbitrary: xs)
    (simp_all add: E_multinomial rbind_assoc case_prod_unfold dist_sum_const, simp add: E_rbind dist_sum_const)

text \<open>Position \<open>i + 1\<close> of the loop reads the rows as position \<open>i\<close> of their tails does.\<close>

lemma sampler_loop_shift:
  assumes "\<And>n acc b r. f \<lparr>num_accepted = Suc n, accepted_tokens = acc, bonus_token = b,
      resampled_token = r\<rparr> = f \<lparr>num_accepted = n, accepted_tokens = acc, bonus_token = b,
      resampled_token = r\<rparr>"
  shows "E f (sampler_loop T ds (q # qs) (p # ps) (Suc i) acc) = E f (sampler_loop T ds qs ps i acc)"
proof (induction ds arbitrary: i acc)
  case Nil
  then show ?case using assms by (simp add: item_at_def E_rbind)
next
  case (Cons t ds)
  have "E f (reject T p q (Suc i) acc) = E f (reject T p q i acc)" for p q
    using assms by (simp add: reject_def Let_def E_rbind)
  with Cons show ?case by (simp add: item_at_def)
qed

text \<open>
  A value \<open>h\<close> of token sequences that is the expectation of its value after one more token of
  the target keeps its expectation under a whole round of drafting and rejection sampling.
\<close>

lemma round_keeps_expectation:
  assumes P: "\<And>xs. is_dist (P xs)" and Q: "\<And>xs. is_dist (Q xs)"
    and len: "\<And>xs. length (P xs) = length (Q xs)"
    and h: "\<And>xs. h xs = (\<Sum>j<length (P xs). P xs ! j * h (xs @ [j]))"
  shows "E (\<lambda>r. h (new_tokens_of r)) (rbind (draws Q n xs) (\<lambda>(ts, qs).
    sampler_loop exact_torch ts qs (rows P xs ts) 0 xs)) = h xs"
proof (induction n arbitrary: xs)
  case 0
  then show ?case using h [of xs] by (simp add: E_multinomial [OF P] new_tokens_of_def)
next
  case (Suc n)
  let ?f = "\<lambda>r. h (new_tokens_of r)"
  let ?R = "E ?f (reject exact_torch (P xs) (Q xs) 0 xs)"
  have shift: "E ?f (sampler_loop exact_torch ts (q # qs) (p # ps) (Suc 0) acc) =
      E ?f (sampler_loop exact_torch ts qs ps 0 acc)" for ts q qs p ps acc
    by (rule sampler_loop_shift) (simp add: new_tokens_of_def split: option.split)
  have one: "E ?f (rbind (draws Q n (xs @ [t])) (\<lambda>(ts, qs).
      sampler_loop exact_torch (t # ts) (Q xs # qs) (rows P xs (t # ts)) 0 xs)) =
    (if Q xs ! t = 0 then h (xs @ [t])
     else clip (min 1 (P xs ! t / Q xs ! t)) * h (xs @ [t]) +
       (1 - clip (min 1 (P xs ! t / Q xs ! t))) * ?R)" if t: "t < length (Q xs)" for t
  proof -
    have acc: "E (\<lambda>(ts, qs). E ?f (sampler_loop exact_torch ts (Q xs # qs) (P xs # rows P (xs @ [t]) ts)
        (Suc 0) (xs @ [t]))) (draws Q n (xs @ [t])) = h (xs @ [t])"
      using Suc.IH [of "xs @ [t]"] by (simp add: E_rbind case_prod_unfold shift)
    show ?thesis
    proof (cases "Q xs ! t = 0")
      case True
      then show ?thesis
        using acc t len [of xs] by (simp add: E_rbind case_prod_unfold item_at_def)
    next
      case False
      let ?c = "clip (min 1 (P xs ! t / Q xs ! t))"
      let ?g = "\<lambda>r. E ?f (sampler_loop exact_torch (fst r) (Q xs # snd r)
        (P xs # rows P (xs @ [t]) (fst r)) (Suc 0) (xs @ [t]))"
      have "E (\<lambda>r. ?c * ?g r + (1 - ?c) * ?R) (draws Q n (xs @ [t])) =
          ?c * E ?g (draws Q n (xs @ [t])) + (1 - ?c) * ?R"
        by (simp add: E_add E_scale draws_mass [OF Q])
      then show ?thesis
        using acc False t len [of xs]
        by (simp add: E_rbind case_prod_unfold item_at_def)
    qed
  qed
  have "E ?f (rbind (draws Q (Suc n) xs) (\<lambda>(ts, qs).
      sampler_loop exact_torch ts qs (rows P xs ts) 0 xs)) =
    (\<Sum>t<length (Q xs). Q xs ! t * E ?f (rbind (draws Q n (xs @ [t])) (\<lambda>(ts, qs).
      sampler_loop exact_torch (t # ts) (Q xs # qs) (rows P xs (t # ts)) 0 xs)))"
    by (simp add: rbind_assoc E_multinomial [OF Q] case_prod_unfold del: sampler_loop.simps rows.simps)
  also have "\<dots> = (\<Sum>t<length (P xs). P xs ! t * h (xs @ [t]))"
    using one_position [OF P Q len, of xs ?R "\<lambda>t. h (xs @ [t])"]
      E_reject [OF P Q len, of xs ?f 0 xs] one
    by (simp add: new_tokens_of_def del: sampler_loop.simps rows.simps)
  also have "\<dots> = h xs" by (rule h [symmetric])
  finally show ?case .
qed

end
