(* ===== verification/Speculative_Decoding.thy ===== *)
theory Speculative_Decoding
  imports Speculative_Sampler Float_Arith
begin

text \<open>
  \<^verbatim>\<open>speculative/{draft_runner,verifier,orchestrator,metrics,config}.py\<close>: the draft model's loop
  with its key-value cache, the target model's single pass, the generation loop around the
  rejection sampler, and the counters.  The two language models and \<^verbatim>\<open>torch.softmax\<close> are
  parameters.
\<close>

section \<open>Configuration and metrics\<close>

record spec_config =
  num_draft_tokens :: int
  spec_temperature :: real
  min_acceptance_rate :: float
  fallback_on_low_acceptance :: bool

record spec_metrics =
  total_accepted :: int
  total_drafted :: int
  total_steps :: int
  total_generated :: int

definition metrics_init :: spec_metrics where
  "metrics_init = \<lparr>total_accepted = 0, total_drafted = 0, total_steps = 0, total_generated = 0\<rparr>"

definition acceptance_rate :: "spec_metrics \<Rightarrow> float" where
  "acceptance_rate m =
     (if total_drafted m = 0 then 0 else fdiv (of_int (total_accepted m)) (of_int (total_drafted m)))"

definition avg_tokens_per_step :: "spec_metrics \<Rightarrow> float" where
  "avg_tokens_per_step m =
     (if total_steps m = 0 then 0 else fdiv (of_int (total_generated m)) (of_int (total_steps m)))"

definition speedup_estimate :: "spec_metrics \<Rightarrow> float" where
  "speedup_estimate m = avg_tokens_per_step m"

definition metrics_to_dict :: "spec_metrics \<Rightarrow> (string \<times> float) list" where
  "metrics_to_dict m =
     [(''acceptance_rate'', py_round (acceptance_rate m) 4),
      (''avg_tokens_per_step'', py_round (avg_tokens_per_step m) 2),
      (''total_steps'', of_int (total_steps m)),
      (''total_generated'', of_int (total_generated m)),
      (''total_accepted'', of_int (total_accepted m)),
      (''total_drafted'', of_int (total_drafted m)),
      (''speedup_estimate'', py_round (speedup_estimate m) 2)]"

section \<open>The models\<close>

text \<open>
  \<open>draft_forward past ids\<close> is a call with \<^verbatim>\<open>past_key_values\<close>: the logits at the positions of
  \<open>ids\<close> and the new cache.  \<open>target_forward ids\<close> is a call without a cache.  \<open>t_scale\<close> divides
  logits by the temperature.
\<close>

record 'kv lms =
  draft_forward :: "'kv option \<Rightarrow> nat list \<Rightarrow> real list list \<times> 'kv"
  target_forward :: "nat list \<Rightarrow> real list list"
  softmax :: "real list \<Rightarrow> real list"
  t_scale :: "real list \<Rightarrow> real \<Rightarrow> real list"

definition next_probs :: "'kv lms \<Rightarrow> real \<Rightarrow> real list \<Rightarrow> real list" where
  "next_probs L temperature logits =
     softmax L (if temperature \<noteq> 1 then t_scale L logits temperature else logits)"

section \<open>Drafting\<close>

fun draft_loop :: "'kv lms \<Rightarrow> real \<Rightarrow> nat \<Rightarrow> 'kv option \<Rightarrow> nat list \<Rightarrow> nat list \<Rightarrow> real list list \<Rightarrow>
    (nat list \<times> real list list) rnd" where
  "draft_loop L temperature 0 past_kv next_input draft_tokens draft_probs =
     Done (draft_tokens, draft_probs)"
| "draft_loop L temperature (Suc n) past_kv next_input draft_tokens draft_probs =
     (let (logits, kv) = draft_forward L past_kv next_input in
      if logits = [] then Fail index_error
      else let probs = next_probs L temperature (last logits) in
        rbind (multinomial probs) (\<lambda>token.
          draft_loop L temperature n (Some kv) [token] (draft_tokens @ [token]) (draft_probs @ [probs])))"

definition speculate :: "'kv lms \<Rightarrow> nat list \<Rightarrow> int \<Rightarrow> real \<Rightarrow> (nat list \<times> real list list) rnd" where
  "speculate L input_ids k temperature =
     rbind (draft_loop L temperature (nat k) None input_ids [] []) (\<lambda>(draft_tokens, draft_probs).
       if draft_probs = [] then Fail (RuntimeError ''stack expects a non-empty TensorList'')
       else Done (draft_tokens, draft_probs))"

section \<open>Verification\<close>

definition verify :: "'kv lms \<Rightarrow> nat list \<Rightarrow> nat list \<Rightarrow> real \<Rightarrow> real list list" where
  "verify L input_ids draft_tokens temperature =
     (let k = int (length draft_tokens);
          prefix_len = int (length input_ids);
          full_ids = input_ids @ draft_tokens;
          logits = target_forward L full_ids;
          start = prefix_len - 1;
          relevant_logits = py_slice logits start (start + k + 1)
      in map (next_probs L temperature) relevant_logits)"

section \<open>The generation loop\<close>

fun scan_accepted :: "nat option \<Rightarrow> nat list \<Rightarrow> nat list \<Rightarrow> nat list \<times> bool" where
  "scan_accepted eos [] new_tokens = (new_tokens, False)"
| "scan_accepted eos (t # ts) new_tokens =
     (if eos = Some t then (new_tokens @ [t], True) else scan_accepted eos ts (new_tokens @ [t]))"

definition collect_tokens :: "nat option \<Rightarrow> accept_result \<Rightarrow> nat list \<times> bool" where
  "collect_tokens eos r =
     (let (new_tokens, stop) = scan_accepted eos (accepted_tokens r) [] in
      if stop then (new_tokens, True)
      else case bonus_token r of
             Some b \<Rightarrow> (new_tokens @ [b], eos = Some b)
           | None \<Rightarrow>
               (case resampled_token r of
                  Some x \<Rightarrow> (new_tokens @ [x], eos = Some x)
                | None \<Rightarrow> (new_tokens, False)))"

definition out_of_fuel :: exn where
  "out_of_fuel = OtherException ''out of fuel''"

fun generate_loop :: "torch \<Rightarrow> 'kv lms \<Rightarrow> spec_config \<Rightarrow> int \<Rightarrow> nat option \<Rightarrow> nat \<Rightarrow>
    nat list \<Rightarrow> nat list \<Rightarrow> spec_metrics \<Rightarrow> (nat list \<times> spec_metrics) rnd" where
  "generate_loop T L cfg max_new_tokens eos 0 current_ids generated m = Fail out_of_fuel"
| "generate_loop T L cfg max_new_tokens eos (Suc fuel) current_ids generated m =
     (if int (length generated) < max_new_tokens then
        (let k = num_draft_tokens cfg;
             temperature = spec_temperature cfg;
             m = m\<lparr>total_steps := total_steps m + 1\<rparr>
         in rbind (speculate L current_ids k temperature) (\<lambda>(draft_tokens, draft_probs).
            let m = m\<lparr>total_drafted := total_drafted m + k\<rparr>;
                target_probs = verify L current_ids draft_tokens temperature
            in rbind (rejection_sampler T draft_tokens draft_probs target_probs) (\<lambda>r.
            let m = m\<lparr>total_accepted := total_accepted m + int (num_accepted r)\<rparr>;
                (new_tokens, stop) = collect_tokens eos r;
                generated = generated @ new_tokens
            in if stop then Done (generated, m\<lparr>total_generated := int (length generated)\<rparr>)
               else if max_new_tokens \<le> int (length generated)
               then let generated = take (nat max_new_tokens) generated
                    in Done (generated, m\<lparr>total_generated := int (length generated)\<rparr>)
               else if fallback_on_low_acceptance cfg \<and> 3 \<le> total_steps m \<and>
                       acceptance_rate m < min_acceptance_rate cfg
               then Done (generated, m\<lparr>total_generated := int (length generated)\<rparr>)
               else generate_loop T L cfg max_new_tokens eos fuel (current_ids @ new_tokens)
                      generated m)))
      else Done (generated, m\<lparr>total_generated := int (length generated)\<rparr>))"

text \<open>Every round adds a token, so \<open>max_new_tokens + 1\<close> rounds are enough.\<close>

definition generate :: "torch \<Rightarrow> 'kv lms \<Rightarrow> spec_config \<Rightarrow> nat list \<Rightarrow> int \<Rightarrow> nat option \<Rightarrow>
    (nat list \<times> spec_metrics) rnd" where
  "generate T L cfg input_ids max_new_tokens eos =
     generate_loop T L cfg max_new_tokens eos (Suc (nat max_new_tokens)) input_ids [] metrics_init"

section \<open>Collecting the tokens of a round\<close>

text \<open>A token sequence up to and including the first end-of-sequence token.\<close>

fun cut :: "nat option \<Rightarrow> nat list \<Rightarrow> nat list" where
  "cut eos [] = []"
| "cut eos (t # ts) = (if eos = Some t then [t] else t # cut eos ts)"

definition has_eos :: "nat option \<Rightarrow> nat list \<Rightarrow> bool" where
  "has_eos eos ts \<longleftrightarrow> (\<exists>t\<in>set ts. eos = Some t)"

lemma has_eos_simps [simp]:
  "\<not> has_eos eos []"
  "has_eos eos (t # ts) \<longleftrightarrow> eos = Some t \<or> has_eos eos ts"
  "has_eos eos (xs @ ys) \<longleftrightarrow> has_eos eos xs \<or> has_eos eos ys"
  "\<not> has_eos None ts"
  by (auto simp: has_eos_def)

lemma cut_append: "cut eos (xs @ ys) = (if has_eos eos xs then cut eos xs else xs @ cut eos ys)"
  by (induction xs) auto

lemma cut_no_eos [simp]: "\<not> has_eos eos xs \<Longrightarrow> cut eos xs = xs"
  by (induction xs) auto

lemma length_cut: "length (cut eos xs) \<le> length xs"
  by (induction xs) auto

lemma has_eos_cut: "has_eos eos xs \<Longrightarrow> has_eos eos (cut eos xs)"
  by (induction xs) auto

lemma scan_accepted_cut: "scan_accepted eos ts new = (new @ cut eos ts, has_eos eos ts)"
  by (induction ts arbitrary: new) auto

lemma collect_tokens_cut:
  "collect_tokens eos r = (cut eos (new_tokens_of r), has_eos eos (new_tokens_of r))"
  by (auto simp: collect_tokens_def scan_accepted_cut new_tokens_of_def cut_append
      split: option.splits)

lemma result_ok_new:
  assumes "result_ok ds r"
  shows "new_tokens_of r \<noteq> []" and "length (new_tokens_of r) \<le> Suc (length ds)"
    and "num_accepted r \<le> length ds"
  using assms by (auto simp: result_ok_def new_tokens_of_def split: if_splits option.splits)

section \<open>Shape of the drafts\<close>

lemma draft_loop_length:
  "always (\<lambda>(ts, qs). length ts = length toks + n \<and> length qs = length probs + n)
     (draft_loop L temp n past nxt toks probs)"
proof (induction n arbitrary: past nxt toks probs)
  case (Suc n)
  have "always (\<lambda>(ts, qs). length ts = length toks + Suc n \<and> length qs = length probs + Suc n)
      (draft_loop L temp n past' nxt' (toks @ [t]) (probs @ [p]))" for past' nxt' t p
    using Suc.IH [of "toks @ [t]" "probs @ [p]"] by simp
  then show ?case by (auto simp: Let_def split: prod.split intro!: always_multinomial)
qed simp

lemma speculate_length:
  "always (\<lambda>(ts, qs). length ts = nat k \<and> length qs = nat k \<and> 1 \<le> k) (speculate L ids k temp)"
proof -
  have "always (\<lambda>(ts, qs). length ts = nat k \<and> length qs = nat k) (draft_loop L temp (nat k) None ids [] [])"
    using draft_loop_length [where toks = "[]" and probs = "[]"] by simp
  then show ?thesis
    unfolding speculate_def always_rbind by (rule always_mono) (auto simp flip: length_0_conv)
qed

lemma round_ok:
  "always (\<lambda>r. result_ok ds r) (rejection_sampler T ds qs ps)"
  unfolding rejection_sampler_def by (rule sampler_loop_ok) simp_all

section \<open>Bounds of the generation loop\<close>

definition metrics_ok :: "spec_config \<Rightarrow> spec_metrics \<Rightarrow> bool" where
  "metrics_ok cfg m \<longleftrightarrow> 0 \<le> total_steps m \<and> total_drafted m = num_draft_tokens cfg * total_steps m \<and>
     0 \<le> total_accepted m \<and> total_accepted m \<le> total_drafted m"

definition generated_ok :: "spec_config \<Rightarrow> int \<Rightarrow> nat option \<Rightarrow> nat list \<times> spec_metrics \<Rightarrow> bool" where
  "generated_ok cfg max_new eos = (\<lambda>(out, m).
     metrics_ok cfg m \<and> total_generated m = int (length out) \<and>
     int (length out) \<le> max 0 (max_new + num_draft_tokens cfg) \<and>
     (\<not> has_eos eos out \<longrightarrow> int (length out) \<le> max 0 max_new))"

lemma generate_loop_ok:
  assumes "metrics_ok cfg m" and "\<not> has_eos eos g" and "int (length g) \<le> max 0 max_new"
    and "1 \<le> num_draft_tokens cfg \<or> g = []"
  shows "always (generated_ok cfg max_new eos) (generate_loop T L cfg max_new eos fuel cur g m)"
  using assms
proof (induction fuel arbitrary: cur g m)
  case (Suc fuel)
  let ?k = "num_draft_tokens cfg"
  show ?case
  proof (cases "int (length g) < max_new")
    case True
    show ?thesis
      unfolding generate_loop.simps Let_def if_P [OF True]
    proof (rule always_rbindI [OF speculate_length], clarify, rule always_rbindI [OF round_ok],
        unfold collect_tokens_cut prod.case)
      fix ts :: "nat list" and qs :: "real list list" and r
      assume len: "length ts = nat ?k" "length qs = nat ?k" "1 \<le> ?k" and r: "result_ok ts r"
      let ?new = "new_tokens_of r"
      let ?m = "m\<lparr>total_steps := total_steps m + 1\<rparr>"
      let ?m = "?m\<lparr>total_drafted := total_drafted ?m + ?k\<rparr>"
      let ?m = "?m\<lparr>total_accepted := total_accepted ?m + int (num_accepted r)\<rparr>"
      have m: "metrics_ok cfg ?m"
        using Suc.prems(1) result_ok_new(3) [OF r] len
        by (simp add: metrics_ok_def distrib_left) linarith
      have new: "int (length ?new) \<le> ?k + 1" using result_ok_new(2) [OF r] len by simp
      have cut: "int (length (cut eos ?new)) \<le> ?k + 1"
        using new length_cut [of eos ?new] by linarith
      show "always (generated_ok cfg max_new eos)
        (if has_eos eos ?new
         then Done (g @ cut eos ?new, ?m\<lparr>total_generated := int (length (g @ cut eos ?new))\<rparr>)
         else if max_new \<le> int (length (g @ cut eos ?new))
         then Done (take (nat max_new) (g @ cut eos ?new),
           ?m\<lparr>total_generated := int (length (take (nat max_new) (g @ cut eos ?new)))\<rparr>)
         else if fallback_on_low_acceptance cfg \<and> 3 \<le> total_steps ?m \<and>
           acceptance_rate ?m < min_acceptance_rate cfg
         then Done (g @ cut eos ?new, ?m\<lparr>total_generated := int (length (g @ cut eos ?new))\<rparr>)
         else generate_loop T L cfg max_new eos fuel (cur @ cut eos ?new) (g @ cut eos ?new) ?m)"
      proof (cases "has_eos eos ?new")
        case True
        then show ?thesis
          using m Suc.prems(3) cut \<open>int (length g) < max_new\<close> has_eos_cut [OF True]
          by (simp add: generated_ok_def metrics_ok_def)
      next
        case False
        have "always (generated_ok cfg max_new eos)
            (generate_loop T L cfg max_new eos fuel (cur @ ?new) (g @ ?new) ?m)"
          if "int (length (g @ ?new)) < max_new"
          using that Suc.prems(2) False m len(3) by (intro Suc.IH) simp_all
        then show ?thesis
          using False m new \<open>int (length g) < max_new\<close> len(3)
          by (auto simp: generated_ok_def metrics_ok_def)
      qed
    qed
  next
    case False
    then show ?thesis using Suc.prems by (auto simp: generated_ok_def metrics_ok_def)
  qed
qed simp

section \<open>The fuel is enough\<close>

abbreviation "not_fuel e \<equiv> e \<noteq> out_of_fuel"

lemma not_fuel_errors [simp]:
  "not_fuel index_error" "not_fuel (RuntimeError s)"
  by (simp_all add: index_error_def out_of_fuel_def)

lemma draft_loop_fuel: "fails_only not_fuel (draft_loop L temp n past nxt toks probs)"
  by (induction n arbitrary: past nxt toks probs)
    (simp_all add: Let_def fails_only_multinomial split: prod.split)

lemma speculate_fuel: "fails_only not_fuel (speculate L ids k temp)"
  unfolding speculate_def
  by (rule fails_only_rbindI [OF draft_loop_fuel always_True]) (simp split: prod.split)

lemma reject_fuel: "fails_only not_fuel (reject T p q i acc)"
  by (simp add: reject_def Let_def fails_only_multinomial)

lemma sampler_fuel: "fails_only not_fuel (sampler_loop T ds qs ps i acc)"
  by (induction T ds qs ps i acc rule: sampler_loop.induct)
    (simp_all add: fails_only_multinomial fails_only_item_at reject_fuel)

lemma generate_loop_fuel:
  "nat max_new < fuel + length g \<Longrightarrow> 0 < fuel \<Longrightarrow>
   fails_only not_fuel (generate_loop T L cfg max_new eos fuel cur g m)"
proof (induction fuel arbitrary: cur g m)
  case (Suc fuel)
  show ?case
  proof (cases "int (length g) < max_new")
    case True
    show ?thesis
      unfolding generate_loop.simps Let_def if_P [OF True]
    proof (rule fails_only_rbindI [OF speculate_fuel always_True], clarify,
        rule fails_only_rbindI [OF _ round_ok], unfold collect_tokens_cut prod.case)
      fix ts :: "nat list" and qs ps :: "real list list"
      show "fails_only not_fuel (rejection_sampler T ts qs ps)"
        unfolding rejection_sampler_def by (rule sampler_fuel)
    next
      fix ts :: "nat list" and qs :: "real list list" and r
      assume "result_ok ts r"
      then have new: "new_tokens_of r \<noteq> []" by (rule result_ok_new(1))
      let ?new = "new_tokens_of r"
      let ?m = "m\<lparr>total_steps := total_steps m + 1\<rparr>"
      let ?m = "?m\<lparr>total_drafted := total_drafted ?m + num_draft_tokens cfg\<rparr>"
      let ?m = "?m\<lparr>total_accepted := total_accepted ?m + int (num_accepted r)\<rparr>"
      have "fails_only not_fuel (generate_loop T L cfg max_new eos fuel (cur @ ?new) (g @ ?new) ?m)"
        if "int (length (g @ ?new)) < max_new"
        using Suc.prems(1) that new by (intro Suc.IH) (cases ?new; simp)+
      then show "fails_only not_fuel
        (if has_eos eos ?new
         then Done (g @ cut eos ?new, ?m\<lparr>total_generated := int (length (g @ cut eos ?new))\<rparr>)
         else if max_new \<le> int (length (g @ cut eos ?new))
         then Done (take (nat max_new) (g @ cut eos ?new),
           ?m\<lparr>total_generated := int (length (take (nat max_new) (g @ cut eos ?new)))\<rparr>)
         else if fallback_on_low_acceptance cfg \<and> 3 \<le> total_steps ?m \<and>
           acceptance_rate ?m < min_acceptance_rate cfg
         then Done (g @ cut eos ?new, ?m\<lparr>total_generated := int (length (g @ cut eos ?new))\<rparr>)
         else generate_loop T L cfg max_new eos fuel (cur @ cut eos ?new) (g @ cut eos ?new) ?m)"
        by auto
    qed
  qed simp
qed simp

section \<open>What is assumed of the two models\<close>

text \<open>
  A cached call continues the sequence in the cache; the logits of the target model at a
  position depend on the tokens up to it; \<^verbatim>\<open>softmax\<close> returns a probability distribution over
  the vocabulary.
\<close>

locale spec_lms =
  fixes L :: "'kv lms"
    and draft_logits :: "nat list \<Rightarrow> real list"
    and target_logits :: "nat list \<Rightarrow> real list"
    and kv_of :: "'kv \<Rightarrow> nat list"
    and vocab :: nat
  assumes draft_first: "ids \<noteq> [] \<Longrightarrow> \<exists>ls kv. draft_forward L None ids = (ls, kv) \<and> ls \<noteq> [] \<and>
        last ls = draft_logits ids \<and> kv_of kv = ids"
    and draft_next: "ids \<noteq> [] \<Longrightarrow> \<exists>ls kv. draft_forward L (Some past) ids = (ls, kv) \<and> ls \<noteq> [] \<and>
        last ls = draft_logits (kv_of past @ ids) \<and> kv_of kv = kv_of past @ ids"
    and target_length: "length (target_forward L ids) = length ids"
    and target_causal: "i < length ids \<Longrightarrow>
        target_forward L ids ! i = target_logits (take (Suc i) ids)"
    and draft_vocab: "length (draft_logits ids) = vocab"
    and target_vocab: "length (target_logits ids) = vocab"
    and scale_length: "length (t_scale L w t) = length w"
    and softmax_dist: "length w = vocab \<Longrightarrow> is_dist (softmax L w) \<and> length (softmax L w) = vocab"
begin

definition draft_dist :: "real \<Rightarrow> nat list \<Rightarrow> real list" where
  "draft_dist temp ids = next_probs L temp (draft_logits ids)"

definition target_dist :: "real \<Rightarrow> nat list \<Rightarrow> real list" where
  "target_dist temp ids = next_probs L temp (target_logits ids)"

lemma dists:
  "is_dist (draft_dist temp ids)" "is_dist (target_dist temp ids)"
  "length (draft_dist temp ids) = vocab" "length (target_dist temp ids) = vocab"
  by (simp_all add: draft_dist_def target_dist_def next_probs_def softmax_dist draft_vocab
      target_vocab scale_length)

lemma draft_loop_draws:
  assumes "nxt \<noteq> []" and "(case past of None \<Rightarrow> [] | Some kv \<Rightarrow> kv_of kv) @ nxt = base @ xs"
  shows "draft_loop L temp n past nxt toks probs =
    rbind (draws (\<lambda>ys. draft_dist temp (base @ ys)) n xs) (\<lambda>(ts, qs). Done (toks @ ts, probs @ qs))"
  using assms
proof (induction n arbitrary: past nxt xs toks probs)
  case (Suc n)
  obtain ls kv where ls: "draft_forward L past nxt = (ls, kv)" "ls \<noteq> []"
      "last ls = draft_logits (base @ xs)" "kv_of kv = base @ xs"
    using draft_first [OF Suc.prems(1)] draft_next [OF Suc.prems(1)] Suc.prems(2)
    by (cases past) fastforce+
  have "draft_loop L temp n (Some kv) [t] (toks @ [t]) (probs @ [p]) =
      rbind (draws (\<lambda>ys. draft_dist temp (base @ ys)) n (xs @ [t]))
        (\<lambda>(ts, qs). Done (toks @ t # ts, probs @ p # qs))" for t p
    using Suc.IH [of "[t]" "Some kv" "xs @ [t]"] ls(4) by simp
  then show ?case
    using ls by (simp add: Let_def draft_dist_def [symmetric] rbind_assoc case_prod_unfold)
qed simp

lemma speculate_draws:
  assumes "ids \<noteq> []" and "1 \<le> k"
  shows "speculate L ids k temp = draws (\<lambda>ys. draft_dist temp (ids @ ys)) (nat k) []"
proof -
  obtain n where n: "nat k = Suc n" using assms(2) by (metis not_one_le_zero nat_le_0 not0_implies_Suc linorder_not_less zero_less_nat_eq less_le_trans zero_less_one neq0_conv)
  show ?thesis
    using draft_loop_draws [of ids None ids "[]" temp "nat k" "[]" "[]"] assms(1)
    by (simp add: speculate_def n rbind_assoc case_prod_unfold)
qed

lemma verify_rows:
  assumes "ids \<noteq> []"
  shows "verify L ids ts temp = rows (\<lambda>ys. target_dist temp (ids @ ys)) [] ts"
proof (rule nth_equalityI)
  have a: "py_index (target_forward L (ids @ ts)) (int (length ids) - 1) = length ids - 1"
    and b: "py_index (target_forward L (ids @ ts)) (int (length ids) - 1 + int (length ts) + 1) =
      length ids + length ts"
    using assms by (simp_all add: py_index_def target_length Suc_le_eq)
  have slice: "verify L ids ts temp =
      map (next_probs L temp) (drop (length ids - 1) (target_forward L (ids @ ts)))"
    unfolding verify_def Let_def py_slice_def a b by (simp add: target_length)
  show "length (verify L ids ts temp) = length (rows (\<lambda>ys. target_dist temp (ids @ ys)) [] ts)"
    using assms by (simp add: slice target_length length_rows Suc_diff_le Suc_le_eq)
  fix i
  assume "i < length (verify L ids ts temp)"
  then have i: "i \<le> length ts" using assms by (simp add: slice target_length)
  have "Suc (length ids - 1 + i) = length ids + i" "Suc (length ids - Suc 0 + i) - length ids = i"
    "i < length (drop (length ids - 1) (target_forward L (ids @ ts)))"
    using assms i by (cases ids; simp add: target_length)+
  then show "verify L ids ts temp ! i = rows (\<lambda>ys. target_dist temp (ids @ ys)) [] ts ! i"
    using i assms by (simp add: slice target_length target_causal nth_rows target_dist_def)
qed

text \<open>One round, from the tokens generated so far.\<close>

lemma round_exact:
  assumes ids: "ids \<noteq> []" and k: "1 \<le> k"
    and h: "\<And>xs. h xs = (\<Sum>j<vocab. target_dist temp (ids @ xs) ! j * h (xs @ [j]))"
  shows "E (\<lambda>r. h (new_tokens_of r)) (rbind (speculate L ids k temp) (\<lambda>(ts, qs).
    rejection_sampler exact_torch ts qs (verify L ids ts temp))) = h []"
  unfolding rejection_sampler_def verify_rows [OF ids] speculate_draws [OF ids k]
  by (rule round_keeps_expectation) (simp_all add: dists h [symmetric])

end

section \<open>Sampling one token at a time\<close>

text \<open>The reference: at most \<open>n\<close> more tokens from the target, stopping at end of sequence.\<close>

fun autoregressive :: "(nat list \<Rightarrow> real list) \<Rightarrow> nat option \<Rightarrow> nat \<Rightarrow> nat list \<Rightarrow> nat list rnd" where
  "autoregressive P eos 0 xs = Done xs"
| "autoregressive P eos (Suc n) xs =
     rbind (multinomial (P xs)) (\<lambda>t.
       if eos = Some t then Done (xs @ [t]) else autoregressive P eos n (xs @ [t]))"

text \<open>The expectation of \<open>f\<close> over the first \<open>N\<close> tokens, once the tokens \<open>xs\<close> are known.\<close>

definition completed :: "(nat list \<Rightarrow> real list) \<Rightarrow> nat option \<Rightarrow> nat \<Rightarrow> (nat list \<Rightarrow> real) \<Rightarrow>
    nat list \<Rightarrow> real" where
  "completed P eos N f xs =
     (if has_eos eos xs then f (take N (cut eos xs))
      else if N \<le> length xs then f (take N xs)
      else E f (autoregressive P eos (N - length xs) xs))"

lemma completed_next:
  assumes P: "is_dist (P xs)"
  shows "completed P eos N f xs = (\<Sum>j<length (P xs). P xs ! j * completed P eos N f (xs @ [j]))"
proof -
  consider "has_eos eos xs \<or> N \<le> length xs" | n where "\<not> has_eos eos xs" "N = Suc (length xs + n)"
    by (metis add_Suc less_imp_Suc_add linorder_not_less)
  then show ?thesis
  proof cases
    case 1
    then have "completed P eos N f (xs @ [j]) = completed P eos N f xs" for j
      by (auto simp: completed_def cut_append)
    then show ?thesis by (simp add: dist_sum_const [OF P])
  next
    case 2
    have "completed P eos N f (xs @ [j]) =
        E f (if eos = Some j then Done (xs @ [j]) else autoregressive P eos n (xs @ [j]))" for j
      using 2 by (cases n) (auto simp: completed_def cut_append)
    then show ?thesis using 2 by (simp add: completed_def E_multinomial [OF P])
  qed
qed

section \<open>Exactness\<close>

context spec_lms
begin

lemma generate_loop_exact:
  fixes cfg :: spec_config and base :: "nat list" and eos :: "nat option" and N :: nat
    and f :: "nat list \<Rightarrow> real"
  assumes base: "base \<noteq> []" and k: "1 \<le> num_draft_tokens cfg"
    and nofb: "\<not> fallback_on_low_acceptance cfg"
  defines "h \<equiv> completed (\<lambda>xs. target_dist (spec_temperature cfg) (base @ xs)) eos N f"
  assumes "\<not> has_eos eos g" and "N < fuel + length g" and "0 < fuel"
  shows "E (\<lambda>(out, _). f (take N out))
    (generate_loop exact_torch L cfg (int N) eos fuel (base @ g) g m) = h g"
  using assms(5-7)
proof (induction fuel arbitrary: g m)
  case (Suc fuel)
  let ?F = "\<lambda>(out, _). f (take N out)"
  let ?t = "spec_temperature cfg"
  let ?k = "num_draft_tokens cfg"
  show ?case
  proof (cases "int (length g) < int N")
    case True
    let ?cont = "\<lambda>r. let m = m\<lparr>total_steps := total_steps m + 1\<rparr>;
        m = m\<lparr>total_drafted := total_drafted m + ?k\<rparr>;
        m = m\<lparr>total_accepted := total_accepted m + int (num_accepted r)\<rparr>;
        (new_tokens, stop) = collect_tokens eos r;
        generated = g @ new_tokens
      in if stop then Done (generated, m\<lparr>total_generated := int (length generated)\<rparr>)
         else if int N \<le> int (length generated)
         then let generated = take (nat (int N)) generated
              in Done (generated, m\<lparr>total_generated := int (length generated)\<rparr>)
         else if fallback_on_low_acceptance cfg \<and> 3 \<le> total_steps m \<and>
                 acceptance_rate m < min_acceptance_rate cfg
         then Done (generated, m\<lparr>total_generated := int (length generated)\<rparr>)
         else generate_loop exact_torch L cfg (int N) eos fuel ((base @ g) @ new_tokens) generated m"
    let ?round = "\<lambda>(ts, qs). rejection_sampler exact_torch ts qs (verify L (base @ g) ts ?t)"
    have cont: "E ?F (?cont r) = h (g @ new_tokens_of r)" if "result_ok ts r" for ts r
    proof -
      have new: "new_tokens_of r \<noteq> []" using that by (rule result_ok_new(1))
      show ?thesis
      proof (cases "has_eos eos (new_tokens_of r)")
        case True
        then show ?thesis
          using Suc.prems(1) by (simp add: Let_def collect_tokens_cut h_def completed_def cut_append)
      next
        case False
        show ?thesis
        proof (cases "N \<le> length (g @ new_tokens_of r)")
          case True
          then show ?thesis
            using False Suc.prems(1) \<open>int (length g) < int N\<close>
            by (simp add: Let_def collect_tokens_cut h_def completed_def min_def)
        next
          case less: False
          have "E ?F (generate_loop exact_torch L cfg (int N) eos fuel
              (base @ g @ new_tokens_of r) (g @ new_tokens_of r) m') = h (g @ new_tokens_of r)" for m'
            using False Suc.prems less new by (intro Suc.IH) (cases "new_tokens_of r"; simp)+
          then show ?thesis
            using False less nofb by (simp add: Let_def collect_tokens_cut)
        qed
      qed
    qed
    have step: "h (g @ ys) = (\<Sum>j<vocab. target_dist ?t ((base @ g) @ ys) ! j * h (g @ ys @ [j]))" for ys
      using completed_next [of "\<lambda>xs. target_dist ?t (base @ xs)" "g @ ys" eos N f, OF dists(2)]
      by (simp only: h_def dists(4) append_assoc)
    have "E ?F (generate_loop exact_torch L cfg (int N) eos (Suc fuel) (base @ g) g m) =
        E ?F (rbind (speculate L (base @ g) ?k ?t) (\<lambda>a. rbind (?round a) ?cont))"
      unfolding generate_loop.simps Let_def if_P [OF True] case_prod_unfold by (rule refl)
    also have "\<dots> = E (\<lambda>a. E (\<lambda>r. E ?F (?cont r)) (?round a)) (speculate L (base @ g) ?k ?t)"
      by (simp only: E_rbind)
    also have "\<dots> = E (\<lambda>a. E (\<lambda>r. h (g @ new_tokens_of r)) (?round a)) (speculate L (base @ g) ?k ?t)"
      by (rule E_cong_always [OF always_True], clarify, rule E_cong_always [OF round_ok cont])
    also have "\<dots> = E (\<lambda>r. h (g @ new_tokens_of r)) (rbind (speculate L (base @ g) ?k ?t) ?round)"
      by (simp only: E_rbind)
    also have "\<dots> = h (g @ [])"
      by (rule round_exact [where h = "\<lambda>ys. h (g @ ys)", OF _ k step]) (simp add: base)
    finally show ?thesis by simp
  next
    case False
    then show ?thesis using Suc.prems(1) by (simp add: h_def completed_def)
  qed
qed simp

end

section \<open>Models given by their logits\<close>

text \<open>
  A runtime for two models given as functions from token sequences to logits: the cache is the
  sequence itself, \<open>softmax\<close> the exponential one, division exact.
\<close>

definition fit :: "nat \<Rightarrow> real list \<Rightarrow> real list" where
  "fit n w = map (\<lambda>i. if i < length w then w ! i else 0) [0..<n]"

definition exact_softmax :: "real list \<Rightarrow> real list" where
  "exact_softmax w = map (\<lambda>x. exp x / sum_list (map exp w)) w"

definition exact_lms :: "nat \<Rightarrow> (nat list \<Rightarrow> real list) \<Rightarrow> (nat list \<Rightarrow> real list) \<Rightarrow> nat list lms" where
  "exact_lms n D P =
     \<lparr>draft_forward = (\<lambda>past ids.
        let old = (case past of None \<Rightarrow> [] | Some kv \<Rightarrow> kv)
        in (map (\<lambda>i. fit n (D (old @ take (Suc i) ids))) [0..<length ids], old @ ids)),
      target_forward = (\<lambda>ids. map (\<lambda>i. fit n (P (take (Suc i) ids))) [0..<length ids]),
      softmax = exact_softmax,
      t_scale = (\<lambda>w t. map (\<lambda>x. x / t) w)\<rparr>"

lemma length_fit [simp]: "length (fit n w) = n"
  by (simp add: fit_def)

lemma exact_softmax_dist: "w \<noteq> [] \<Longrightarrow> is_dist (exact_softmax w)"
proof -
  assume "w \<noteq> []"
  then have pos: "0 < sum_list (map exp w)" by (cases w) (auto intro!: add_pos_nonneg sum_list_nonneg)
  then have "sum_list (exact_softmax w) = 1"
    by (simp add: exact_softmax_def sum_list_nths sum_divide_distrib [symmetric])
  then show "is_dist (exact_softmax w)"
    using pos by (auto simp: is_dist_def exact_softmax_def)
qed

interpretation exact_lms: spec_lms "exact_lms (Suc n) D P" "\<lambda>ids. fit (Suc n) (D ids)"
    "\<lambda>ids. fit (Suc n) (P ids)" "\<lambda>kv. kv" "Suc n"
proof unfold_locales
  fix w :: "real list"
  assume "length w = Suc n"
  then show "is_dist (softmax (exact_lms (Suc n) D P) w) \<and>
      length (softmax (exact_lms (Suc n) D P) w) = Suc n"
    using exact_softmax_dist [of w] by (cases "w = []") (simp_all add: exact_lms_def, simp add: exact_softmax_def)
qed (simp_all add: exact_lms_def last_map)

section \<open>Properties\<close>

text \<open>C1: Speculative decoding is exact.  With exact arithmetic, at least one draft token per
  round, and the early exit on low acceptance switched off, the first \<open>N\<close> tokens that
  \<^verbatim>\<open>generate\<close> returns are distributed as \<open>N\<close> tokens sampled one at a time from the target
  model, stopping at end of sequence, whatever the draft model proposes: every test function
  \<open>f\<close> has the same expectation.\<close>

theorem speculative_decoding_is_exact:
  assumes "spec_lms L draft_logits target_logits kv_of vocab"
    and "input_ids \<noteq> []" and "1 \<le> num_draft_tokens cfg" and "\<not> fallback_on_low_acceptance cfg"
  shows "E (\<lambda>(out, m). f (take N out)) (generate exact_torch L cfg input_ids (int N) eos) =
    E f (autoregressive
      (\<lambda>xs. next_probs L (spec_temperature cfg) (target_logits (input_ids @ xs))) eos N [])"
proof -
  have "E (\<lambda>(out, m). f (take N out)) (generate exact_torch L cfg input_ids (int N) eos) =
      completed (\<lambda>xs. next_probs L (spec_temperature cfg) (target_logits (input_ids @ xs))) eos N f []"
    using spec_lms.generate_loop_exact [OF assms, of eos "[]" N "Suc N" f metrics_init]
    by (simp add: generate_def spec_lms.target_dist_def [OF assms(1)])
  then show ?thesis by (cases N) (simp_all add: completed_def)
qed

lemma speculative_decoding_is_exact_witness:
  "E (\<lambda>(out, m). real (length (take 3 out))) (generate exact_torch (exact_lms (Suc 1) (\<lambda>_. [0, 1]) (\<lambda>_. [2, 0]))
      \<lparr>num_draft_tokens = 5, spec_temperature = 1, min_acceptance_rate = 3 / 10,
       fallback_on_low_acceptance = False\<rparr> [7, 8] (int 3) (Some 1)) =
    E (\<lambda>out. real (length out)) (autoregressive (\<lambda>xs. next_probs (exact_lms (Suc 1) (\<lambda>_. [0, 1]) (\<lambda>_. [2, 0])) 1
      (fit (Suc 1) [2, 0])) (Some 1) 3 [])"
  using speculative_decoding_is_exact [OF exact_lms.spec_lms_axioms, of "[7, 8]"
      "\<lparr>num_draft_tokens = 5, spec_temperature = 1, min_acceptance_rate = 3 / 10,
        fallback_on_low_acceptance = False\<rparr>" "\<lambda>out. real (length out)" 3 1 "\<lambda>_. [0, 1]" "\<lambda>_. [2, 0]" "Some 1"]
  by simp

text \<open>The draft model's key-value cache is transparent: passing only the last token with the
  cache draws the same tokens with the same distributions as running the draft model on the
  whole sequence at every step.\<close>

theorem draft_cache_is_transparent:
  assumes "spec_lms L draft_logits target_logits kv_of vocab"
    and "input_ids \<noteq> []" and "1 \<le> k"
  shows "speculate L input_ids k temperature =
    draws (\<lambda>ys. next_probs L temperature (draft_logits (input_ids @ ys))) (nat k) []"
  using spec_lms.speculate_draws [OF assms] by (simp add: spec_lms.draft_dist_def [OF assms(1)])

lemma draft_cache_is_transparent_witness:
  "speculate (exact_lms (Suc 1) (\<lambda>_. [0, 1]) (\<lambda>_. [2, 0])) [7, 8] 5 2 =
    draws (\<lambda>ys. next_probs (exact_lms (Suc 1) (\<lambda>_. [0, 1]) (\<lambda>_. [2, 0])) 2 (fit (Suc 1) [0, 1])) (nat 5) []"
  by (rule draft_cache_is_transparent [OF exact_lms.spec_lms_axioms]) simp_all

text \<open>One forward pass verifies all positions: row \<open>i\<close> of the target probabilities is the
  distribution of the target model after the input and the first \<open>i\<close> draft tokens, and there
  is one row more than draft tokens, for the bonus token.\<close>

theorem verify_gives_next_token_rows:
  assumes "spec_lms L draft_logits target_logits kv_of vocab" and "input_ids \<noteq> []"
  shows "verify L input_ids draft_tokens temperature =
    map (\<lambda>i. next_probs L temperature (target_logits (input_ids @ take i draft_tokens)))
      [0..<Suc (length draft_tokens)]"
  unfolding spec_lms.verify_rows [OF assms]
  by (rule nth_equalityI) (simp_all add: nth_rows spec_lms.target_dist_def [OF assms(1)] del: upt_Suc)

lemma verify_gives_next_token_rows_witness:
  "verify (exact_lms (Suc 1) (\<lambda>_. [0, 1]) (\<lambda>_. [2, 0])) [7, 8] [1, 0] 1 =
    map (\<lambda>i. next_probs (exact_lms (Suc 1) (\<lambda>_. [0, 1]) (\<lambda>_. [2, 0])) 1 (fit (Suc 1) [2, 0]))
      [0..<Suc (length [1 :: nat, 0])]"
  by (rule verify_gives_next_token_rows [OF exact_lms.spec_lms_axioms]) simp

text \<open>C23: Whatever the arithmetic and the models, every result of \<^verbatim>\<open>generate\<close> has consistent
  counters (drafted is the draft length times the rounds, accepted at most drafted,
  generated the length of the output); its length is at most \<^verbatim>\<open>max_new_tokens\<close> when it does
  not end in end of sequence, and otherwise exceeds that by at most the draft length.\<close>

theorem generate_within_bounds:
  "always (\<lambda>(out, m).
     total_drafted m = num_draft_tokens cfg * total_steps m \<and>
     0 \<le> total_accepted m \<and> total_accepted m \<le> total_drafted m \<and>
     total_generated m = int (length out) \<and>
     int (length out) \<le> max 0 (if has_eos eos out then max_new_tokens + num_draft_tokens cfg
       else max_new_tokens))
   (generate T L cfg input_ids max_new_tokens eos)"
  unfolding generate_def
  by (rule always_mono, rule generate_loop_ok)
    (auto simp: generated_ok_def metrics_ok_def metrics_init_def)

text \<open>C34: The generation loop ends: every round adds a token, so \<open>max_new_tokens + 1\<close> rounds are
  enough and no run of \<^verbatim>\<open>generate\<close> ends for lack of fuel.\<close>

theorem generate_terminates:
  "fails_only (\<lambda>e. e \<noteq> out_of_fuel) (generate T L cfg input_ids max_new_tokens eos)"
  unfolding generate_def by (rule generate_loop_fuel) simp_all

lemma uniform_pair:
  "next_probs (exact_lms (Suc 1) (\<lambda>_. []) (\<lambda>_. [])) 1 (fit (Suc 1) []) = [1 / 2, 1 / 2]"
  by (simp add: next_probs_def exact_lms_def fit_def exact_softmax_def)

lemma multinomial_pair: "E f (rbind (multinomial [1 / 2, 1 / 2]) k) = (E f (k 0) + E f (k 1)) / 2"
  by (subst E_multinomial) (simp_all add: is_dist_def lessThan_Suc field_simps)

lemma overshooting_round:
  assumes "\<And>r. fst (collect_tokens (Some 1) r) \<noteq> [] \<Longrightarrow> E f (c r) =
    (if 1 < length (fst (collect_tokens (Some 1) r)) \<and> snd (collect_tokens (Some 1) r) then 1 else 0)"
  shows "E f (rbind (draws (\<lambda>_. [1 / 2, 1 / 2]) 2 []) (\<lambda>(ts, qs).
    rbind (rejection_sampler exact_torch ts qs (rows (\<lambda>_. [1 / 2, 1 / 2]) [] ts)) c)) = 3 / 8"
  by (simp add: numeral_2_eq_2 rbind_assoc multinomial_pair rejection_sampler_def rbind_item_at item_at_def assms
      collect_tokens_def)

text \<open>The limit \<^verbatim>\<open>max_new_tokens\<close> is not kept when an end of sequence arrives: with one
  token allowed and two drafted per round, both models uniform over two tokens, more than one
  token is returned with probability 3/8.\<close>

theorem eos_overshoots_max_new_tokens:
  "E (\<lambda>(out, m). if 1 < length out then 1 else 0)
     (generate exact_torch (exact_lms (Suc 1) (\<lambda>_. []) (\<lambda>_. []))
       \<lparr>num_draft_tokens = 2, spec_temperature = 1, min_acceptance_rate = 3 / 10,
        fallback_on_low_acceptance = True\<rparr> [0] 1 (Some 1)) = 3 / 8"
proof -
  let ?L = "exact_lms (Suc 1) (\<lambda>_. []) (\<lambda>_. [])"
  have D: "speculate ?L [0] 2 1 = draws (\<lambda>_. [1 / 2, 1 / 2]) 2 []"
    using exact_lms.speculate_draws [of "[0]" 2 1 "\<lambda>_. []" "\<lambda>_. []" 1]
    by (simp only: exact_lms.draft_dist_def uniform_pair) simp
  have V: "verify ?L [0] ts 1 = rows (\<lambda>_. [1 / 2, 1 / 2]) [] ts" for ts
    using exact_lms.verify_rows [of "[0]" 1 "\<lambda>_. []" "\<lambda>_. []" ts 1]
    by (simp only: exact_lms.target_dist_def uniform_pair) simp
  show ?thesis
    unfolding generate_def generate_loop.simps Let_def
    by (simp only: list.size of_nat_0 zero_less_one if_True spec_config.select_convs D V)
      (rule overshooting_round, auto simp: split_beta Let_def Suc_le_eq)
qed

end
