(* ===== verification/Futures.thy ===== *)
theory Futures
  imports Prelude
begin

text \<open>
  The \<^verbatim>\<open>asyncio.Future\<close>s through which the worker pool and the batch scheduler answer.  A
  future is its index in the list of all futures created so far.  \<open>write_future\<close> is what
  \<^verbatim>\<open>set_result\<close> and \<^verbatim>\<open>set_exception\<close> do: they raise on a future that is done.  The code never
  calls them, nor \<^verbatim>\<open>cancel\<close>, without \<^verbatim>\<open>if not future.done()\<close> in front; \<open>settle\<close> is the guarded write.
\<close>

datatype 'r outcome = Pending | Resolved 'r | Failed exn | Cancelled

type_synonym 'r futures = "'r outcome list"

definition create_future :: "'r futures \<Rightarrow> nat \<times> 'r futures" where
  "create_future fs = (length fs, fs @ [Pending])"

definition future_done :: "'r futures \<Rightarrow> nat \<Rightarrow> bool" where
  "future_done fs i \<longleftrightarrow> i < length fs \<and> fs ! i \<noteq> Pending"

definition write_future :: "nat \<Rightarrow> 'r outcome \<Rightarrow> 'r futures \<Rightarrow> 'r futures result" where
  "write_future i out fs =
     (if future_done fs i then Inl (OtherException ''InvalidStateError'') else Inr (fs[i := out]))"

definition settle :: "nat \<Rightarrow> 'r outcome \<Rightarrow> 'r futures \<Rightarrow> 'r futures" where
  "settle i out fs =
     (if future_done fs i then fs
      else case write_future i out fs of Inr fs' \<Rightarrow> fs' | Inl e \<Rightarrow> fs)"

text \<open>Behind the guard the write does not raise.\<close>

lemma guarded_write: "\<not> future_done fs i \<Longrightarrow> write_future i out fs = Inr (settle i out fs)"
  by (simp add: settle_def write_future_def)

lemma settle_eq: "settle i out fs = (if i < length fs \<and> \<not> future_done fs i then fs[i := out] else fs)"
  by (auto simp: settle_def write_future_def list_update_beyond)

text \<open>Futures only come into being and get settled once.\<close>

definition evolves :: "'r futures \<Rightarrow> 'r futures \<Rightarrow> bool" where
  "evolves fs fs' \<longleftrightarrow> length fs \<le> length fs' \<and> (\<forall>i. future_done fs i \<longrightarrow> fs' ! i = fs ! i)"

lemma length_settle [simp]: "length (settle i out fs) = length fs"
  by (simp add: settle_eq)

lemma settle_nth:
  "j < length fs \<Longrightarrow> settle i out fs ! j = (if i = j \<and> fs ! j = Pending then out else fs ! j)"
  by (auto simp: settle_eq future_done_def nth_list_update)

lemma settle_settles: "i < length fs \<Longrightarrow> out \<noteq> Pending \<Longrightarrow> future_done (settle i out fs) i"
  by (simp add: future_done_def settle_nth)

lemma evolves_refl [simp, intro]: "evolves fs fs"
  by (simp add: evolves_def)

lemma evolves_trans [trans]: "evolves fs fs' \<Longrightarrow> evolves fs' fs'' \<Longrightarrow> evolves fs fs''"
  by (auto simp: evolves_def future_done_def)

lemma evolves_settle [intro]: "evolves fs (settle i out fs)"
  by (auto simp: evolves_def future_done_def settle_nth)

lemma evolves_settle_after: "evolves fs fs' \<Longrightarrow> evolves fs (settle i out fs')"
  by (rule evolves_trans [OF _ evolves_settle])

lemma evolves_create [intro]: "evolves fs (snd (create_future fs))"
  by (auto simp: evolves_def future_done_def create_future_def nth_append)

lemma evolves_done: "evolves fs fs' \<Longrightarrow> future_done fs i \<Longrightarrow> future_done fs' i \<and> fs' ! i = fs ! i"
  by (auto simp: evolves_def future_done_def)

lemma evolves_fold_settle: "evolves fs (fold (\<lambda>i. settle i out) is fs)"
  by (induction "is" arbitrary: fs) (auto intro: evolves_trans)

lemma length_fold_settle [simp]: "length (fold (\<lambda>i. settle i out) is fs) = length fs"
  by (induction "is" arbitrary: fs) auto

lemma fold_settle_done:
  "i \<in> set is \<Longrightarrow> i < length fs \<Longrightarrow> out \<noteq> Pending \<Longrightarrow> future_done (fold (\<lambda>i. settle i out) is fs) i"
proof (induction "is" arbitrary: fs)
  case (Cons j js)
  show ?case
  proof (cases "i = j")
    case True
    then show ?thesis
      using Cons.prems settle_settles [of i fs out] evolves_fold_settle [of "settle j out fs" out js]
      by (auto dest: evolves_done)
  next
    case False
    then show ?thesis using Cons by simp
  qed
qed simp

lemma fold_settle_other:
  "i \<notin> set js \<Longrightarrow> fold (\<lambda>j. settle j out) js fs ! i = fs ! i"
  by (induction js arbitrary: fs) (auto simp: settle_eq)

section \<open>Owners of futures\<close>

text \<open>
  What whoever awaits a future relies on when its owner stops: every future that the owner still
  answers for gets done, and an answer already given is kept.  A future that the owner has lost
  sight of stays as it is.
\<close>

locale future_owner =
  fixes invar :: "'s \<Rightarrow> bool"
    and owned :: "'s \<Rightarrow> 'r futures"
    and lost :: "'s \<Rightarrow> nat set"
    and halt :: "'s \<Rightarrow> 's"
  assumes halt_settles: "invar s \<Longrightarrow> i < length (owned s) \<Longrightarrow> i \<notin> lost s \<Longrightarrow> future_done (owned (halt s)) i"
    and halt_loses: "invar s \<Longrightarrow> i \<in> lost s \<Longrightarrow> \<not> future_done (owned (halt s)) i"
    and halt_evolves: "evolves (owned s) (owned (halt s))"
    and halt_length: "length (owned (halt s)) = length (owned s)"
begin

lemma waits_on: "invar s \<Longrightarrow> i < length (owned s) \<Longrightarrow> future_done (owned (halt s)) i \<longleftrightarrow> i \<notin> lost s"
  using halt_settles halt_loses by blast

lemma nobody_waits:
  "invar s \<Longrightarrow> lost s = {} \<Longrightarrow> \<forall>i < length (owned (halt s)). future_done (owned (halt s)) i"
  by (simp add: waits_on halt_length)

lemma answers_kept: "future_done (owned s) i \<Longrightarrow> owned (halt s) ! i = owned s ! i"
  using evolves_done [OF halt_evolves] by blast

end

end
