(* ===== verification/Inference.thy ===== *)
theory Inference
  imports KV_Cache
begin

text \<open>
  \<^verbatim>\<open>core/inference.py\<close> and the state of \<^verbatim>\<open>models/loader.py\<close>: single, batched and
  prefix-cached generation, and the padding of \<^verbatim>\<open>core/batcher.py\<close> around the batched call.  The
  Hugging Face model and tokenizer are parameters; \<open>'g\<close> is torch's random state, which
  sampling threads through.
\<close>

section \<open>The model manager\<close>

record tokenizer =
  tok_encode :: "string \<Rightarrow> nat list"
  tok_decode :: "nat list \<Rightarrow> string"
  pad_token_id :: "nat option"

text \<open>
  \<open>eng_generate rows mask past max_new_tokens temperature pad\<close> is \<^verbatim>\<open>model.generate\<close>: the rows it
  returns start with the rows it was given.  \<open>eng_forward ids\<close> is the key-value state that a
  forward pass over \<open>ids\<close> returns, or what it raises: the model is in evaluation mode, where the
  pass draws nothing at random.  The state is the tuple of tensors that the code names, a value.
\<close>

record 'g engine =
  eng_generate :: "nat list list \<Rightarrow> nat list list option \<Rightarrow> past_kv option \<Rightarrow> int \<Rightarrow> float \<Rightarrow>
    nat option \<Rightarrow> (nat list list, 'g) action"
  eng_forward :: "nat list \<Rightarrow> past_kv result"
  manual_seed :: "int \<Rightarrow> 'g \<Rightarrow> 'g"

record 'g manager =
  mm_model :: "'g engine option"
  mm_tokenizer :: "tokenizer option"

definition manager_init :: "'g manager" where
  "manager_init = \<lparr>mm_model = None, mm_tokenizer = None\<rparr>"

definition is_loaded :: "'g manager \<Rightarrow> bool" where
  "is_loaded m \<longleftrightarrow> mm_model m \<noteq> None \<and> mm_tokenizer m \<noteq> None"

text \<open>\<^verbatim>\<open>load_model\<close>: the tokenizer first, with its missing pad token replaced, then the model.\<close>

definition load_model :: "tokenizer result \<Rightarrow> nat option \<Rightarrow> 'g engine result \<Rightarrow> 'g manager \<Rightarrow>
    unit result \<times> 'g manager" where
  "load_model loaded_tokenizer eos_token_id loaded_model m =
     (case loaded_tokenizer of
        Inl e \<Rightarrow> (Inl e, m)
      | Inr tok \<Rightarrow>
          (let tok = (if pad_token_id tok = None then tok\<lparr>pad_token_id := eos_token_id\<rparr> else tok);
               m = m\<lparr>mm_tokenizer := Some tok\<rparr>
           in case loaded_model of
                Inl e \<Rightarrow> (Inl e, m)
              | Inr model \<Rightarrow> (Inr (), m\<lparr>mm_model := Some model\<rparr>)))"

type_synonym completion = "string \<times> int \<times> int"

definition seeded :: "'g engine \<Rightarrow> int option \<Rightarrow> 'g \<Rightarrow> 'g" where
  "seeded e seed g = (case seed of Some s \<Rightarrow> manual_seed e s g | None \<Rightarrow> g)"

text \<open>\<^verbatim>\<open>output_ids[i, start:]\<close>, decoded.\<close>

definition row_tokens :: "nat list list \<Rightarrow> nat \<Rightarrow> nat \<Rightarrow> nat list result" where
  "row_tokens output_ids i start =
     (if i < length output_ids then Inr (drop start (output_ids ! i))
      else Inl (OtherException ''IndexError''))"

section \<open>Single requests\<close>

definition inference_generate :: "'g manager \<Rightarrow> string \<Rightarrow> int \<Rightarrow> float \<Rightarrow> int option \<Rightarrow>
    (completion, 'g) action" where
  "inference_generate m prompt max_new_tokens temperature seed g =
     (case (mm_model m, mm_tokenizer m) of
        (Some model, Some tok) \<Rightarrow>
          (let input_ids = tok_encode tok prompt;
               prompt_tokens = length input_ids;
               g = seeded model seed g
           in case eng_generate model [input_ids] None None max_new_tokens temperature
                     (pad_token_id tok) g of
                (Inl e, g) \<Rightarrow> (Inl e, g)
              | (Inr output_ids, g) \<Rightarrow>
                  (case row_tokens output_ids 0 prompt_tokens of
                     Inl e \<Rightarrow> (Inl e, g)
                   | Inr ids \<Rightarrow>
                       (Inr (tok_decode tok ids, int prompt_tokens, int (length ids)), g)))
      | _ \<Rightarrow> (Inl ModelNotLoadedError, g))"

section \<open>Batches\<close>

text \<open>The loop that splits the output; \<open>i\<close> is the row.\<close>

fun split_outputs :: "tokenizer \<Rightarrow> nat list list \<Rightarrow> nat \<Rightarrow> int list option \<Rightarrow> nat \<Rightarrow> int list \<Rightarrow>
    completion list \<Rightarrow> completion list result" where
  "split_outputs tok output_ids start per_request i [] results = Inr results"
| "split_outputs tok output_ids start per_request i (prompt_len # rest) results =
     (case row_tokens output_ids i start of
        Inl e \<Rightarrow> Inl e
      | Inr ids \<Rightarrow>
          (case (case per_request of
                   None \<Rightarrow> Inr ids
                 | Some ms \<Rightarrow>
                     (if ms = [] then Inr ids
                      else if length ms \<le> i then Inl (OtherException ''IndexError'')
                      else if ms ! i < int (length ids) then Inr (py_slice ids 0 (ms ! i))
                      else Inr ids)) of
             Inl e \<Rightarrow> Inl e
           | Inr ids \<Rightarrow>
               split_outputs tok output_ids start per_request (Suc i) rest
                 (results @ [(tok_decode tok ids, prompt_len, int (length ids))])))"

definition generate_batch :: "'g manager \<Rightarrow> nat list list \<Rightarrow> nat list list \<Rightarrow> int list \<Rightarrow> int \<Rightarrow>
    float \<Rightarrow> int list option \<Rightarrow> (completion list, 'g) action" where
  "generate_batch m input_ids attention_mask prompt_lengths max_new_tokens temperature
     per_request_max_tokens g =
     (case (mm_model m, mm_tokenizer m) of
        (Some model, Some tok) \<Rightarrow>
          (let pad = (case pad_token_id tok of None \<Rightarrow> 0 | Some p \<Rightarrow> p);
               max_prompt_len = length (hd input_ids)
           in case eng_generate model input_ids (Some attention_mask) None max_new_tokens
                     temperature (Some pad) g of
                (Inl e, g) \<Rightarrow> (Inl e, g)
              | (Inr output_ids, g) \<Rightarrow>
                  (split_outputs tok output_ids max_prompt_len per_request_max_tokens 0
                     prompt_lengths [], g))
      | _ \<Rightarrow> (Inl ModelNotLoadedError, g))"

record batch_item =
  bi_request_id :: string
  bi_prompt :: string
  bi_max_tokens :: int
  bi_temperature :: float
  bi_seed :: "int option"

definition pad_row :: "nat \<Rightarrow> nat \<Rightarrow> nat list \<Rightarrow> nat list \<times> nat list" where
  "pad_row pad max_prompt_len ids =
     (let pad_len = int max_prompt_len - int (length ids) in
      if 0 < pad_len
      then (replicate (nat pad_len) pad @ ids,
            replicate (nat pad_len) 0 @ replicate (length ids) 1)
      else (ids, replicate (length ids) 1))"

definition prepare_and_generate :: "'g manager \<Rightarrow> batch_item list \<Rightarrow> (completion list, 'g) action" where
  "prepare_and_generate m batch g =
     (case mm_tokenizer m of
        None \<Rightarrow> (Inl (OtherException ''AssertionError''), g)
      | Some tok \<Rightarrow>
          (if batch = [] then (Inl (OtherException ''ValueError''), g)
           else
             let tokenized = map (\<lambda>item. tok_encode tok (bi_prompt item)) batch;
                 prompt_lengths = map length tokenized;
                 max_prompt_len = Max (set prompt_lengths);
                 pad = (case pad_token_id tok of None \<Rightarrow> 0 | Some p \<Rightarrow> p);
                 rows = map (pad_row pad max_prompt_len) tokenized
             in generate_batch m (map fst rows) (map snd rows) (map int prompt_lengths)
                  (Max (bi_max_tokens ` set batch)) (Max (bi_temperature ` set batch))
                  (Some (map bi_max_tokens batch)) g))"

section \<open>Prefix caching\<close>

text \<open>\<open>now\<close> is the clock that \<^verbatim>\<open>put\<close> reads; a \<^verbatim>\<open>put\<close> that does not return is \<open>None\<close>.\<close>

definition generate_with_cache :: "'g manager \<Rightarrow> (string \<Rightarrow> string) \<Rightarrow> string \<Rightarrow> int \<Rightarrow> float \<Rightarrow>
    int option \<Rightarrow> kv_cache option \<Rightarrow> int option \<Rightarrow> float \<Rightarrow> 'g \<Rightarrow>
    (completion result \<times> kv_cache option \<times> 'g) option" where
  "generate_with_cache m sha prompt max_new_tokens temperature seed kv cache_prefix_tokens now g =
     (case (kv, cache_prefix_tokens) of
        (Some c, Some n) \<Rightarrow>
          (case (mm_model m, mm_tokenizer m) of
             (Some model, Some tok) \<Rightarrow>
               (let input_ids = tok_encode tok prompt;
                    prompt_tokens = length input_ids;
                    g = seeded model seed g;
                    prefix_len = min n (int prompt_tokens);
                    prefix_ids = py_slice input_ids 0 prefix_len;
                    suffix_ids = py_slice input_ids prefix_len (int prompt_tokens);
                    finish = (\<lambda>past c.
                      case eng_generate model [suffix_ids] None (Some past) max_new_tokens
                             temperature (pad_token_id tok) g of
                        (Inl e, g) \<Rightarrow> (Inl e, Some c, g)
                      | (Inr output_ids, g) \<Rightarrow>
                          (case row_tokens output_ids 0 (length suffix_ids) of
                             Inl e \<Rightarrow> (Inl e, Some c, g)
                           | Inr ids \<Rightarrow>
                               (Inr (tok_decode tok ids, int prompt_tokens, int (length ids)),
                                Some c, g)))
                in case kv_get sha (map int prefix_ids) c of
                     (Some cached_entry, c) \<Rightarrow> Some (finish (past_key_values cached_entry) c)
                   | (None, c) \<Rightarrow>
                       (case eng_forward model prefix_ids of
                          Inl e \<Rightarrow> Some (Inl e, Some c, g)
                        | Inr prefix_kv \<Rightarrow>
                            (case kv_put sha (map int prefix_ids) prefix_kv now c of
                               None \<Rightarrow> None
                             | Some c \<Rightarrow> Some (finish prefix_kv c))))
           | _ \<Rightarrow> Some (Inl ModelNotLoadedError, kv, g))
      | _ \<Rightarrow>
          (case inference_generate m prompt max_new_tokens temperature seed g of
             (r, g) \<Rightarrow> Some (r, kv, g)))"

section \<open>Padding\<close>

lemma pad_row_parts:
  assumes "length ids \<le> n"
  shows "pad_row pad n ids =
    (replicate (n - length ids) pad @ ids, replicate (n - length ids) 0 @ replicate (length ids) 1)"
  using assms by (auto simp: pad_row_def Let_def nat_diff_distrib)

text \<open>What the attention mask selects.\<close>

definition unmasked :: "nat list \<times> nat list \<Rightarrow> nat list" where
  "unmasked row = map fst (filter (\<lambda>(t, m). m = 1) (zip (fst row) (snd row)))"

lemma filter_zip_replicate [simp]:
  "filter (\<lambda>(t, m). m = Suc 0) (zip xs (replicate (length xs) 0)) = []"
  "filter (\<lambda>(t, m). m = Suc 0) (zip xs (replicate (length xs) (Suc 0))) =
     zip xs (replicate (length xs) (Suc 0))"
  by (induction xs) auto

lemma pad_row_unmasked: "length ids \<le> n \<Longrightarrow> unmasked (pad_row pad n ids) = ids"
  using filter_zip_replicate(1) [of "replicate (n - length ids) pad"]
  by (simp add: pad_row_parts unmasked_def zip_append)

section \<open>The engine\<close>

text \<open>
  What is assumed of \<^verbatim>\<open>model.generate\<close>: every output row is the input row followed by new
  tokens, as many in every row and at most \<^verbatim>\<open>max_new_tokens\<close>.
\<close>

locale lm_engine =
  fixes model :: "'g engine"
  assumes rows_extend: "eng_generate model rows msk past n t pad g = (Inr out, g') \<Longrightarrow>
      length out = length rows \<and> (\<exists>k. int k \<le> max 0 n \<and>
        (\<forall>i<length rows. \<exists>new. out ! i = rows ! i @ new \<and> length new = k))"
begin

text \<open>The rows of a call, one by one.\<close>

lemma rows_of:
  assumes "eng_generate model rows msk past n t pad g = (Inr out, g')" and "0 \<le> n"
  obtains k where "length out = length rows" "int k \<le> n"
    "\<And>i. i < length rows \<Longrightarrow> \<exists>new. out ! i = rows ! i @ new \<and> length new = k"
  using rows_extend [OF assms(1)] assms(2) by auto

end

section \<open>The prefix cache is transparent\<close>

text \<open>The reference: the same request when nothing is cached, its prefix forwarded each time.\<close>

definition uncached_generate :: "'g manager \<Rightarrow> string \<Rightarrow> int \<Rightarrow> float \<Rightarrow> int option \<Rightarrow> int \<Rightarrow>
    (completion, 'g) action" where
  "uncached_generate m prompt max_new_tokens temperature seed n g =
     (case (mm_model m, mm_tokenizer m) of
        (Some model, Some tok) \<Rightarrow>
          (let ids = tok_encode tok prompt;
               prefix_len = min n (int (length ids));
               suffix_ids = py_slice ids prefix_len (int (length ids));
               g = seeded model seed g
           in case eng_forward model (py_slice ids 0 prefix_len) of
                Inl e \<Rightarrow> (Inl e, g)
              | Inr past \<Rightarrow>
                  (case eng_generate model [suffix_ids] None (Some past) max_new_tokens temperature
                         (pad_token_id tok) g of
                     (Inl e, g) \<Rightarrow> (Inl e, g)
                   | (Inr output_ids, g) \<Rightarrow>
                       (case row_tokens output_ids 0 (length suffix_ids) of
                          Inl e \<Rightarrow> (Inl e, g)
                        | Inr new \<Rightarrow> (Inr (tok_decode tok new, int (length ids), int (length new)), g))))
      | _ \<Rightarrow> (Inl ModelNotLoadedError, g))"

text \<open>A cache whose entries hold the states of their prefixes.\<close>

definition kv_consistent :: "(nat list \<Rightarrow> past_kv result) \<Rightarrow> (string \<Rightarrow> string) \<Rightarrow> kv_cache \<Rightarrow> bool" where
  "kv_consistent forward sha c \<longleftrightarrow> kv_inv c \<and> 1 \<le> max_entries c \<and>
     (\<forall>h e ids. (h, e) \<in> set (cache c) \<longrightarrow> h = compute_prefix_hash sha (map int ids) \<longrightarrow>
        forward ids = Inr (past_key_values e))"

lemma kv_consistent_init:
  "0 \<le> budget \<Longrightarrow> 1 \<le> entries \<Longrightarrow> kv_consistent forward sha (kv_init budget entries)"
  using kv_inv_init [of budget entries] by (simp add: kv_consistent_def kv_init_def)

lemma kv_consistent_get:
  assumes "kv_consistent forward sha c" and "kv_get sha ids c = (r, c')"
  shows "kv_consistent forward sha c'"
  using assms kv_get_entries [OF assms(2)] kv_get_config [OF assms(2)] kv_get_inv [of c sha ids]
  unfolding kv_consistent_def by (metis snd_conv)

lemma kv_consistent_put:
  assumes c: "kv_consistent forward sha c" and inj: "inj_on sha (range str_int_list)"
    and put: "kv_put sha (map int ids) kv now c = Some c'" and kv: "forward ids = Inr kv"
  shows "kv_consistent forward sha c'"
proof -
  have inv: "kv_inv c" using c by (simp add: kv_consistent_def)
  have "forward ids' = Inr (past_key_values e)"
    if "(h, e) \<in> set (cache c')" "h = compute_prefix_hash sha (map int ids')" for h e ids'
    using kv_put_entries [OF kv_inv_counted [OF inv] put that(1)] c that(2) kv
      prefix_hash_injective [OF inj] by (auto simp: kv_consistent_def map_inj_on inj_map_eq_map)
  then show ?thesis
    using c kv_put_inv [OF inv put] kv_put_config [OF kv_inv_counted [OF inv] put]
    unfolding kv_consistent_def by auto
qed

text \<open>One request through a consistent cache: the reference's answer, and a consistent cache.\<close>

lemma generate_with_cache_transparent:
  assumes model: "mm_model m = Some model" and inj: "inj_on sha (range str_int_list)"
    and c: "kv_consistent (eng_forward model) sha c"
  shows "\<exists>c'. kv_consistent (eng_forward model) sha c' \<and>
    generate_with_cache m sha prompt max_new t seed (Some c) (Some n) now g =
      (case uncached_generate m prompt max_new t seed n g of (r, g') \<Rightarrow> Some (r, Some c', g'))"
proof (cases "mm_tokenizer m")
  case None
  then show ?thesis using c model by (auto simp: generate_with_cache_def uncached_generate_def)
next
  case (Some tok)
  let ?ids = "tok_encode tok prompt"
  let ?n = "min n (int (length ?ids))"
  let ?pre = "py_slice ?ids 0 ?n"
  obtain r c1 where get: "kv_get sha (map int ?pre) c = (r, c1)" by force
  have c1: "kv_consistent (eng_forward model) sha c1" by (rule kv_consistent_get [OF c get])
  show ?thesis
  proof (cases r)
    case hit: (Some e)
    have "eng_forward model ?pre = Inr (past_key_values e)"
      using kv_get_result [of sha "map int ?pre" c e c1] get hit c by (auto simp: kv_consistent_def)
    then show ?thesis
      using c1 by (intro exI [of _ c1]) (simp add: generate_with_cache_def uncached_generate_def model Some
          get hit Let_def split: prod.split sum.split)
  next
    case miss: None
    show ?thesis
    proof (cases "eng_forward model ?pre")
      case (Inl e)
      then show ?thesis
        using c1 by (intro exI [of _ c1]) (simp add: generate_with_cache_def uncached_generate_def model Some
            get miss Let_def split: prod.split sum.split)
    next
      case (Inr kv)
      obtain c2 where put: "kv_put sha (map int ?pre) kv now c1 = Some c2"
        using kv_put_eq [OF kv_inv_counted] c1 by (auto simp: kv_consistent_def)
      then show ?thesis
        using kv_consistent_put [OF c1 inj put Inr]
        by (intro exI [of _ c2]) (simp add: generate_with_cache_def uncached_generate_def model Some
            get miss Inr Let_def split: prod.split sum.split)
    qed
  qed
qed

text \<open>Requests one after the other, through one cache and without.\<close>

record prefix_request =
  pq_prompt :: string
  pq_max_tokens :: int
  pq_temperature :: float
  pq_seed :: "int option"
  pq_prefix :: int
  pq_now :: float

fun serve_cached :: "'g manager \<Rightarrow> (string \<Rightarrow> string) \<Rightarrow> prefix_request list \<Rightarrow> kv_cache option \<Rightarrow> 'g \<Rightarrow>
    (completion result list \<times> kv_cache option \<times> 'g) option" where
  "serve_cached m sha [] kv g = Some ([], kv, g)"
| "serve_cached m sha (q # qs) kv g =
     (case generate_with_cache m sha (pq_prompt q) (pq_max_tokens q) (pq_temperature q) (pq_seed q) kv
             (Some (pq_prefix q)) (pq_now q) g of
        None \<Rightarrow> None
      | Some (r, kv, g) \<Rightarrow> map_option (apfst (\<lambda>rs. r # rs)) (serve_cached m sha qs kv g))"

fun serve_uncached :: "'g manager \<Rightarrow> prefix_request list \<Rightarrow> 'g \<Rightarrow> completion result list \<times> 'g" where
  "serve_uncached m [] g = ([], g)"
| "serve_uncached m (q # qs) g =
     (let (r, g) = uncached_generate m (pq_prompt q) (pq_max_tokens q) (pq_temperature q) (pq_seed q) (pq_prefix q) g
      in apfst (\<lambda>rs. r # rs) (serve_uncached m qs g))"

lemma serve_cached_transparent:
  assumes model: "mm_model m = Some model" and inj: "inj_on sha (range str_int_list)"
  shows "kv_consistent (eng_forward model) sha c \<Longrightarrow>
    \<exists>c'. serve_cached m sha qs (Some c) g = (case serve_uncached m qs g of (rs, g') \<Rightarrow> Some (rs, Some c', g'))"
proof (induction qs arbitrary: c g)
  case (Cons q qs)
  obtain r g1 where q: "uncached_generate m (pq_prompt q) (pq_max_tokens q) (pq_temperature q) (pq_seed q)
      (pq_prefix q) g = (r, g1)" by force
  obtain c1 where c1: "kv_consistent (eng_forward model) sha c1"
    "generate_with_cache m sha (pq_prompt q) (pq_max_tokens q) (pq_temperature q) (pq_seed q) (Some c)
       (Some (pq_prefix q)) (pq_now q) g = Some (r, Some c1, g1)"
    using generate_with_cache_transparent [OF model inj Cons.prems, of "pq_prompt q" "pq_max_tokens q"
        "pq_temperature q" "pq_seed q" "pq_prefix q" "pq_now q" g] q by auto
  obtain rs g2 where qs: "serve_uncached m qs g1 = (rs, g2)" by force
  from Cons.IH [OF c1(1), of g1] show ?case by (auto simp: q qs c1(2))
qed simp

section \<open>Splitting a batch\<close>

definition item_result :: "tokenizer \<Rightarrow> nat \<Rightarrow> int \<Rightarrow> nat list \<Rightarrow> int \<Rightarrow> completion" where
  "item_result tok start m row prompt_len =
     (let ids = take (nat m) (drop start row) in (tok_decode tok ids, prompt_len, int (length ids)))"

lemma split_outputs_eq:
  assumes "length out = i + length pls" and "length ms = i + length pls" and "\<forall>m\<in>set ms. 0 \<le> m"
  shows "split_outputs tok out start (Some ms) i pls res =
    Inr (res @ map (\<lambda>j. item_result tok start (ms ! j) (out ! j) (pls ! (j - i))) [i..<i + length pls])"
  using assms
proof (induction pls arbitrary: i res)
  case (Cons pl pls)
  let ?ids = "drop start (out ! i)"
  have i: "i < length out" "i < length ms" "ms \<noteq> []" "0 \<le> ms ! i" using Cons.prems by auto
  have cut: "(if ms ! i < int (length ?ids) then py_slice ?ids 0 (ms ! i) else ?ids) = take (nat (ms ! i)) ?ids"
    using i(4) by auto
  have upt: "[i..<i + length (pl # pls)] = i # [Suc i..<Suc i + length pls]"
    by (subst upt_conv_Cons) (simp_all del: upt_Suc)
  have "split_outputs tok out start (Some ms) i (pl # pls) res =
      split_outputs tok out start (Some ms) (Suc i) pls (res @ [item_result tok start (ms ! i) (out ! i) pl])"
    using i cut by (auto simp: row_tokens_def item_result_def Let_def)
  also have "\<dots> = Inr ((res @ [item_result tok start (ms ! i) (out ! i) pl]) @
      map (\<lambda>j. item_result tok start (ms ! j) (out ! j) (pls ! (j - Suc i))) [Suc i..<Suc i + length pls])"
    using Cons.prems by (intro Cons.IH) auto
  also have "map (\<lambda>j. item_result tok start (ms ! j) (out ! j) (pls ! (j - Suc i))) [Suc i..<Suc i + length pls] =
      map (\<lambda>j. item_result tok start (ms ! j) (out ! j) ((pl # pls) ! (j - i))) [Suc i..<Suc i + length pls]"
    by (rule map_cong [OF refl]) (simp add: Suc_diff_Suc [symmetric] Suc_le_eq del: upt_Suc)
  finally show ?case by (simp only: upt list.map append_assoc append_Cons append_Nil diff_self_eq_0 nth_Cons_0)
qed simp

lemma batch_results:
  assumes model: "lm_engine model" and m: "mm_model m = Some model" "mm_tokenizer m = Some tok"
    and batch: "batch \<noteq> []" "\<forall>item\<in>set batch. 0 \<le> bi_max_tokens item"
  defines "L \<equiv> Max ((\<lambda>item. length (tok_encode tok (bi_prompt item))) ` set batch)"
    and "pad \<equiv> (case pad_token_id tok of None \<Rightarrow> 0 | Some p \<Rightarrow> p)"
    and "limit \<equiv> Max (bi_max_tokens ` set batch)"
  defines "rows \<equiv> map (\<lambda>item. pad_row pad L (tok_encode tok (bi_prompt item))) batch"
  assumes run: "prepare_and_generate m batch g = (r, g')"
  shows "\<exists>out. eng_generate model (map fst rows) (Some (map snd rows)) None limit
      (Max (bi_temperature ` set batch)) (Some pad) g = (out, g') \<and>
    (case out of
       Inl e \<Rightarrow> r = Inl e
     | Inr ids \<Rightarrow> \<exists>results k. r = Inr results \<and> length results = length batch \<and> int k \<le> limit \<and>
         (\<forall>i<length batch. \<exists>new. ids ! i = fst (rows ! i) @ new \<and> length new = k \<and>
            results ! i = (tok_decode tok (take (nat (bi_max_tokens (batch ! i))) new),
              int (length (tok_encode tok (bi_prompt (batch ! i)))), min (bi_max_tokens (batch ! i)) (int k))))"
proof -
  let ?enc = "\<lambda>item. tok_encode tok (bi_prompt item)"
  let ?lens = "map length (map ?enc batch)"
  have L: "Max (set ?lens) = L" by (simp add: L_def image_image)
  have rows_eq: "map (pad_row pad L) (map ?enc batch) = rows" by (simp add: rows_def)
  have "length (?enc item) \<le> L" if "item \<in> set batch" for item
    unfolding L_def using that by (intro Max_ge) auto
  then have rows: "length (fst (rows ! i)) = L" if "i < length batch" for i
    using that by (simp add: rows_def pad_row_parts)
  have hd: "length (hd (map fst rows)) = L"
    using rows [of 0] batch(1) by (simp add: hd_conv_nth rows_def)
  obtain out g'' where gen: "eng_generate model (map fst rows) (Some (map snd rows)) None limit
      (Max (bi_temperature ` set batch)) (Some pad) g = (out, g'')" by force
  have step: "prepare_and_generate m batch g = (case out of Inl e \<Rightarrow> (Inl e, g'')
      | Inr ids \<Rightarrow> (split_outputs tok ids L (Some (map bi_max_tokens batch)) 0 (map int ?lens) [], g''))"
    using batch(1)
    unfolding prepare_and_generate_def generate_batch_def m option.case prod.case Let_def L pad_def [symmetric]
      limit_def [symmetric] rows_eq hd gen by simp
  show ?thesis
  proof (cases out)
    case (Inl e)
    then show ?thesis using gen step run by (intro exI [of _ out]) simp
  next
    case (Inr ids)
    have "0 \<le> limit"
      using batch unfolding limit_def
      by (metis (no_types, lifting) List.finite_set Max_ge dual_order.trans finite_imageI
          imageI list.set_intros(1) neq_Nil_conv)
    then obtain k where k: "length ids = length batch" "int k \<le> limit"
      "\<And>i. i < length batch \<Longrightarrow> \<exists>new. ids ! i = fst (rows ! i) @ new \<and> length new = k"
      using lm_engine.rows_of [OF model gen [unfolded Inr]] by (auto simp: rows_def)
    let ?res = "map (\<lambda>j. item_result tok L (map bi_max_tokens batch ! j) (ids ! j)
        (map int ?lens ! (j - 0))) [0..<0 + length (map int ?lens)]"
    have res: "r = Inr ?res" "g' = g''"
      using step run Inr split_outputs_eq [of ids 0 "map int ?lens" "map bi_max_tokens batch" tok L "[]"]
        k(1) batch(2) by simp_all
    have "\<exists>new. ids ! i = fst (rows ! i) @ new \<and> length new = k \<and>
        ?res ! i = (tok_decode tok (take (nat (bi_max_tokens (batch ! i))) new),
         int (length (?enc (batch ! i))), min (bi_max_tokens (batch ! i)) (int k))"
      if i: "i < length batch" for i
    proof -
      obtain new where new: "ids ! i = fst (rows ! i) @ new" "length new = k" using k(3) [OF i] by blast
      have dr: "drop L (ids ! i) = new" using rows [OF i] by (simp add: new(1))
      have "?res ! i = item_result tok L (bi_max_tokens (batch ! i)) (ids ! i) (int (length (?enc (batch ! i))))"
        using i by simp
      also have "\<dots> = (tok_decode tok (take (nat (bi_max_tokens (batch ! i))) new),
         int (length (?enc (batch ! i))), min (bi_max_tokens (batch ! i)) (int k))"
        using batch(2) [rule_format, OF nth_mem [OF i]] new(2)
        by (auto simp: item_result_def Let_def dr min_def)
      finally show ?thesis using new by blast
    qed
    then show ?thesis
      using gen Inr res k(2) by (intro exI [of _ out]) (simp, intro exI [of _ ?res] exI [of _ k], simp)
  qed
qed

section \<open>A deterministic engine\<close>

text \<open>Every row is continued by as many tokens as allowed, each a function of the one before.\<close>

fun chain :: "(nat \<Rightarrow> nat) \<Rightarrow> nat \<Rightarrow> nat \<Rightarrow> nat list" where
  "chain f t 0 = []"
| "chain f t (Suc n) = f t # chain f (f t) n"

definition chain_engine :: "(nat \<Rightarrow> nat) \<Rightarrow> (nat list \<Rightarrow> past_kv result) \<Rightarrow> 'g engine" where
  "chain_engine f fwd =
     \<lparr>eng_generate = (\<lambda>rows msk past n t pad.
        ret (map (\<lambda>row. row @ chain f (if row = [] then 0 else last row) (nat n)) rows)),
      eng_forward = fwd, manual_seed = (\<lambda>s g. g)\<rparr>"

lemma length_chain [simp]: "length (chain f t n) = n"
  by (induction n arbitrary: t) auto

interpretation chain_engine: lm_engine "chain_engine f fwd"
  by unfold_locales (auto simp: chain_engine_def ret_def intro!: exI [of _ "nat n" for n])

definition letters :: tokenizer where
  "letters = \<lparr>tok_encode = map of_char, tok_decode = map char_of, pad_token_id = Some 0\<rparr>"

abbreviation "demo_manager \<equiv> \<lparr>mm_model = Some (chain_engine Suc (\<lambda>_. Inr [])), mm_tokenizer = Some letters\<rparr>"

section \<open>Properties\<close>


text \<open>Three requests through a cache of one entry: a miss, a hit, and a miss that evicts.\<close>

abbreviation "demo_request p \<equiv> \<lparr>pq_prompt = p, pq_max_tokens = 3, pq_temperature = 1, pq_seed = None,
  pq_prefix = 2, pq_now = 0\<rparr>"


text \<open>Left padding loses nothing: every row gets the batch's common length, the attention
  mask has it too, the masked-out positions come first, and what the mask selects is the
  prompt.\<close>

theorem left_padding_roundtrip:
  assumes "length ids \<le> max_prompt_len"
  shows "length (fst (pad_row pad max_prompt_len ids)) = max_prompt_len \<and>
    length (snd (pad_row pad max_prompt_len ids)) = max_prompt_len \<and>
    sorted (snd (pad_row pad max_prompt_len ids)) \<and>
    unmasked (pad_row pad max_prompt_len ids) = ids"
  using assms by (simp add: pad_row_unmasked) (simp add: pad_row_parts sorted_append)

lemma left_padding_roundtrip_witness:
  "unmasked (pad_row 9 5 [9, 1, 9]) = [9, 1, 9] \<and> sorted (snd (pad_row 9 5 [9, 1, 9]))"
  using left_padding_roundtrip [of "[9, 1, 9]" 5 9] by simp

text \<open>C27: A batch returns one result per request, in the order of the requests, or the error of
  the model call, which gets the left-padded prompts, the largest limit and the highest temperature
  of the batch.  The prompt count is that of the request's own prompt; the text is the
  continuation in the request's own output row, cut to its own limit; the completion count is the
  smaller of that limit and the length \<open>k\<close> to which the whole batch was generated: the padding that
  follows a row's end of sequence is counted.  The limits are not negative, and every output row of
  the model extends its input row, all by the same number of tokens.\<close>

theorem batch_results_are_per_request:
  assumes "lm_engine model" and "mm_model m = Some model" and "mm_tokenizer m = Some tok"
    and "batch \<noteq> []" and "\<forall>item\<in>set batch. 0 \<le> bi_max_tokens item"
    and "L = Max ((\<lambda>item. length (tok_encode tok (bi_prompt item))) ` set batch)"
    and "pad = (case pad_token_id tok of None \<Rightarrow> 0 | Some p \<Rightarrow> p)"
    and "rows = map (\<lambda>item. pad_row pad L (tok_encode tok (bi_prompt item))) batch"
    and "prepare_and_generate m batch g = (r, g')"
  shows "\<exists>out. eng_generate model (map fst rows) (Some (map snd rows)) None (Max (bi_max_tokens ` set batch))
      (Max (bi_temperature ` set batch)) (Some pad) g = (out, g') \<and>
    (case out of
       Inl e \<Rightarrow> r = Inl e
     | Inr ids \<Rightarrow> \<exists>results k. r = Inr results \<and> length results = length batch \<and>
         int k \<le> Max (bi_max_tokens ` set batch) \<and>
         (\<forall>i<length batch. \<exists>new. ids ! i = fst (rows ! i) @ new \<and> length new = k \<and>
            results ! i = (tok_decode tok (take (nat (bi_max_tokens (batch ! i))) new),
              int (length (tok_encode tok (bi_prompt (batch ! i)))), min (bi_max_tokens (batch ! i)) (int k))))"
  using batch_results [OF assms(1-5,9)] unfolding assms(6-8) .

abbreviation "demo_batch \<equiv>
  [\<lparr>bi_request_id = ''a'', bi_prompt = ''hi'', bi_max_tokens = 2, bi_temperature = 1, bi_seed = None\<rparr>,
   \<lparr>bi_request_id = ''b'', bi_prompt = ''hello'', bi_max_tokens = 4, bi_temperature = 1, bi_seed = None\<rparr>]"

lemma batch_results_are_per_request_witness:
  "\<exists>results new. fst (prepare_and_generate demo_manager demo_batch ()) = Inr results \<and>
     length results = 2 \<and> results ! 1 = (map char_of (take 4 (new :: nat list)), 5, min 4 (int (length new)))"
proof -
  obtain r and g' :: unit where run: "prepare_and_generate demo_manager demo_batch () = (r, g')"
    by (cases "prepare_and_generate demo_manager demo_batch ()")
  have "lm_engine (chain_engine Suc (\<lambda>_. Inr []) :: unit engine)" by (rule chain_engine.lm_engine_axioms)
  from batch_results_are_per_request [OF this, of demo_manager letters demo_batch _ _ _ "()" r g', OF _ _ _ _ refl refl refl run]
  obtain ids results k where "r = Inr results" "length results = length demo_batch" and
    row: "\<forall>i<length demo_batch. \<exists>new. ids ! i = fst (map (\<lambda>item. pad_row (case pad_token_id letters of None \<Rightarrow> 0 | Some p \<Rightarrow> p)
          (Max ((\<lambda>item. length (tok_encode letters (bi_prompt item))) ` set demo_batch))
          (tok_encode letters (bi_prompt item))) demo_batch ! i) @ new \<and> length new = k \<and>
        results ! i = (tok_decode letters (take (nat (bi_max_tokens (demo_batch ! i))) new),
          int (length (tok_encode letters (bi_prompt (demo_batch ! i)))),
          min (bi_max_tokens (demo_batch ! i)) (int k))"
    by (auto simp del: length_map nth_map simp: chain_engine_def ret_def)
  then show ?thesis
    using row [rule_format, of 1] unfolding run by (auto simp: letters_def)
qed

end
