(* ===== verification/Batch_Scheduler.thy ===== *)
theory Batch_Scheduler
  imports Futures Inference
begin

text \<open>
  \<^verbatim>\<open>core/batcher.py\<close>: the scheduler's queue and its collector loop.  The collector is a state;
  its steps are the loop's: take the first item, take more while the batch is not full, close
  the batch (full, or the wait timed out) after draining what is queued, and settle the
  futures with the outcome of the forward pass, which \<open>prepare_and_generate\<close> models.
\<close>

type_synonym queued = "batch_item \<times> nat"

datatype phase = Waiting | Collecting "queued list" | Forwarding "queued list" | Ended

record scheduler =
  max_batch_size :: int
  bs_queue :: "queued list"
  bs_phase :: phase
  bs_futures :: "completion futures"
  bs_running :: bool

definition scheduler_init :: "int \<Rightarrow> scheduler" where
  "scheduler_init n =
     \<lparr>max_batch_size = n, bs_queue = [], bs_phase = Ended, bs_futures = [], bs_running = False\<rparr>"

definition scheduler_start :: "scheduler \<Rightarrow> scheduler" where
  "scheduler_start s = s\<lparr>bs_running := True, bs_phase := Waiting\<rparr>"

definition scheduler_stop :: "scheduler \<Rightarrow> scheduler" where
  "scheduler_stop s = s\<lparr>bs_running := False, bs_phase := Ended\<rparr>"

definition submit :: "batch_item \<Rightarrow> scheduler \<Rightarrow> nat \<times> scheduler" where
  "submit item s =
     (let (future, fs) = create_future (bs_futures s)
      in (future, s\<lparr>bs_futures := fs, bs_queue := bs_queue s @ [(item, future)]\<rparr>))"

section \<open>The collector\<close>

definition collect_first :: "scheduler \<Rightarrow> scheduler option" where
  "collect_first s =
     (case (bs_running s, bs_phase s, bs_queue s) of
        (True, Waiting, first_item # q) \<Rightarrow> Some (s\<lparr>bs_phase := Collecting [first_item], bs_queue := q\<rparr>)
      | _ \<Rightarrow> None)"

text \<open>One turn of \<^verbatim>\<open>_wait_for_batch\<close>.\<close>

definition collect_more :: "scheduler \<Rightarrow> scheduler option" where
  "collect_more s =
     (case (bs_phase s, bs_queue s) of
        (Collecting batch, item # q) \<Rightarrow>
          (if int (length batch) < max_batch_size s
           then Some (s\<lparr>bs_phase := Collecting (batch @ [item]), bs_queue := q\<rparr>) else None)
      | _ \<Rightarrow> None)"

fun drain :: "int \<Rightarrow> queued list \<Rightarrow> queued list \<Rightarrow> queued list \<times> queued list" where
  "drain n batch [] = (batch, [])"
| "drain n batch (item # q) =
     (if int (length batch) < n then drain n (batch @ [item]) q else (batch, item # q))"

text \<open>The wait is over: \<^verbatim>\<open>_wait_for_batch\<close> returned, or \<^verbatim>\<open>wait_for\<close> timed out.\<close>

definition close_batch :: "scheduler \<Rightarrow> scheduler option" where
  "close_batch s =
     (case bs_phase s of
        Collecting batch \<Rightarrow>
          (let (batch, q) = drain (max_batch_size s) batch (bs_queue s)
           in Some (s\<lparr>bs_phase := Forwarding batch, bs_queue := q\<rparr>))
      | _ \<Rightarrow> None)"

text \<open>\<^verbatim>\<open>zip(batch, results, strict=True)\<close>: the flag tells whether the lengths agreed.\<close>

fun resolve_all :: "queued list \<Rightarrow> completion list \<Rightarrow> completion futures \<Rightarrow> completion futures \<times> bool" where
  "resolve_all [] [] fs = (fs, True)"
| "resolve_all ((_, future) # batch) (r # results) fs =
     resolve_all batch results (settle future (Resolved r) fs)"
| "resolve_all _ _ fs = (fs, False)"

definition fail_all :: "exn \<Rightarrow> queued list \<Rightarrow> completion futures \<Rightarrow> completion futures" where
  "fail_all e batch fs = fold (\<lambda>i. settle i (Failed e)) (map snd batch) fs"

definition process_batch :: "completion list result \<Rightarrow> scheduler \<Rightarrow> scheduler option" where
  "process_batch res s =
     (case bs_phase s of
        Forwarding batch \<Rightarrow>
          (case res of
             Inr results \<Rightarrow>
               (let (fs, same_length) = resolve_all batch results (bs_futures s);
                    fs = (if same_length then fs else fail_all (OtherException ''ValueError'') batch fs)
                in Some (s\<lparr>bs_phase := Waiting, bs_futures := fs\<rparr>))
           | Inl e \<Rightarrow>
               (if is_Exception e
                then Some (s\<lparr>bs_phase := Waiting, bs_futures := fail_all e batch (bs_futures s)\<rparr>)
                else Some (s\<lparr>bs_phase := Ended\<rparr>)))
      | _ \<Rightarrow> None)"

section \<open>Runs\<close>

datatype sched_event = Submit batch_item | First | More | Close | Process "completion list result" | Abandon nat

fun sched_step :: "sched_event \<Rightarrow> scheduler \<Rightarrow> scheduler option" where
  "sched_step (Submit item) s = Some (snd (submit item s))"
| "sched_step First s = collect_first s"
| "sched_step More s = collect_more s"
| "sched_step Close s = close_batch s"
| "sched_step (Process res) s = process_batch res s"
| "sched_step (Abandon i) s = Some (s\<lparr>bs_futures := settle i Cancelled (bs_futures s)\<rparr>)"

text \<open>The batch that a step hands to the model, and the item that it queues.\<close>

definition forwarded :: "sched_event \<Rightarrow> scheduler \<Rightarrow> queued list list" where
  "forwarded e s = (case (e, bs_phase s) of (Process res, Forwarding batch) \<Rightarrow> [batch] | _ \<Rightarrow> [])"

definition queued_by :: "sched_event \<Rightarrow> scheduler \<Rightarrow> queued list" where
  "queued_by e s = (case e of Submit item \<Rightarrow> [(item, length (bs_futures s))] | _ \<Rightarrow> [])"

inductive sched_reachable :: "int \<Rightarrow> queued list \<Rightarrow> queued list list \<Rightarrow> scheduler \<Rightarrow> bool" for n where
  init: "sched_reachable n [] [] (scheduler_start (scheduler_init n))"
| step: "sched_reachable n subs batches s \<Longrightarrow> sched_step e s = Some s' \<Longrightarrow>
     (\<And>x. e = Process (Inl x) \<Longrightarrow> is_Exception x) \<Longrightarrow>
     sched_reachable n (subs @ queued_by e s) (batches @ forwarded e s) s'"

definition in_hand :: "scheduler \<Rightarrow> queued list" where
  "in_hand s = (case bs_phase s of Collecting b \<Rightarrow> b | Forwarding b \<Rightarrow> b | _ \<Rightarrow> [])"

definition fits_batch :: "int \<Rightarrow> queued list \<Rightarrow> bool" where
  "fits_batch n b \<longleftrightarrow> b \<noteq> [] \<and> int (length b) \<le> max 1 n"

definition settled :: "completion futures \<Rightarrow> queued list \<Rightarrow> bool" where
  "settled fs b \<longleftrightarrow> (\<forall>i\<in>set (map snd b). future_done fs i)"

lemma settled_evolves: "evolves fs fs' \<Longrightarrow> settled fs b \<Longrightarrow> settled fs' b"
  using evolves_done unfolding settled_def by blast

definition sched_inv :: "int \<Rightarrow> queued list \<Rightarrow> queued list list \<Rightarrow> scheduler \<Rightarrow> bool" where
  "sched_inv n subs batches s \<longleftrightarrow>
     max_batch_size s = n \<and> subs = concat batches @ in_hand s @ bs_queue s \<and>
     map snd (concat batches @ in_hand s @ bs_queue s) = [0..<length (bs_futures s)] \<and>
     (\<forall>b\<in>set batches. fits_batch n b) \<and> (in_hand s \<noteq> [] \<longrightarrow> fits_batch n (in_hand s)) \<and>
     (\<forall>b\<in>set batches. settled (bs_futures s) b) \<and>
     (\<forall>b. bs_phase s = Collecting b \<or> bs_phase s = Forwarding b \<longrightarrow> b \<noteq> [])"

lemma drain_eq: "drain n batch q =
    (batch @ take (nat n - length batch) q, drop (nat n - length batch) q)"
  by (induction n batch q rule: drain.induct)
    (auto simp: take_Cons' drop_Cons' zless_nat_eq_int_zless [symmetric])

lemma resolve_all_length: "length (fst (resolve_all batch results fs)) = length fs"
  by (induction batch results fs rule: resolve_all.induct) auto

lemma resolve_all_evolves: "evolves fs (fst (resolve_all batch results fs))"
  by (induction batch results fs rule: resolve_all.induct) (auto intro: evolves_trans [OF evolves_settle])

lemma resolve_all_flag: "snd (resolve_all batch results fs) \<longleftrightarrow> length batch = length results"
  by (induction batch results fs rule: resolve_all.induct) auto

lemma resolve_all_done:
  "length batch = length results \<Longrightarrow> \<forall>i\<in>set (map snd batch). i < length fs \<Longrightarrow>
   i \<in> set (map snd batch) \<Longrightarrow> future_done (fst (resolve_all batch results fs)) i"
proof (induction batch results fs rule: resolve_all.induct)
  case (2 item f batch r results fs)
  show ?case
  proof (cases "i = f")
    case True
    have "future_done (settle f (Resolved r) fs) f" using "2.prems" by (simp add: settle_settles)
    then show ?thesis using True evolves_done [OF resolve_all_evolves] by simp
  next
    case False
    then show ?thesis using 2 by simp
  qed
qed simp_all

lemma resolve_all_nth:
  "length batch = length results \<Longrightarrow> distinct (map snd batch) \<Longrightarrow>
   \<forall>i\<in>set (map snd batch). i < length fs \<Longrightarrow> k < length batch \<Longrightarrow> fs ! snd (batch ! k) = Pending \<Longrightarrow>
   fst (resolve_all batch results fs) ! snd (batch ! k) = Resolved (results ! k)"
proof (induction batch results fs arbitrary: k rule: resolve_all.induct)
  case (2 item f batch r results fs)
  show ?case
  proof (cases k)
    case 0
    have "settle f (Resolved r) fs ! f = Resolved r" using "2.prems" 0 by (simp add: settle_nth)
    moreover have "future_done (settle f (Resolved r) fs) f" using "2.prems" by (simp add: settle_settles)
    ultimately show ?thesis using 0 evolves_done [OF resolve_all_evolves] by fastforce
  next
    case (Suc k')
    have "snd (batch ! k') \<in> set (map snd batch)" using "2.prems"(4) Suc by simp
    then have "snd (batch ! k') \<noteq> f" "snd (batch ! k') < length fs" using "2.prems" by auto
    then show ?thesis using 2 Suc by (simp add: settle_nth)
  qed
qed simp_all

lemma fail_all_done:
  "i \<in> set (map snd batch) \<Longrightarrow> i < length fs \<Longrightarrow> future_done (fail_all e batch fs) i"
  unfolding fail_all_def by (rule fold_settle_done) simp_all

lemma fail_all_evolves: "evolves fs (fail_all e batch fs)" "length (fail_all e batch fs) = length fs"
  by (simp_all add: fail_all_def evolves_fold_settle)

text \<open>After a batch every one of its futures is done, whatever the model call returned.\<close>

lemma process_batch_done:
  assumes "bs_phase s = Forwarding batch" and "process_batch res s = Some s'"
    and "\<And>x. res = Inl x \<Longrightarrow> is_Exception x" and "\<forall>i\<in>set (map snd batch). i < length (bs_futures s)"
  shows "evolves (bs_futures s) (bs_futures s')" "length (bs_futures s') = length (bs_futures s)"
    "\<forall>i\<in>set (map snd batch). future_done (bs_futures s') i"
    "bs_phase s' = Waiting" "bs_queue s' = bs_queue s" "max_batch_size s' = max_batch_size s"
proof -
  have "bs_phase s' = Waiting \<and> bs_queue s' = bs_queue s \<and> max_batch_size s' = max_batch_size s \<and>
    evolves (bs_futures s) (bs_futures s') \<and> length (bs_futures s') = length (bs_futures s) \<and>
    (\<forall>i\<in>set (map snd batch). future_done (bs_futures s') i)"
  proof (cases res)
    case (Inl e)
    then have "s' = s\<lparr>bs_phase := Waiting, bs_futures := fail_all e batch (bs_futures s)\<rparr>"
      using assms(1-3) by (simp add: process_batch_def)
    then show ?thesis using fail_all_evolves fail_all_done assms(4) by simp
  next
    case (Inr results)
    let ?r = "resolve_all batch results (bs_futures s)"
    let ?fs = "if length batch = length results then fst ?r
      else fail_all (OtherException ''ValueError'') batch (fst ?r)"
    have s': "s' = s\<lparr>bs_phase := Waiting, bs_futures := ?fs\<rparr>"
      using assms(1,2) Inr resolve_all_flag [of batch results "bs_futures s"]
      by (simp add: process_batch_def case_prod_unfold Let_def)
    have "evolves (bs_futures s) ?fs"
      using evolves_trans [OF resolve_all_evolves fail_all_evolves(1)] resolve_all_evolves by simp
    moreover have "future_done ?fs i" if "i \<in> set (map snd batch)" for i
    proof -
      have "i < length (bs_futures s)" using assms(4) that by blast
      then show ?thesis
        using resolve_all_done [OF _ assms(4) that] fail_all_done [OF that]
        by (simp add: resolve_all_length)
    qed
    ultimately show ?thesis by (simp add: s' resolve_all_length fail_all_evolves(2))
  qed
  then show "evolves (bs_futures s) (bs_futures s')" "length (bs_futures s') = length (bs_futures s)"
    "\<forall>i\<in>set (map snd batch). future_done (bs_futures s') i"
    "bs_phase s' = Waiting" "bs_queue s' = bs_queue s" "max_batch_size s' = max_batch_size s" by blast+
qed

lemma sched_inv_future: "sched_inv n subs batches s \<Longrightarrow> x \<in> set subs \<Longrightarrow> snd x < length (bs_futures s)"
  unfolding sched_inv_def by (metis (no_types, lifting) atLeastLessThan_iff image_eqI list.set_map set_upt)

lemma sched_inv_keep:
  assumes "sched_inv n subs batches s" and "evolves (bs_futures s) fs" and "length fs = length (bs_futures s)"
  shows "sched_inv n subs batches (s\<lparr>bs_futures := fs\<rparr>)"
  using assms settled_evolves [OF assms(2)] unfolding sched_inv_def by (simp add: in_hand_def)

lemma sched_step_inv:
  assumes inv: "sched_inv n subs batches s" and step: "sched_step e s = Some s'"
    and ok: "\<And>x. e = Process (Inl x) \<Longrightarrow> is_Exception x"
  shows "sched_inv n (subs @ queued_by e s) (batches @ forwarded e s) s'"
proof (cases e)
  case (Submit item)
  have "evolves (bs_futures s) (bs_futures s @ [Pending])"
    using evolves_create [of "bs_futures s"] by (simp add: create_future_def)
  then have "\<forall>b\<in>set batches. settled (bs_futures s @ [Pending]) b"
    using inv settled_evolves unfolding sched_inv_def by blast
  moreover have "s' = s\<lparr>bs_futures := bs_futures s @ [Pending], bs_queue := bs_queue s @ [(item, length (bs_futures s))]\<rparr>"
    using step Submit by (simp add: submit_def create_future_def)
  ultimately show ?thesis
    using inv Submit by (simp add: sched_inv_def queued_by_def forwarded_def in_hand_def)
next
  case First
  then show ?thesis
    using inv step
    by (auto simp: collect_first_def sched_inv_def queued_by_def forwarded_def in_hand_def fits_batch_def
        split: bool.splits phase.splits list.splits)
next
  case More
  then show ?thesis
    using inv step
    by (auto simp: collect_more_def sched_inv_def queued_by_def forwarded_def in_hand_def fits_batch_def
        split: phase.splits list.splits if_splits)
next
  case Close
  then obtain b where b: "bs_phase s = Collecting b" using step by (auto simp: close_batch_def split: phase.splits)
  let ?k = "nat n - length b"
  have n: "max_batch_size s = n" and "b \<noteq> []" "fits_batch n b"
    using inv b by (auto simp: sched_inv_def in_hand_def)
  then have "fits_batch n (b @ take ?k (bs_queue s))" by (auto simp: fits_batch_def)
  moreover have "s' = s\<lparr>bs_phase := Forwarding (b @ take ?k (bs_queue s)), bs_queue := drop ?k (bs_queue s)\<rparr>"
    using step Close b n by (simp add: close_batch_def drain_eq)
  ultimately show ?thesis
    using inv b Close \<open>b \<noteq> []\<close> by (simp add: sched_inv_def queued_by_def forwarded_def in_hand_def)
next
  case (Process res)
  then obtain b where b: "bs_phase s = Forwarding b"
    using step by (auto simp: process_batch_def split: phase.splits)
  have hand: "in_hand s = b" by (simp add: in_hand_def b)
  have "\<forall>i\<in>set (map snd b). i < length (bs_futures s)"
    using sched_inv_future [OF inv] inv hand by (auto simp: sched_inv_def)
  note post = process_batch_done [OF b _ _ this, of res s']
  have p: "process_batch res s = Some s'" "\<And>x. res = Inl x \<Longrightarrow> is_Exception x" using step ok Process by auto
  note post = post [OF p]
  have "settled (bs_futures s') b" using post(3) by (simp add: settled_def)
  then show ?thesis
    using inv post hand settled_evolves [OF post(1)] b Process
    by (auto simp: sched_inv_def queued_by_def forwarded_def in_hand_def)
next
  case (Abandon i)
  then show ?thesis
    using sched_inv_keep [OF inv evolves_settle, of i Cancelled] step
    by (auto simp: queued_by_def forwarded_def)
qed

lemma sched_reachable_inv: "sched_reachable n subs batches s \<Longrightarrow> sched_inv n subs batches s"
proof (induction rule: sched_reachable.induct)
  case init
  show ?case by (simp add: sched_inv_def scheduler_start_def scheduler_init_def in_hand_def)
qed (rule sched_step_inv)

section \<open>Properties\<close>

text \<open>C18: The scheduler neither loses nor reorders requests: at every point the batches handed to the
  model so far, the batch being collected and the queue are together the submissions in order;
  no batch is empty or larger than \<^verbatim>\<open>max_batch_size\<close> (one item for limits below 1); and every
  request of a batch that went through the model has its future settled, whether the call
  returned, returned too few results, or raised.\<close>

theorem batches_are_submissions_in_order:
  assumes "sched_reachable n subs batches s"
  shows "subs = concat batches @ in_hand s @ bs_queue s \<and>
    (\<forall>b\<in>set batches. b \<noteq> [] \<and> int (length b) \<le> max 1 n) \<and>
    (\<forall>b\<in>set batches. \<forall>x\<in>set b. future_done (bs_futures s) (snd x))"
  using sched_reachable_inv [OF assms] by (simp add: sched_inv_def fits_batch_def settled_def)

definition cancels :: "sched_event \<Rightarrow> bool" where
  "cancels e \<longleftrightarrow> (case e of Process (Inl x) \<Rightarrow> \<not> is_Exception x | _ \<Rightarrow> False)"

lemma cancels_Process: "\<not> cancels e \<Longrightarrow> e = Process (Inl x) \<Longrightarrow> is_Exception x"
  by (simp add: cancels_def)

fun sched_run :: "sched_event list \<Rightarrow> queued list \<times> queued list list \<times> scheduler \<Rightarrow>
    (queued list \<times> queued list list \<times> scheduler) option" where
  "sched_run [] x = Some x"
| "sched_run (e # es) (subs, batches, s) =
     (case (cancels e, sched_step e s) of
        (False, Some s') \<Rightarrow> sched_run es (subs @ queued_by e s, batches @ forwarded e s, s')
      | _ \<Rightarrow> None)"

lemma sched_run_reachable:
  "sched_reachable n subs batches s \<Longrightarrow> sched_run es (subs, batches, s) = Some (subs', batches', s') \<Longrightarrow>
   sched_reachable n subs' batches' s'"
proof (induction es arbitrary: subs batches s)
  case (Cons e es)
  then obtain s1 where "\<not> cancels e" "sched_step e s = Some s1"
    "sched_run es (subs @ queued_by e s, batches @ forwarded e s, s1) = Some (subs', batches', s')"
    by (auto split: bool.splits option.splits)
  then show ?case
    using Cons.IH [OF sched_reachable.step [OF Cons.prems(1)]] cancels_Process by blast
qed simp

text \<open>Two requests, one batch, a failing model call.\<close>

abbreviation "demo_run \<equiv> sched_run [Submit (demo_batch ! 0), Submit (demo_batch ! 1), First, Close,
  Process (Inl (RuntimeError ''out of memory''))] ([], [], scheduler_start (scheduler_init 8))"

lemma batches_are_submissions_in_order_witness:
  "\<exists>subs batches s. demo_run = Some (subs, batches, s) \<and> length subs = 2 \<and>
    subs = concat batches @ in_hand s @ bs_queue s \<and>
    (\<forall>b\<in>set batches. \<forall>x\<in>set b. future_done (bs_futures s) (snd x))"
proof -
  obtain subs batches s where run: "demo_run = Some (subs, batches, s)" and len: "length subs = 2"
    by (simp add: cancels_def is_Exception_def submit_def create_future_def collect_first_def
        close_batch_def process_batch_def scheduler_start_def scheduler_init_def queued_by_def)
  have "sched_reachable 8 subs batches s" by (rule sched_run_reachable [OF sched_reachable.init run])
  from batches_are_submissions_in_order [OF this] show ?thesis using run len by blast
qed

text \<open>Results find their requests: when the model call returns one result per item, each future of
  the batch that is still awaited gets the result at its own position, and the collector is
  ready for the next batch.\<close>

theorem batch_results_reach_their_futures:
  assumes "sched_reachable n subs batches s" and "bs_phase s = Forwarding batch"
    and "length results = length batch" and "k < length batch"
    and "bs_futures s ! snd (batch ! k) = Pending"
  shows "\<exists>s'. process_batch (Inr results) s = Some s' \<and> bs_phase s' = Waiting \<and>
    bs_futures s' ! snd (batch ! k) = Resolved (results ! k)"
proof -
  have inv: "sched_inv n subs batches s" by (rule sched_reachable_inv [OF assms(1)])
  then have "map snd (concat batches @ batch @ bs_queue s) = [0..<length (bs_futures s)]"
    by (simp add: sched_inv_def in_hand_def assms(2))
  then have "distinct (map snd batch)" "set (map snd batch) \<subseteq> {0..<length (bs_futures s)}"
    by (metis distinct_append distinct_upt map_append, metis (no_types, lifting) Un_iff map_append
        set_append set_upt subsetI)
  moreover from this have "\<forall>i\<in>set (map snd batch). i < length (bs_futures s)" by auto
  ultimately show ?thesis
    using resolve_all_nth [of batch results "bs_futures s" k] resolve_all_flag [of batch results "bs_futures s"]
      assms(2-5) by (auto simp: process_batch_def case_prod_unfold Let_def)
qed

lemma batch_results_reach_their_futures_witness:
  "\<exists>subs batches s s'. sched_run [Submit (demo_batch ! 0), First, Close]
      ([], [], scheduler_start (scheduler_init 8)) = Some (subs, batches, s) \<and>
    process_batch (Inr [(''text'', 2, 5)]) s = Some s' \<and> bs_futures s' ! 0 = Resolved (''text'', 2, 5)"
proof -
  obtain subs batches s batch where run: "sched_run [Submit (demo_batch ! 0), First, Close]
      ([], [], scheduler_start (scheduler_init 8)) = Some (subs, batches, s)"
    and s: "bs_phase s = Forwarding batch" "batch = [(demo_batch ! 0, 0)]" "bs_futures s ! 0 = Pending"
    by (simp add: cancels_def submit_def create_future_def collect_first_def
        close_batch_def scheduler_start_def scheduler_init_def queued_by_def)
  have "sched_reachable 8 subs batches s" by (rule sched_run_reachable [OF sched_reachable.init run])
  from batch_results_reach_their_futures [OF this s(1), of "[(''text'', 2, 5)]" 0] show ?thesis
    using run s by (auto simp del: sched_run.simps)
qed

end
