(* ===== verification/Worker_Pool.thy ===== *)
theory Worker_Pool
  imports Futures Circuit_Breaker Request_Queue
begin

text \<open>
  \<^verbatim>\<open>core/worker.py\<close>: the registry of pending requests and the workers that take items off the
  queue, ask the circuit breaker, run the inference and settle the request's future.  A worker
  is a state; what happens between two of its \<^verbatim>\<open>await\<close>s is one step.  The inference itself
  (executor or batch scheduler) is the result handed to \<open>worker_finish\<close>; the queue is an
  action on the state of Redis.  \<^verbatim>\<open>register_request\<close> overwrites an entry with the same id:
  \<open>pool_history\<close> keeps the set of the futures that lost their entry in this way.
\<close>

section \<open>State\<close>

record job =
  job_prompt :: json
  job_max_tokens :: json
  job_temperature :: json
  job_seed :: json

datatype worker = Idle | Busy string job | Exited

record 'r pool =
  pending :: "(string \<times> nat) list"
  futures :: "'r futures"
  circuit_breaker :: "breaker option"
  workers :: "worker list"
  running :: bool

definition pool_init :: "breaker option \<Rightarrow> 'r pool" where
  "pool_init cb =
     \<lparr>pending = [], futures = [], circuit_breaker = cb, workers = [], running = False\<rparr>"

section \<open>Operations\<close>

definition register_request :: "string \<Rightarrow> 'r pool \<Rightarrow> nat \<times> 'r pool" where
  "register_request request_id s =
     (let (future, fs) = create_future (futures s)
      in (future, s\<lparr>futures := fs, pending := AList.update request_id future (pending s)\<rparr>))"

text \<open>\<^verbatim>\<open>self._pending.pop(request_id, None)\<close> and then settling the future if there is one.\<close>

definition answer :: "string \<Rightarrow> 'r outcome \<Rightarrow> 'r pool \<Rightarrow> 'r pool" where
  "answer request_id out s =
     (case map_of (pending s) request_id of
        None \<Rightarrow> s
      | Some future \<Rightarrow>
          s\<lparr>pending := AList.delete request_id (pending s),
            futures := settle future out (futures s)\<rparr>)"

definition cancel_request :: "string \<Rightarrow> 'r pool \<Rightarrow> 'r pool" where
  "cancel_request request_id s = answer request_id Cancelled s"

definition pool_start :: "int \<Rightarrow> 'r pool \<Rightarrow> 'r pool" where
  "pool_start num_workers s =
     s\<lparr>running := True, workers := workers s @ replicate (nat num_workers) Idle\<rparr>"

definition pool_stop :: "'r pool \<Rightarrow> 'r pool" where
  "pool_stop s =
     s\<lparr>running := False, workers := [],
       futures := fold (\<lambda>(_, future). settle future Cancelled) (pending s) (futures s),
       pending := []\<rparr>"

definition item_get :: "item \<Rightarrow> string \<Rightarrow> json \<Rightarrow> json" where
  "item_get item k dflt = (case map_of item k of None \<Rightarrow> dflt | Some v \<Rightarrow> v)"

definition job_of :: "item \<Rightarrow> job" where
  "job_of item =
     \<lparr>job_prompt = item_get item ''prompt'' (JStr ''''),
      job_max_tokens = item_get item ''max_tokens'' (JInt 256),
      job_temperature = item_get item ''temperature'' (JFloat (fl64 (7 / 10))),
      job_seed = item_get item ''seed'' JNull\<rparr>"

text \<open>The request id of an item if it is one with a pending future.\<close>

definition known_request :: "'r pool \<Rightarrow> item \<Rightarrow> string option" where
  "known_request s item =
     (case item_get item ''request_id'' JNull of
        JStr r \<Rightarrow> (if r \<noteq> '''' \<and> r \<in> set (keys (pending s)) then Some r else None)
      | _ \<Rightarrow> None)"

text \<open>One turn of an idle worker \<open>w\<close> up to the start of the inference.\<close>

definition worker_poll :: "(item option, 'z) action \<Rightarrow> float \<Rightarrow> nat \<Rightarrow> 'r pool \<Rightarrow> 'z \<Rightarrow> 'r pool \<times> 'z" where
  "worker_poll deq now w s z =
     (if \<not> running s then (s\<lparr>workers := (workers s)[w := Exited]\<rparr>, z)
      else case deq z of
        (Inl e, z) \<Rightarrow>
          (if is_Exception e then (s, z) else (s\<lparr>workers := (workers s)[w := Exited]\<rparr>, z))
      | (Inr None, z) \<Rightarrow> (s, z)
      | (Inr (Some item), z) \<Rightarrow>
          (case known_request s item of
             None \<Rightarrow> (s, z)
           | Some request_id \<Rightarrow>
               (let (allowed, cb) = (case circuit_breaker s of
                                       None \<Rightarrow> (True, None)
                                     | Some b \<Rightarrow> map_prod id Some (allow_request now b));
                    s = s\<lparr>circuit_breaker := cb\<rparr>
                in if allowed
                   then (s\<lparr>workers := (workers s)[w := Busy request_id (job_of item)]\<rparr>, z)
                   else (answer request_id (Failed CircuitOpenError) s, z))))"

text \<open>The end of the inference of a busy worker.\<close>

definition worker_finish :: "'r result \<Rightarrow> float \<Rightarrow> nat \<Rightarrow> 'r pool \<Rightarrow> 'r pool" where
  "worker_finish res now w s =
     (case workers s ! w of
        Busy request_id _ \<Rightarrow>
          (case res of
             Inr r \<Rightarrow>
               answer request_id (Resolved r)
                 (s\<lparr>circuit_breaker := map_option record_success (circuit_breaker s),
                    workers := (workers s)[w := Idle]\<rparr>)
           | Inl e \<Rightarrow>
               (if is_Exception e
                then answer request_id (Failed e)
                  (s\<lparr>circuit_breaker := map_option (record_failure now) (circuit_breaker s),
                     workers := (workers s)[w := Idle]\<rparr>)
                else s\<lparr>workers := (workers s)[w := Exited]\<rparr>))
      | _ \<Rightarrow> s)"

section \<open>Answering\<close>

lemma answer_fields [simp]:
  "circuit_breaker (answer r out s) = circuit_breaker s" "workers (answer r out s) = workers s"
  "running (answer r out s) = running s" "length (futures (answer r out s)) = length (futures s)"
  by (simp_all add: answer_def split: option.split)

lemma answer_futures: "futures (answer r out s) =
    (case map_of (pending s) r of None \<Rightarrow> futures s | Some f \<Rightarrow> settle f out (futures s))"
  by (simp add: answer_def split: option.split)

lemma answer_pending: "pending (answer r out s) = AList.delete r (pending s)"
  by (auto simp: answer_def delete_notin map_of_eq_None_iff split: option.split)

lemma evolves_answer: "evolves (futures s) (futures (answer r out s))"
  by (auto simp: answer_futures split: option.split)

section \<open>Reachable pools\<close>

datatype 'r event =
    Register string
  | Cancel string
  | Poll nat float "item option result"
  | Finish nat float "'r result"
  | Abandon nat
  | Stop

text \<open>
  The steps of a running pool.  An id may be registered again while it is still in the registry,
  which overwrites the entry: the router's ids are eight hex digits, and nothing checks them.  A
  worker polls when idle and finishes when busy; what the queue answers is part of the event.
  \<open>Abandon\<close> is the moment the handler's \<^verbatim>\<open>wait_for\<close> cancels a future that is still in the registry.
\<close>

inductive pool_step :: "'r event \<Rightarrow> 'r pool \<Rightarrow> 'r pool \<Rightarrow> bool" where
  register: "pool_step (Register r) s (snd (register_request r s))"
| cancel: "pool_step (Cancel r) s (cancel_request r s)"
| poll: "w < length (workers s) \<Longrightarrow> workers s ! w = Idle \<Longrightarrow>
     pool_step (Poll w now res) s (fst (worker_poll (\<lambda>z. (res, z)) now w s ()))"
| finish: "w < length (workers s) \<Longrightarrow> workers s ! w = Busy r j \<Longrightarrow>
     pool_step (Finish w now res) s (worker_finish res now w s)"
| abandon: "pool_step (Abandon i) s (s\<lparr>futures := settle i Cancelled (futures s)\<rparr>)"
| stop: "pool_step Stop s (pool_stop s)"

inductive_cases pool_step_cases: "pool_step e s s'"

inductive pool_reachable :: "breaker option \<Rightarrow> int \<Rightarrow> 'r pool \<Rightarrow> bool" for cb n where
  init: "pool_reachable cb n (pool_start n (pool_init cb))"
| step: "pool_reachable cb n s \<Longrightarrow> pool_step e s s' \<Longrightarrow> pool_reachable cb n s'"

text \<open>
  What a step takes out of the registry without settling it: the future of an id that is
  registered again.  A history also collects all of these.
\<close>

definition overwritten :: "'r event \<Rightarrow> 'r pool \<Rightarrow> nat set" where
  "overwritten e s = (case e of Register r \<Rightarrow> set_option (map_of (pending s) r) | _ \<Rightarrow> {})"

inductive pool_history :: "breaker option \<Rightarrow> int \<Rightarrow> nat set \<Rightarrow> 'r pool \<Rightarrow> bool" for cb n where
  init: "pool_history cb n {} (pool_start n (pool_init cb))"
| step: "pool_history cb n Os s \<Longrightarrow> pool_step e s s' \<Longrightarrow> pool_history cb n (Os \<union> overwritten e s) s'"

lemma pool_reachable_history: "pool_reachable cb n s \<longleftrightarrow> (\<exists>Os. pool_history cb n Os s)"
proof
  show "\<exists>Os. pool_history cb n Os s" if "pool_reachable cb n s"
    using that by (induction rule: pool_reachable.induct) (blast intro: pool_history.intros)+
  have "pool_reachable cb n s" if "pool_history cb n Os s" for Os
    using that by (induction rule: pool_history.induct) (blast intro: pool_reachable.intros)+
  then show "\<exists>Os. pool_history cb n Os s \<Longrightarrow> pool_reachable cb n s" by blast
qed

text \<open>
  The registry names futures that exist, each once.  A future that waits and is not in it is
  orphaned: only the overwritten ones are.
\<close>

definition pool_inv :: "'r pool \<Rightarrow> bool" where
  "pool_inv s \<longleftrightarrow> distinct (keys (pending s)) \<and> distinct (map snd (pending s)) \<and>
     (\<forall>i \<in> snd ` set (pending s). i < length (futures s))"

definition orphaned :: "'r pool \<Rightarrow> nat set" where
  "orphaned s = {i. i < length (futures s) \<and> futures s ! i = Pending \<and> i \<notin> snd ` set (pending s)}"

definition registry_ok :: "nat set \<Rightarrow> 'r pool \<Rightarrow> bool" where
  "registry_ok Os s \<longleftrightarrow> orphaned s \<subseteq> Os \<and> Os \<inter> snd ` set (pending s) = {} \<and> Os \<subseteq> {..<length (futures s)}"

lemma registry_orphans: "registry_ok Os s \<Longrightarrow> orphaned s = {i \<in> Os. futures s ! i = Pending}"
  by (auto simp: registry_ok_def orphaned_def)

lemma pool_inv_workers: "pool_inv (s\<lparr>workers := ws\<rparr>) = pool_inv s"
  "pool_inv (s\<lparr>circuit_breaker := cb\<rparr>) = pool_inv s"
  "registry_ok Os (s\<lparr>workers := ws\<rparr>) = registry_ok Os s"
  "registry_ok Os (s\<lparr>circuit_breaker := cb\<rparr>) = registry_ok Os s"
  by (simp_all add: pool_inv_def registry_ok_def orphaned_def)

lemma snd_delete: "distinct (keys d) \<Longrightarrow> distinct (map snd d) \<Longrightarrow> map_of d r = Some f \<Longrightarrow>
  snd ` set (AList.delete r d) = snd ` set d - {f}"
proof (induction d)
  case (Cons a d)
  then show ?case by (cases a) (force simp: delete_notin dest: map_of_SomeD split: if_splits)
qed simp

lemma distinct_snd_delete: "distinct (map snd d) \<Longrightarrow> distinct (map snd (AList.delete r d))"
  by (simp add: AList.delete_eq distinct_map_filter)

lemma pool_inv_answer [inv_intros]:
  assumes inv: "pool_inv s"
  shows "pool_inv (answer r out s)"
proof (cases "map_of (pending s) r")
  case None
  then show ?thesis using inv by (simp add: answer_def)
next
  case (Some f)
  have d: "distinct (keys (pending s))" "distinct (map snd (pending s))"
    using inv by (simp_all add: pool_inv_def)
  have "distinct (keys (AList.delete r (pending s)))"
    using d(1) by (simp add: keys_delete distinct_removeAll)
  then show ?thesis
    using distinct_snd_delete [OF d(2), of r] snd_delete [OF d Some] inv Some
    by (auto simp: pool_inv_def answer_def)
qed

lemma registry_answer:
  assumes "pool_inv s" and "registry_ok Os s" and "out \<noteq> Pending"
  shows "registry_ok Os (answer r out s)"
proof (cases "map_of (pending s) r")
  case None
  then show ?thesis using assms(2) by (simp add: answer_def)
next
  case (Some f)
  have "snd ` set (AList.delete r (pending s)) = snd ` set (pending s) - {f}"
    using assms(1) by (intro snd_delete [OF _ _ Some]) (simp_all add: pool_inv_def)
  then show ?thesis
    using assms(2,3) Some by (auto simp: registry_ok_def orphaned_def answer_def settle_nth split: if_splits)
qed

text \<open>Registering adds one future; the entry of an id that was there is replaced.\<close>

lemma set_update: "x \<in> set (AList.update r f d) \<Longrightarrow> x = (r, f) \<or> x \<in> set d"
  by (induction d) (auto split: if_splits)

lemma distinct_snd_update: "distinct (map snd d) \<Longrightarrow> f \<notin> snd ` set d \<Longrightarrow> distinct (map snd (AList.update r f d))"
proof (induction d)
  case (Cons a d)
  then show ?case by (cases a) (auto dest: set_update)
qed simp

lemma snd_update:
  "distinct (keys d) \<Longrightarrow> distinct (map snd d) \<Longrightarrow>
   snd ` set (AList.update r f d) = insert f (snd ` set d - set_option (map_of d r))"
proof (induction d)
  case (Cons a d)
  obtain k v where a: "a = (k, v)" by (cases a)
  show ?case
  proof (cases "k = r")
    case True
    then show ?thesis using Cons.prems a by auto
  next
    case False
    then have "v \<notin> set_option (map_of d r)" using Cons.prems a by (force dest: map_of_SomeD)
    then show ?thesis using Cons False a by auto
  qed
qed simp
lemma pool_inv_register [inv_intros]:
  assumes "pool_inv s"
  shows "pool_inv (snd (register_request r s))"
proof -
  have fresh: "length (futures s) \<notin> snd ` set (pending s)" using assms by (auto simp: pool_inv_def)
  have d: "distinct (keys (pending s))" "distinct (map snd (pending s))"
    using assms by (simp_all add: pool_inv_def)
  show ?thesis
    using assms d distinct_snd_update [OF d(2) fresh, of r] distinct_update [OF d(1), of r "length (futures s)"]
    by (auto simp: register_request_def create_future_def pool_inv_def snd_update [OF d] less_Suc_eq)
qed

lemma registry_register:
  assumes "pool_inv s" and "registry_ok Os s"
  shows "registry_ok (Os \<union> overwritten (Register r) s) (snd (register_request r s))"
proof -
  have d: "distinct (keys (pending s))" "distinct (map snd (pending s))"
    using assms(1) by (simp_all add: pool_inv_def)
  have "i < length (futures s)" if "map_of (pending s) r = Some i" for i
    using map_of_SomeD [OF that] assms(1) by (force simp: pool_inv_def)
  then show ?thesis
    using assms(2)
    by (force simp: registry_ok_def orphaned_def overwritten_def register_request_def create_future_def
        snd_update [OF d] nth_append less_Suc_eq)
qed

lemma pool_stop_futures:
  "futures (pool_stop s) = fold (\<lambda>i. settle i Cancelled) (map snd (pending s)) (futures s)"
  by (simp add: pool_stop_def fold_map comp_def case_prod_unfold)

text \<open>The stop cancels whatever waits in the registry, and loses what is orphaned.\<close>

lemma pool_stop_settles:
  assumes "i < length (futures s)" and "i \<notin> orphaned s"
  shows "future_done (futures (pool_stop s)) i"
proof (cases "futures s ! i = Pending")
  case True
  then have "i \<in> set (map snd (pending s))" using assms by (simp add: orphaned_def)
  then show ?thesis unfolding pool_stop_futures by (rule fold_settle_done) (simp_all add: assms(1))
next
  case False
  then have "future_done (futures s) i" using assms(1) by (simp add: future_done_def)
  then show ?thesis
    using evolves_done [OF evolves_fold_settle] unfolding pool_stop_futures by blast
qed

lemma pool_stop_loses: "i \<in> orphaned s \<Longrightarrow> \<not> future_done (futures (pool_stop s)) i"
  by (auto simp: orphaned_def future_done_def pool_stop_futures fold_settle_other)

interpretation pool_owner: future_owner "\<lambda>_. True" futures orphaned pool_stop
  by unfold_locales (simp_all add: pool_stop_settles pool_stop_loses, simp_all add: pool_stop_futures evolves_fold_settle)

lemma pool_inv_stop [inv_intros]: "pool_inv (pool_stop s)"
  by (simp add: pool_inv_def pool_stop_def)

lemma registry_stop: "registry_ok Os s \<Longrightarrow> registry_ok Os (pool_stop s)"
  using pool_stop_settles [of _ s] pool_owner.halt_length [of s]
  by (force simp: registry_ok_def orphaned_def future_done_def pool_stop_def)

lemma poll_cases:
  obtains (idle) ws where "fst (worker_poll deq now w s z) = s\<lparr>workers := ws\<rparr>"
  | (busy) cb ws where "fst (worker_poll deq now w s z) = s\<lparr>circuit_breaker := cb, workers := ws\<rparr>"
  | (refused) r cb where "fst (worker_poll deq now w s z) =
      answer r (Failed CircuitOpenError) (s\<lparr>circuit_breaker := cb\<rparr>)"
proof -
  obtain res z' where deq: "deq z = (res, z')" by force
  have same: "s = s\<lparr>workers := workers s\<rparr>" by simp
  show thesis
  proof (cases "running s \<and> (\<exists>item r. res = Inr (Some item) \<and> known_request s item = Some r)")
    case False
    then show thesis
      using deq same by (intro idle [of "if running s \<and> (\<forall>e. res = Inl e \<longrightarrow> is_Exception e) then workers s
          else (workers s)[w := Exited]"])
        (auto simp: worker_poll_def split: sum.splits option.splits)
  next
    case True
    then obtain item r where "res = Inr (Some item)" "known_request s item = Some r" "running s" by blast
    obtain allowed cb where ask: "(case circuit_breaker s of None \<Rightarrow> (True, None)
        | Some b \<Rightarrow> map_prod id Some (allow_request now b)) = (allowed, cb)" by fastforce
    have "fst (worker_poll deq now w s z) =
        (if allowed then s\<lparr>circuit_breaker := cb, workers := (workers s)[w := Busy r (job_of item)]\<rparr>
         else answer r (Failed CircuitOpenError) (s\<lparr>circuit_breaker := cb\<rparr>))"
      using deq True \<open>res = _\<close> \<open>known_request s item = _\<close> ask by (simp add: worker_poll_def Let_def)
    then show thesis using busy refused by (cases allowed) simp_all
  qed
qed

lemma pool_step_inv [inv_intros]: "pool_step e s s' \<Longrightarrow> pool_inv s \<Longrightarrow> pool_inv s'"
proof (induction rule: pool_step.induct)
  case (poll w s now res)
  show ?case
    by (rule poll_cases [of "\<lambda>z. (res, z)" now w s "()"])
      (use poll in \<open>simp_all add: pool_inv_workers pool_inv_answer\<close>)
next
  case (finish w s r j now res)
  then show ?case
    by (simp add: worker_finish_def pool_inv_workers pool_inv_answer split: sum.split)
next
  case (abandon i s)
  then show ?case by (auto simp: pool_inv_def settle_nth split: if_splits)
qed (simp_all add: inv_intros cancel_request_def)

lemma pool_reachable_inv: "pool_reachable cb n s \<Longrightarrow> pool_inv s"
proof (induction rule: pool_reachable.induct)
  case init
  show ?case by (simp add: pool_inv_def pool_start_def pool_init_def)
qed (rule pool_step_inv)

lemma pool_step_registry:
  "pool_step e s s' \<Longrightarrow> pool_inv s \<Longrightarrow> registry_ok Os s \<Longrightarrow> registry_ok (Os \<union> overwritten e s) s'"
proof (induction rule: pool_step.induct)
  case (register r s)
  then show ?case by (intro registry_register)
next
  case (poll w s now res)
  then have "registry_ok Os (fst (worker_poll (\<lambda>z. (res, z)) now w s ()))"
    by (cases rule: poll_cases [of "\<lambda>z. (res, z)" now w s "()"])
      (simp_all add: pool_inv_workers registry_answer)
  then show ?case by (simp add: overwritten_def)
next
  case (finish w s r j now res)
  then show ?case
    by (simp add: worker_finish_def pool_inv_workers registry_answer overwritten_def split: sum.split)
next
  case (abandon i s)
  then show ?case
    by (auto simp: registry_ok_def orphaned_def settle_nth overwritten_def split: if_splits)
qed (simp_all add: registry_answer registry_stop cancel_request_def overwritten_def)

lemma pool_history_inv: "pool_history cb n Os s \<Longrightarrow> pool_inv s \<and> registry_ok Os s"
proof (induction rule: pool_history.induct)
  case init
  show ?case by (simp add: pool_inv_def registry_ok_def orphaned_def pool_start_def pool_init_def)
qed (blast intro: pool_step_inv pool_step_registry)

lemma pool_step_evolves: "pool_step e s s' \<Longrightarrow> evolves (futures s) (futures s')"
proof (induction rule: pool_step.induct)
  case (register r s)
  then show ?case using evolves_create [of "futures s"] by (simp add: register_request_def case_prod_unfold Let_def)
next
  case (cancel s r)
  then show ?case by (simp add: cancel_request_def evolves_answer)
next
  case (poll w s now res)
  show ?case
  proof (rule poll_cases [of "\<lambda>z. (res, z)" now w s "()"])
    fix r cb
    show "fst (worker_poll (\<lambda>z. (res, z)) now w s ()) = answer r (Failed CircuitOpenError) (s\<lparr>circuit_breaker := cb\<rparr>) \<Longrightarrow> ?case"
      using evolves_answer [of "s\<lparr>circuit_breaker := cb\<rparr>"] by simp
  qed simp_all
next
  case (finish w s r j now res)
  then show ?case
    by (auto simp: worker_finish_def split: sum.split intro: evolves_trans [OF _ evolves_answer])
next
  case (stop s)
  then show ?case unfolding pool_stop_futures by (rule evolves_fold_settle)
qed (simp add: evolves_settle)

section \<open>The breaker seen by the pool\<close>

lemma snd_cb_run_Cons: "snd (cb_run (c # cs) b) = snd (cb_run cs (snd (call_step c b)))"
  by (simp add: Let_def case_prod_unfold)

lemma cb_run_snoc: "snd (cb_run (cs @ [c]) b) = snd (call_step c (snd (cb_run cs b)))"
proof (induction cs arbitrary: b)
  case (Cons a cs)
  then show ?case by (simp only: append_Cons snd_cb_run_Cons)
qed (simp add: Let_def case_prod_unfold)

text \<open>The pool calls the breaker and never writes it otherwise.\<close>

lemma worker_poll_breaker:
  "circuit_breaker (fst (worker_poll deq now w s z)) = circuit_breaker s \<or>
   circuit_breaker (fst (worker_poll deq now w s z)) =
     map_option (\<lambda>b. snd (allow_request now b)) (circuit_breaker s)"
  by (auto simp: worker_poll_def Let_def map_prod_def case_prod_unfold split: sum.split option.split prod.split)

lemma pool_reachable_breaker:
  "pool_reachable cb n s \<Longrightarrow> \<exists>cs. circuit_breaker s = map_option (\<lambda>b. snd (cb_run cs b)) cb"
proof (induction rule: pool_reachable.induct)
  case init
  show ?case by (rule exI [of _ "[]"]) (simp add: pool_start_def pool_init_def option.map_ident)
next
  case (step s e s')
  then obtain cs where cs: "circuit_breaker s = map_option (\<lambda>b. snd (cb_run cs b)) cb" by blast
  have more: "\<exists>cs. map_option (\<lambda>b. snd (call_step c b)) (circuit_breaker s) =
      map_option (\<lambda>b. snd (cb_run cs b)) cb" for c
    by (rule exI [of _ "cs @ [c]"]) (simp add: cs cb_run_snoc option.map_comp comp_def)
  have same: "\<exists>cs. circuit_breaker s = map_option (\<lambda>b. snd (cb_run cs b)) cb" using cs by blast
  from step.hyps(2) show ?case
  proof (cases rule: pool_step.cases)
    case (poll w now res)
    then show ?thesis
      using worker_poll_breaker [of "\<lambda>z. (res, z)" now w s "()"] same more [of "Allow now"] by fastforce
  next
    case (finish w r j now res)
    then show ?thesis
      using same more [of Success] more [of "Failure now"]
      by (simp add: worker_finish_def split: sum.split)
  qed (use same in \<open>simp_all add: register_request_def cancel_request_def pool_stop_def case_prod_unfold Let_def\<close>)
qed

section \<open>Properties\<close>

text \<open>A future that is done keeps its outcome, whatever step the pool takes.\<close>

lemma futures_settle_once:
  "pool_step e s s' \<Longrightarrow> future_done (futures s) i \<Longrightarrow> future_done (futures s') i \<and> futures s' ! i = futures s ! i"
  by (rule evolves_done [OF pool_step_evolves])

text \<open>C17: A waiter is forgotten exactly when its id is registered again while it waits: after any
  sequence of operations, of which \<open>Os\<close> are the futures whose registry entry a later
  \<^verbatim>\<open>register_request\<close> with the same id overwrote, every other unsettled future is in the registry
  under exactly one id, and stopping the pool leaves every future done except those of \<open>Os\<close> that
  nothing had settled: they stay pending.\<close>

theorem stop_leaves_no_waiter:
  assumes "pool_history cb n Os s"
  shows "(\<forall>i < length (futures s). futures s ! i = Pending \<longrightarrow>
      (if i \<in> Os then \<forall>r. map_of (pending s) r \<noteq> Some i else \<exists>!r. map_of (pending s) r = Some i)) \<and>
    (\<forall>i < length (futures s).
      future_done (futures (pool_stop s)) i \<longleftrightarrow> \<not> (i \<in> Os \<and> futures s ! i = Pending))"
proof (intro conjI allI impI)
  have inv: "pool_inv s" and reg: "registry_ok Os s" using pool_history_inv [OF assms] by blast+
  fix i
  assume i: "i < length (futures s)"
  show "future_done (futures (pool_stop s)) i \<longleftrightarrow> \<not> (i \<in> Os \<and> futures s ! i = Pending)"
    using pool_owner.waits_on [OF _ i] registry_orphans [OF reg] by simp
  assume waits: "futures s ! i = Pending"
  have none: "map_of (pending s) r \<noteq> Some i" if "i \<in> Os" for r
    using reg that by (force simp: registry_ok_def dest: map_of_SomeD)
  have "\<exists>!r. map_of (pending s) r = Some i" if "i \<notin> Os"
  proof -
    have "i \<in> snd ` set (pending s)" using reg that i waits by (auto simp: registry_ok_def orphaned_def)
    then obtain r where r: "(r, i) \<in> set (pending s)" by auto
    have "inj_on snd (set (pending s))" using inv by (simp add: pool_inv_def distinct_map)
    then have "r' = r" if "(r', i) \<in> set (pending s)" for r' using inj_onD [of snd, OF _ _ that r] by simp
    then show ?thesis using r inv by (auto simp: pool_inv_def dest: map_of_SomeD)
  qed
  then show "if i \<in> Os then \<forall>r. map_of (pending s) r \<noteq> Some i else \<exists>!r. map_of (pending s) r = Some i"
    using none by simp
qed

text \<open>Two requests under one id: the second is cancelled by the stop, the first waits for ever.\<close>

lemma stop_leaves_no_waiter_witness:
  "let s = snd (register_request ''r1'' (snd (register_request ''r1'' (pool_start 2 (pool_init None :: nat pool)))))
   in future_done (futures (pool_stop s)) 1 \<and> \<not> future_done (futures (pool_stop s)) 0"
proof -
  let ?s0 = "pool_start 2 (pool_init None :: nat pool)"
  let ?s1 = "snd (register_request ''r1'' ?s0)"
  have "pool_history None 2 ({} \<union> overwritten (Register ''r1'') ?s0) ?s1"
    by (rule pool_history.step [OF pool_history.init pool_step.register])
  from pool_history.step [OF this pool_step.register, of "''r1''"]
  have "pool_history None 2 {0} (snd (register_request ''r1'' ?s1))"
    by (simp add: overwritten_def register_request_def create_future_def pool_start_def pool_init_def)
  from stop_leaves_no_waiter [OF this] show ?thesis
    by (simp add: register_request_def create_future_def pool_start_def pool_init_def Let_def)
qed

text \<open>The result of an inference goes to the request it was dequeued for: the future gets the
  value, or the exception, unless it was settled before (a timeout, a cancellation); the
  request leaves the registry, the worker is idle again, the breaker counts the outcome, and
  no other future changes.\<close>

theorem finish_answers_its_request:
  assumes "w < length (workers s)" and "workers s ! w = Busy r j"
    and "map_of (pending s) r = Some f" and "f < length (futures s)"
    and "\<And>e. res = Inl e \<Longrightarrow> is_Exception e"
  shows "let s' = worker_finish res now w s;
             out = (case res of Inr x \<Rightarrow> Resolved x | Inl e \<Rightarrow> Failed e) in
    futures s' ! f = (if futures s ! f = Pending then out else futures s ! f) \<and>
    (\<forall>i. i \<noteq> f \<longrightarrow> futures s' ! i = futures s ! i) \<and>
    r \<notin> set (keys (pending s')) \<and> workers s' ! w = Idle \<and>
    circuit_breaker s' = map_option (case res of Inr x \<Rightarrow> record_success | Inl e \<Rightarrow> record_failure now)
      (circuit_breaker s)"
  using assms
  by (cases res) (auto simp: worker_finish_def answer_def settle_eq future_done_def Let_def keys_delete)

abbreviation "busy_pool \<equiv>
  \<lparr>pending = [(''r1'', 0)], futures = [Pending], circuit_breaker = Some (breaker_init 5 30 1),
   workers = [Busy ''r1'' (job_of [])], running = True\<rparr>"

lemma finish_answers_its_request_witness:
  "futures (worker_finish (Inr (5 :: nat)) 0 0 busy_pool) ! 0 = Resolved 5"
  using finish_answers_its_request [of 0 busy_pool "''r1''" "job_of []" 0 "Inr (5 :: nat)" 0] by (simp add: Let_def)

text \<open>While the breaker is open, a dequeued request fails at once: its future gets
  \<^verbatim>\<open>CircuitOpenError\<close>, no worker becomes busy, and the breaker is left as it is.\<close>

theorem open_breaker_fails_requests:
  assumes "running s" and "deq z = (Inr (Some item), z')" and "known_request s item = Some r"
    and "circuit_breaker s = Some b" and "state_property now b = circuit_state.OPEN"
    and "map_of (pending s) r = Some f" and "f < length (futures s)" and "futures s ! f = Pending"
  shows "worker_poll deq now w s z =
    (s\<lparr>pending := AList.delete r (pending s), futures := (futures s)[f := Failed CircuitOpenError]\<rparr>, z')"
proof -
  have "allow_request now b = (False, b)" using assms(5) by (simp add: allow_request_def Let_def)
  moreover have "s\<lparr>circuit_breaker := Some b\<rparr> = s" using assms(4) by simp
  ultimately show ?thesis
    using assms by (simp add: worker_poll_def answer_def settle_eq future_done_def)
qed

abbreviation "tripped \<equiv> (breaker_init 5 30 1)\<lparr>cb_state := circuit_state.OPEN, last_failure_time := 100\<rparr>"

lemma open_breaker_fails_requests_witness:
  "futures (fst (worker_poll (\<lambda>z. (Inr (Some [(''request_id'', JStr ''r1'')]), z)) 100 0
    (\<lparr>pending = [(''r1'', 0)], futures = [Pending :: nat outcome], circuit_breaker = Some tripped,
      workers = [Idle], running = True\<rparr>) ())) = [Failed CircuitOpenError]"
proof -
  have "state_property 100 tripped = circuit_state.OPEN"
    by (simp add: state_property_def fsub_def breaker_init_def)
  then show ?thesis
    by (subst open_breaker_fails_requests) (auto simp: known_request_def item_get_def)
qed

end
