(* ===== verification/Batched_Pool.thy ===== *)
theory Batched_Pool
  imports Batch_Scheduler Worker_Pool
begin

text \<open>
  The worker pool with batching on: a worker that takes an item submits it to the batch
  scheduler and waits for the future of its batch item (\<^verbatim>\<open>core/worker.py\<close>, the branch of
  \<^verbatim>\<open>_worker_loop\<close> under \<^verbatim>\<open>if self._batch_scheduler\<close>).  The state is the pool, the scheduler, and
  for each worker the batch future it waits for.  Every step of the composition is a step of
  the pool, a step of the scheduler, or both, so what holds of the parts in any interleaving
  holds here; what is new is how many items can be in the scheduler at once, and that a
  result finds its way through both registries.
\<close>

section \<open>State and steps\<close>

record batched =
  bp_pool :: "completion pool"
  bp_sched :: scheduler
  awaiting :: "nat \<Rightarrow> nat option"

text \<open>
  The arguments of \<^verbatim>\<open>submit\<close> are the item's values as they came out of the queue.  They are
  typed (the lemma \<open>routed_item_typed\<close>) because the router put them there; other values have no
  step.
\<close>

definition batch_item_of :: "string \<Rightarrow> job \<Rightarrow> batch_item option" where
  "batch_item_of request_id j =
     (case (job_prompt j, job_max_tokens j, job_temperature j) of
        (JStr prompt, JInt max_tokens, JFloat temperature) \<Rightarrow>
          (case (case job_seed j of JNull \<Rightarrow> Some None | JInt s \<Rightarrow> Some (Some s) | _ \<Rightarrow> None) of
             Some seed \<Rightarrow>
               Some \<lparr>bi_request_id = request_id, bi_prompt = prompt, bi_max_tokens = max_tokens,
                     bi_temperature = temperature, bi_seed = seed\<rparr>
           | None \<Rightarrow> None)
      | _ \<Rightarrow> None)"

text \<open>A worker's turn: \<open>worker_poll\<close>, and \<^verbatim>\<open>submit\<close> when it got to the inference.\<close>

definition batched_poll :: "item option result \<Rightarrow> float \<Rightarrow> nat \<Rightarrow> batched \<Rightarrow> batched option" where
  "batched_poll res now w s =
     (let p = fst (worker_poll (\<lambda>z. (res, z)) now w (bp_pool s) ()) in
      case workers p ! w of
        Busy request_id j \<Rightarrow>
          (case batch_item_of request_id j of
             None \<Rightarrow> None
           | Some item \<Rightarrow>
               (let (future, sc) = submit item (bp_sched s)
                in Some (s\<lparr>bp_pool := p, bp_sched := sc,
                           awaiting := (awaiting s)(w := Some future)\<rparr>)))
      | _ \<Rightarrow> Some (s\<lparr>bp_pool := p\<rparr>))"

text \<open>What \<^verbatim>\<open>await future\<close> returns or raises.\<close>

definition awaited :: "'r outcome \<Rightarrow> 'r result option" where
  "awaited out = (case out of Pending \<Rightarrow> None | Resolved r \<Rightarrow> Some (Inr r) | Failed e \<Rightarrow> Some (Inl e)
     | Cancelled \<Rightarrow> Some (Inl CancelledError))"

definition batched_finish :: "float \<Rightarrow> nat \<Rightarrow> batched \<Rightarrow> batched option" where
  "batched_finish now w s =
     (case awaiting s w of
        None \<Rightarrow> None
      | Some i \<Rightarrow>
          (case awaited (bs_futures (bp_sched s) ! i) of
             None \<Rightarrow> None
           | Some res \<Rightarrow>
               Some (s\<lparr>bp_pool := worker_finish res now w (bp_pool s),
                       awaiting := (awaiting s)(w := None)\<rparr>)))"

text \<open>
  \<^verbatim>\<open>stop\<close> cancels the worker tasks, and with each of them the batch future it waits for, before
  it cancels what is left in the registry.
\<close>

definition awaited_futures :: "batched \<Rightarrow> nat list" where
  "awaited_futures s = List.map_filter (awaiting s) [0..<length (workers (bp_pool s))]"

definition batched_stop :: "batched \<Rightarrow> batched" where
  "batched_stop s =
     s\<lparr>bp_pool := pool_stop (bp_pool s),
       bp_sched := (bp_sched s)\<lparr>bs_futures :=
         fold (\<lambda>i. settle i Cancelled) (awaited_futures s) (bs_futures (bp_sched s))\<rparr>,
       awaiting := (\<lambda>_. None)\<rparr>"

definition batched_start :: "breaker option \<Rightarrow> int \<Rightarrow> int \<Rightarrow> batched" where
  "batched_start cb n m =
     \<lparr>bp_pool = pool_start n (pool_init cb), bp_sched = scheduler_start (scheduler_init m),
      awaiting = (\<lambda>_. None)\<rparr>"

datatype batched_event =
    Request "completion event"
  | Work nat float "item option result"
  | Deliver nat float
  | Collect sched_event
  | Shutdown

text \<open>The events of the request handlers, and those of the collector.\<close>

definition handler_event :: "completion event \<Rightarrow> bool" where
  "handler_event e \<longleftrightarrow> (case e of Register r \<Rightarrow> True | Cancel r \<Rightarrow> True | event.Abandon i \<Rightarrow> True | _ \<Rightarrow> False)"

definition collector_event :: "sched_event \<Rightarrow> bool" where
  "collector_event e \<longleftrightarrow> (case e of First \<Rightarrow> True | More \<Rightarrow> True | Close \<Rightarrow> True
     | Process res \<Rightarrow> \<not> cancels e | _ \<Rightarrow> False)"

inductive batched_step :: "batched_event \<Rightarrow> batched \<Rightarrow> batched \<Rightarrow> bool" where
  request: "handler_event e \<Longrightarrow> pool_step e (bp_pool s) p \<Longrightarrow>
     batched_step (Request e) s (s\<lparr>bp_pool := p\<rparr>)"
| work: "w < length (workers (bp_pool s)) \<Longrightarrow> workers (bp_pool s) ! w = Idle \<Longrightarrow>
     batched_poll res now w s = Some s' \<Longrightarrow> batched_step (Work w now res) s s'"
| deliver: "batched_finish now w s = Some s' \<Longrightarrow> batched_step (Deliver w now) s s'"
| collect: "collector_event e \<Longrightarrow> sched_step e (bp_sched s) = Some sc \<Longrightarrow>
     batched_step (Collect e) s (s\<lparr>bp_sched := sc\<rparr>)"
| shutdown: "batched_step Shutdown s (batched_stop s)"

inductive_cases batched_step_cases: "batched_step e s s'"

inductive batched_reachable :: "breaker option \<Rightarrow> int \<Rightarrow> int \<Rightarrow> batched \<Rightarrow> bool" for cb n m where
  init: "batched_reachable cb n m (batched_start cb n m)"
| step: "batched_reachable cb n m s \<Longrightarrow> batched_step e s s' \<Longrightarrow> batched_reachable cb n m s'"

text \<open>The items that a step adds to the scheduler's queue; a history collects them.\<close>

definition arrivals :: "batched \<Rightarrow> batched \<Rightarrow> queued list" where
  "arrivals s s' = drop (length (bs_queue (bp_sched s))) (bs_queue (bp_sched s'))"

inductive batched_history :: "breaker option \<Rightarrow> int \<Rightarrow> int \<Rightarrow> queued list \<Rightarrow> batched \<Rightarrow> bool" for cb n m where
  init: "batched_history cb n m [] (batched_start cb n m)"
| step: "batched_history cb n m subs s \<Longrightarrow> batched_step e s s' \<Longrightarrow>
     batched_history cb n m (subs @ arrivals s s') s'"

text \<open>What happens between two turns of worker \<open>w\<close> while the service runs.\<close>

definition meanwhile :: "nat \<Rightarrow> batched \<Rightarrow> batched \<Rightarrow> bool" where
  "meanwhile w = (\<lambda>s s'. \<exists>e. e \<noteq> Shutdown \<and> (\<forall>now. e \<noteq> Deliver w now) \<and> batched_step e s s')\<^sup>*\<^sup>*"


section \<open>The scheduler's items\<close>

definition live :: "scheduler \<Rightarrow> queued list" where
  "live s = in_hand s @ bs_queue s"

lemma sched_live_distinct:
  assumes "sched_reachable m subs batches s"
  shows "distinct (map snd (live s))" "set (map snd (live s)) \<subseteq> {..<length (bs_futures s)}"
proof -
  have all: "map snd (concat batches) @ map snd (live s) = [0..<length (bs_futures s)]"
    using sched_reachable_inv [OF assms] by (simp add: sched_inv_def live_def)
  then have "distinct (map snd (concat batches) @ map snd (live s))" by simp
  then show "distinct (map snd (live s))" by simp
  have "set (map snd (concat batches) @ map snd (live s)) = {..<length (bs_futures s)}"
    unfolding all by (simp add: atLeast0LessThan)
  then show "set (map snd (live s)) \<subseteq> {..<length (bs_futures s)}" by auto
qed

lemma sched_reachable_abandon_all:
  "sched_reachable m subs batches s \<Longrightarrow>
   sched_reachable m subs batches (s\<lparr>bs_futures := fold (\<lambda>i. settle i Cancelled) is (bs_futures s)\<rparr>)"
proof (induction "is" arbitrary: s)
  case (Cons i "is")
  have "sched_reachable m subs batches (s\<lparr>bs_futures := settle i Cancelled (bs_futures s)\<rparr>)"
    using sched_reachable.step [OF Cons.prems, of "sched_event.Abandon i"] by (simp add: queued_by_def forwarded_def)
  from Cons.IH [OF this] show ?case by simp
qed simp

lemma resolve_all_other:
  "i \<notin> set (map snd batch) \<Longrightarrow> i < length fs \<Longrightarrow> fst (resolve_all batch results fs) ! i = fs ! i"
  by (induction batch results fs rule: resolve_all.induct) (auto simp: settle_nth)

text \<open>What a collector step does to the items and to the futures that it does not answer.\<close>

lemma collector_step_live:
  assumes "collector_event e" and "sched_step e s = Some s'" and "distinct (map snd (live s))"
  shows "length (bs_futures s') = length (bs_futures s)" "evolves (bs_futures s) (bs_futures s')"
    "\<exists>done. live s = done @ live s' \<and>
      (\<forall>i<length (bs_futures s). i \<notin> set (map snd done) \<longrightarrow> bs_futures s' ! i = bs_futures s ! i)"
proof -
  have "length (bs_futures s') = length (bs_futures s) \<and> evolves (bs_futures s) (bs_futures s') \<and>
    (\<exists>done. live s = done @ live s' \<and>
      (\<forall>i<length (bs_futures s). i \<notin> set (map snd done) \<longrightarrow> bs_futures s' ! i = bs_futures s ! i))"
  proof (cases e)
    case First
    then show ?thesis
      using assms by (auto simp: collect_first_def live_def in_hand_def split: bool.splits phase.splits list.splits)
  next
    case More
    then show ?thesis
      using assms by (auto simp: collect_more_def live_def in_hand_def split: phase.splits list.splits if_splits)
  next
    case Close
    then show ?thesis
      using assms by (auto simp: close_batch_def drain_eq live_def in_hand_def split: phase.splits)
  next
    case (Process res)
    then obtain b where b: "bs_phase s = Forwarding b"
      using assms(2) by (auto simp: process_batch_def split: phase.splits)
    have "bs_queue s' = bs_queue s \<and> bs_phase s' = Waiting \<and> length (bs_futures s') = length (bs_futures s) \<and>
      evolves (bs_futures s) (bs_futures s') \<and>
      (\<forall>i<length (bs_futures s). i \<notin> set (map snd b) \<longrightarrow> bs_futures s' ! i = bs_futures s ! i)"
    proof (cases res)
      case (Inl x)
      then show ?thesis
        using assms(1,2) b Process fold_settle_other [of _ "map snd b" _ "bs_futures s"]
        by (auto simp: process_batch_def collector_event_def cancels_def fail_all_def evolves_fold_settle)
    next
      case (Inr results)
      then show ?thesis
        using assms(2) b Process resolve_all_other [of _ b "bs_futures s" results]
          fold_settle_other [of _ "map snd b" _ "fst (resolve_all b results (bs_futures s))"]
          evolves_trans [OF resolve_all_evolves fail_all_evolves(1)]
        by (auto simp: process_batch_def case_prod_unfold Let_def fail_all_def resolve_all_length
            resolve_all_evolves)
    qed
    then show ?thesis using b by (auto simp: live_def in_hand_def)
  qed (use assms in \<open>simp_all add: collector_event_def\<close>)
  then show "length (bs_futures s') = length (bs_futures s)" "evolves (bs_futures s) (bs_futures s')"
    "\<exists>done. live s = done @ live s' \<and>
      (\<forall>i<length (bs_futures s). i \<notin> set (map snd done) \<longrightarrow> bs_futures s' ! i = bs_futures s ! i)" by blast+
qed


text \<open>The collector only takes items off the queue.\<close>

lemma collector_step_queue:
  "collector_event e \<Longrightarrow> sched_step e s = Some s' \<Longrightarrow> length (bs_queue s') \<le> length (bs_queue s)"
  by (cases e) (auto simp: collector_event_def collect_first_def collect_more_def close_batch_def drain_eq
      process_batch_def case_prod_unfold Let_def split: bool.splits phase.splits list.splits if_splits sum.splits)

section \<open>The invariant of the composition\<close>

text \<open>
  A worker that waits is busy with the request whose item carries the future it waits for; a
  busy worker waits; a batch future that is not done has a worker waiting for it; and until
  the pool stops, so does every item in the scheduler.
\<close>

definition waits_ok :: "batched \<Rightarrow> bool" where
  "waits_ok s \<longleftrightarrow> (\<forall>w i. awaiting s w = Some i \<longrightarrow>
     w < length (workers (bp_pool s)) \<and> i < length (bs_futures (bp_sched s)) \<and>
     (\<exists>r j item. workers (bp_pool s) ! w = Busy r j \<and> batch_item_of r j = Some item \<and>
       (\<forall>x\<in>set (live (bp_sched s)). snd x = i \<longrightarrow> fst x = item)))"

definition busy_waits :: "batched \<Rightarrow> bool" where
  "busy_waits s \<longleftrightarrow> (\<forall>w<length (workers (bp_pool s)).
     awaiting s w = None \<longrightarrow> (\<forall>r j. workers (bp_pool s) ! w \<noteq> Busy r j))"

definition pending_awaited :: "batched \<Rightarrow> bool" where
  "pending_awaited s \<longleftrightarrow> (\<forall>i<length (bs_futures (bp_sched s)).
     bs_futures (bp_sched s) ! i = Pending \<longrightarrow> (\<exists>w. awaiting s w = Some i))"

definition live_pending :: "batched \<Rightarrow> bool" where
  "live_pending s \<longleftrightarrow> workers (bp_pool s) = [] \<or>
     (\<forall>x\<in>set (live (bp_sched s)). bs_futures (bp_sched s) ! snd x = Pending)"

definition waits_inv :: "int \<Rightarrow> batched \<Rightarrow> bool" where
  "waits_inv n s \<longleftrightarrow> waits_ok s \<and> busy_waits s \<and> pending_awaited s \<and> live_pending s \<and>
     length (workers (bp_pool s)) \<le> nat n"

lemmas waits_defs = waits_inv_def waits_ok_def busy_waits_def pending_awaited_def live_pending_def

text \<open>Each item in the scheduler keeps a worker waiting, so there are no more items than workers.\<close>

lemma live_bounded:
  assumes "waits_inv n s" and "workers (bp_pool s) \<noteq> []"
    and "distinct (map snd (live (bp_sched s)))"
    and "set (map snd (live (bp_sched s))) \<subseteq> {..<length (bs_futures (bp_sched s))}"
  shows "length (live (bp_sched s)) \<le> nat n"
proof -
  let ?W = "{..<length (workers (bp_pool s))}" and ?F = "set (map snd (live (bp_sched s)))"
  have "?F \<subseteq> (\<lambda>w. the (awaiting s w)) ` ?W"
  proof
    fix i assume i: "i \<in> ?F"
    then have "bs_futures (bp_sched s) ! i = Pending" "i < length (bs_futures (bp_sched s))"
      using assms(1,2,4) by (auto simp: waits_defs)
    then obtain w where "awaiting s w = Some i" using assms(1) by (auto simp: waits_defs)
    moreover from this have "w \<in> ?W" using assms(1) by (auto simp: waits_defs)
    ultimately show "i \<in> (\<lambda>w. the (awaiting s w)) ` ?W" by force
  qed
  then have "card ?F \<le> card ?W" by (meson card_image_le card_mono finite_imageI finite_lessThan order_trans)
  then show ?thesis using distinct_card [OF assms(3)] assms(1) by (simp add: waits_inv_def)
qed

lemma poll_running_workers:
  assumes "w < length (workers p)"
  shows "length (workers (fst (worker_poll deq now w p z))) = length (workers p)"
    "i \<noteq> w \<Longrightarrow> workers (fst (worker_poll deq now w p z)) ! i = workers p ! i"
  using assms
  by (auto simp: worker_poll_def Let_def case_prod_unfold split: sum.splits option.splits)

lemma finish_workers:
  "length (workers (worker_finish res now w p)) = length (workers p)"
  "i \<noteq> w \<Longrightarrow> workers (worker_finish res now w p) ! i = workers p ! i"
  by (auto simp: worker_finish_def split: sum.splits worker.splits)

lemma handler_step_workers:
  "handler_event e \<Longrightarrow> pool_step e p p' \<Longrightarrow> workers p' = workers p"
  by (erule pool_step.cases)
    (auto simp: handler_event_def register_request_def cancel_request_def case_prod_unfold Let_def)

lemma batched_poll_cases:
  assumes "batched_poll res now w s = Some s'"
  obtains (plain) "s' = s\<lparr>bp_pool := fst (worker_poll (\<lambda>z. (res, z)) now w (bp_pool s) ())\<rparr>"
      "\<And>r j. workers (bp_pool s') ! w \<noteq> Busy r j"
  | (submitted) p r j item where "p = fst (worker_poll (\<lambda>z. (res, z)) now w (bp_pool s) ())"
      "workers p ! w = Busy r j" "batch_item_of r j = Some item"
      "s' = s\<lparr>bp_pool := p, bp_sched := snd (submit item (bp_sched s)),
              awaiting := (awaiting s)(w := Some (length (bs_futures (bp_sched s))))\<rparr>"
proof (cases "workers (fst (worker_poll (\<lambda>z. (res, z)) now w (bp_pool s) ())) ! w")
  case (Busy r j)
  then obtain item where item: "batch_item_of r j = Some item"
    using assms by (auto simp: batched_poll_def Let_def split: option.splits)
  show thesis
    by (rule submitted [OF refl Busy item])
      (use assms Busy item in \<open>simp add: batched_poll_def submit_def create_future_def\<close>)
next
  case Idle
  with assms have "s' = s\<lparr>bp_pool := fst (worker_poll (\<lambda>z. (res, z)) now w (bp_pool s) ())\<rparr>"
    by (simp add: batched_poll_def)
  then show thesis by (rule plain) (simp add: Idle \<open>s' = _\<close>)
next
  case Exited
  with assms have "s' = s\<lparr>bp_pool := fst (worker_poll (\<lambda>z. (res, z)) now w (bp_pool s) ())\<rparr>"
    by (simp add: batched_poll_def)
  then show thesis by (rule plain) (simp add: Exited \<open>s' = _\<close>)
qed

lemma submit_live:
  "live (snd (submit item s)) = live s @ [(item, length (bs_futures s))]"
  "bs_futures (snd (submit item s)) = bs_futures s @ [Pending]"
  by (simp_all add: submit_def create_future_def live_def in_hand_def)


lemma waits_busy:
  assumes "waits_inv n s" and "awaiting s w = Some i"
  obtains r j item where "w < length (workers (bp_pool s))" "i < length (bs_futures (bp_sched s))"
    "workers (bp_pool s) ! w = Busy r j" "batch_item_of r j = Some item"
    "\<And>x. x \<in> set (live (bp_sched s)) \<Longrightarrow> snd x = i \<Longrightarrow> fst x = item"
  using assms unfolding waits_inv_def waits_ok_def by meson

lemma waits_inv_pool:
  assumes "waits_inv n s" and "length (workers p) = length (workers (bp_pool s))"
    and "\<And>w. awaiting s w \<noteq> None \<Longrightarrow> workers p ! w = workers (bp_pool s) ! w"
    and "\<And>w r j. w < length (workers p) \<Longrightarrow> awaiting s w = None \<Longrightarrow> workers p ! w \<noteq> Busy r j"
  shows "waits_inv n (s\<lparr>bp_pool := p\<rparr>)"
proof -
  have "workers p = [] \<longleftrightarrow> workers (bp_pool s) = []" using assms(2) by (metis length_0_conv)
  then show ?thesis using assms by (auto simp: waits_defs)
qed

lemma waits_inv_submitted:
  assumes inv: "waits_inv n s" and w: "w < length (workers (bp_pool s))" "awaiting s w = None"
    and p: "length (workers p) = length (workers (bp_pool s))"
      "\<And>i. i \<noteq> w \<Longrightarrow> workers p ! i = workers (bp_pool s) ! i"
    and busy: "workers p ! w = Busy r j" "batch_item_of r j = Some item"
    and range: "set (map snd (live (bp_sched s))) \<subseteq> {..<length (bs_futures (bp_sched s))}"
  shows "waits_inv n (s\<lparr>bp_pool := p, bp_sched := snd (submit item (bp_sched s)),
    awaiting := (awaiting s)(w := Some (length (bs_futures (bp_sched s))))\<rparr>)"
proof -
  let ?N = "length (bs_futures (bp_sched s))"
  have below: "x \<in> set (live (bp_sched s)) \<Longrightarrow> snd x < ?N" for x using range by auto
  have free: "awaiting s v = Some i \<Longrightarrow> v \<noteq> w \<and> i < ?N" for v i using inv w by (auto simp: waits_defs)
  let ?s = "s\<lparr>bp_pool := p, bp_sched := snd (submit item (bp_sched s)), awaiting := (awaiting s)(w := Some ?N)\<rparr>"
  have "waits_ok ?s"
    using inv w p busy below by (fastforce simp: waits_defs submit_live)
  moreover have "busy_waits ?s"
    using inv p busy by (auto simp: waits_defs)
  moreover have "pending_awaited ?s"
    unfolding pending_awaited_def
  proof (intro allI impI)
    fix i assume i: "i < length (bs_futures (bp_sched ?s))" "bs_futures (bp_sched ?s) ! i = Pending"
    show "\<exists>v. awaiting ?s v = Some i"
    proof (cases "i = ?N")
      case False
      then have "i < ?N" "bs_futures (bp_sched s) ! i = Pending" using i by (simp_all add: submit_live nth_append)
      then obtain v where "awaiting s v = Some i" using inv by (auto simp: waits_defs)
      then show ?thesis using free [of v i] by auto
    qed auto
  qed
  moreover have "live_pending ?s"
  proof -
    have "workers (bp_pool s) \<noteq> []" using w(1) by auto
    then show ?thesis using inv below by (auto simp: waits_defs submit_live nth_append)
  qed
  ultimately show ?thesis using inv p(1) by (simp add: waits_inv_def)
qed

lemma waits_inv_work:
  assumes inv: "waits_inv n s" and w: "w < length (workers (bp_pool s))" "workers (bp_pool s) ! w = Idle"
    and step: "batched_poll res now w s = Some s'"
    and range: "set (map snd (live (bp_sched s))) \<subseteq> {..<length (bs_futures (bp_sched s))}"
  shows "waits_inv n s'"
proof -
  have free: "awaiting s w = None"
    using waits_busy [OF inv] w(2) by (metis not_None_eq worker.distinct(1))
  note ws = poll_running_workers [OF w(1), where deq = "\<lambda>z. (res, z)" and now = now and z = "()"]
  show ?thesis
  proof (rule batched_poll_cases [OF step])
    assume s': "s' = s\<lparr>bp_pool := fst (worker_poll (\<lambda>z. (res, z)) now w (bp_pool s) ())\<rparr>"
      and idle: "\<And>r j. workers (bp_pool s') ! w \<noteq> Busy r j"
    show ?thesis
      unfolding s'
    proof (rule waits_inv_pool [OF inv ws(1)])
      fix v
      show "awaiting s v \<noteq> None \<Longrightarrow> workers (fst (worker_poll (\<lambda>z. (res, z)) now w (bp_pool s) ())) ! v =
          workers (bp_pool s) ! v"
        using free ws(2) by metis
      fix r j
      assume "v < length (workers (fst (worker_poll (\<lambda>z. (res, z)) now w (bp_pool s) ())))" "awaiting s v = None"
      then show "workers (fst (worker_poll (\<lambda>z. (res, z)) now w (bp_pool s) ())) ! v \<noteq> Busy r j"
        using idle inv ws unfolding s' by (cases "v = w") (auto simp: waits_defs)
    qed
  next
    fix p r j item
    assume "p = fst (worker_poll (\<lambda>z. (res, z)) now w (bp_pool s) ())"
      and "workers p ! w = Busy r j" "batch_item_of r j = Some item"
      and "s' = s\<lparr>bp_pool := p, bp_sched := snd (submit item (bp_sched s)),
          awaiting := (awaiting s)(w := Some (length (bs_futures (bp_sched s))))\<rparr>"
    then show ?thesis using waits_inv_submitted [OF inv w(1) free _ _ _ _ range, of p] ws by simp
  qed
qed

lemma waits_inv_deliver:
  assumes inv: "waits_inv n s" and step: "batched_finish now w s = Some s'"
  shows "waits_inv n s'"
proof -
  obtain i res where i: "awaiting s w = Some i" "awaited (bs_futures (bp_sched s) ! i) = Some res"
    and s': "s' = s\<lparr>bp_pool := worker_finish res now w (bp_pool s), awaiting := (awaiting s)(w := None)\<rparr>"
    using step by (auto simp: batched_finish_def split: option.splits)
  obtain r j where w: "w < length (workers (bp_pool s))" and b: "workers (bp_pool s) ! w = Busy r j"
    by (rule waits_busy [OF inv i(1)])
  have not_pending: "bs_futures (bp_sched s) ! i \<noteq> Pending" using i(2) by (auto simp: awaited_def)
  note ws = finish_workers [where res = res and now = now and w = w and p = "bp_pool s"]
  have idle: "workers (worker_finish res now w (bp_pool s)) ! w \<noteq> Busy r' j'" for r' j'
    using w b by (auto simp: worker_finish_def split: sum.split)
  have "workers (bp_pool s) \<noteq> []" using w by auto
  moreover have "busy_waits s'"
    using inv ws idle unfolding s' by (auto simp: waits_defs split: if_splits)
  moreover have "pending_awaited s'"
    unfolding pending_awaited_def
  proof (intro allI impI)
    fix k assume k: "k < length (bs_futures (bp_sched s'))" "bs_futures (bp_sched s') ! k = Pending"
    then obtain v where v: "awaiting s v = Some k" using inv unfolding s' by (auto simp: waits_defs)
    then have "v \<noteq> w" using i(1) k(2) not_pending unfolding s' by auto
    then show "\<exists>v. awaiting s' v = Some k" using v unfolding s' by auto
  qed
  moreover have "waits_ok s'"
    unfolding waits_ok_def
  proof (intro allI impI)
    fix v k assume "awaiting s' v = Some k"
    then have v: "awaiting s v = Some k" "v \<noteq> w" unfolding s' by (auto split: if_splits)
    show "v < length (workers (bp_pool s')) \<and> k < length (bs_futures (bp_sched s')) \<and>
        (\<exists>r j item. workers (bp_pool s') ! v = Busy r j \<and> batch_item_of r j = Some item \<and>
          (\<forall>x\<in>set (live (bp_sched s')). snd x = k \<longrightarrow> fst x = item))"
      by (rule waits_busy [OF inv v(1)]) (use ws(1) ws(2) [OF v(2)] in \<open>simp add: s'\<close>)
  qed
  ultimately show ?thesis
    using inv ws(1) unfolding s' by (auto simp: waits_defs)
qed

lemma waits_inv_collect:
  assumes inv: "waits_inv n s" and e: "collector_event e" and step: "sched_step e (bp_sched s) = Some sc"
    and distinct: "distinct (map snd (live (bp_sched s)))"
    and range: "set (map snd (live (bp_sched s))) \<subseteq> {..<length (bs_futures (bp_sched s))}"
  shows "waits_inv n (s\<lparr>bp_sched := sc\<rparr>)"
proof -
  note post = collector_step_live [OF e step distinct]
  obtain answered where split: "live (bp_sched s) = answered @ live sc"
    and other: "\<And>i. i < length (bs_futures (bp_sched s)) \<Longrightarrow> i \<notin> set (map snd answered) \<Longrightarrow>
      bs_futures sc ! i = bs_futures (bp_sched s) ! i"
    using post(3) by blast
  have "bs_futures sc ! snd x = bs_futures (bp_sched s) ! snd x" if "x \<in> set (live sc)" for x
    using that distinct range by (intro other) (auto simp: split)
  then have "live_pending (s\<lparr>bp_sched := sc\<rparr>)"
    using inv by (auto simp: waits_defs split)
  moreover have "pending_awaited (s\<lparr>bp_sched := sc\<rparr>)"
    using inv evolves_done [OF post(2)] post(1) by (simp add: waits_defs future_done_def) metis
  moreover have "waits_ok (s\<lparr>bp_sched := sc\<rparr>)"
    unfolding waits_ok_def
  proof (intro allI impI)
    fix v k assume "awaiting (s\<lparr>bp_sched := sc\<rparr>) v = Some k"
    then have v: "awaiting s v = Some k" by simp
    show "v < length (workers (bp_pool (s\<lparr>bp_sched := sc\<rparr>))) \<and>
        k < length (bs_futures (bp_sched (s\<lparr>bp_sched := sc\<rparr>))) \<and>
        (\<exists>r j item. workers (bp_pool (s\<lparr>bp_sched := sc\<rparr>)) ! v = Busy r j \<and> batch_item_of r j = Some item \<and>
          (\<forall>x\<in>set (live (bp_sched (s\<lparr>bp_sched := sc\<rparr>))). snd x = k \<longrightarrow> fst x = item))"
      by (rule waits_busy [OF inv v]) (simp add: post(1) split)
  qed
  ultimately show ?thesis using inv by (simp add: waits_inv_def busy_waits_def)
qed

lemma batched_stop_settles:
  assumes inv: "waits_inv n s" and i: "i < length (bs_futures (bp_sched s))"
  shows "future_done (bs_futures (bp_sched (batched_stop s))) i"
proof (cases "bs_futures (bp_sched s) ! i = Pending")
  case True
  then obtain w where w: "awaiting s w = Some i" using inv i by (auto simp: waits_defs)
  have "w < length (workers (bp_pool s))" by (rule waits_busy [OF inv w])
  then have "i \<in> set (awaited_futures s)"
    using w by (force simp: awaited_futures_def map_filter_def)
  from fold_settle_done [OF this i] show ?thesis by (simp add: batched_stop_def)
next
  case False
  then have "future_done (bs_futures (bp_sched s)) i" using i by (simp add: future_done_def)
  from evolves_done [OF evolves_fold_settle this] show ?thesis by (simp add: batched_stop_def)
qed

lemma waits_inv_stop:
  assumes inv: "waits_inv n s" shows "waits_inv n (batched_stop s)"
  using batched_stop_settles [OF inv]
  by (auto simp: waits_defs batched_stop_def pool_stop_def future_done_def)

text \<open>The stop of the composition serves both kinds of waiters: handlers, and workers.\<close>

interpretation handlers_side: future_owner "\<lambda>_. True" "\<lambda>s. futures (bp_pool s)" "\<lambda>s. orphaned (bp_pool s)" batched_stop
  by unfold_locales (simp_all add: batched_stop_def pool_owner.halt_settles pool_owner.halt_loses
      pool_owner.halt_evolves pool_owner.halt_length)

interpretation workers_side: future_owner "waits_inv n" "\<lambda>s. bs_futures (bp_sched s)" "\<lambda>_. {}" batched_stop
  by unfold_locales (rule batched_stop_settles, assumption+, simp_all add: batched_stop_def evolves_fold_settle)

section \<open>Reachable states\<close>

lemma batched_step_parts:
  assumes "batched_step e s s'" and inv: "waits_inv n s"
    and pool: "pool_reachable cb n (bp_pool s)" and sched: "sched_reachable m subs batches (bp_sched s)"
  shows "pool_reachable cb n (bp_pool s') \<and>
    (\<exists>batches. sched_reachable m (subs @ arrivals s s') batches (bp_sched s'))"
  using assms(1)
proof (cases rule: batched_step.cases)
  case (request e p)
  then show ?thesis using pool_reachable.step [OF pool] sched by (auto simp: arrivals_def)
next
  case (work w res now)
  have "pool_reachable cb n (fst (worker_poll (\<lambda>z. (res, z)) now w (bp_pool s) ()))"
    by (rule pool_reachable.step [OF pool pool_step.poll [OF work(2,3)]])
  moreover have "sched_reachable m (subs @ [(item, length (bs_futures (bp_sched s)))]) batches
      (snd (submit item (bp_sched s)))" for item
    using sched_reachable.step [OF sched, of "Submit item"] by (simp add: queued_by_def forwarded_def)
  moreover have "bs_queue (snd (submit item (bp_sched s))) =
      bs_queue (bp_sched s) @ [(item, length (bs_futures (bp_sched s)))]" for item
    by (simp add: submit_def create_future_def)
  ultimately show ?thesis
    using sched by (cases rule: batched_poll_cases [OF work(4)]) (auto simp: arrivals_def)
next
  case (deliver now w)
  then obtain i res where i: "awaiting s w = Some i"
    and s': "s' = s\<lparr>bp_pool := worker_finish res now w (bp_pool s), awaiting := (awaiting s)(w := None)\<rparr>"
    by (auto simp: batched_finish_def split: option.splits)
  obtain r j where busy: "w < length (workers (bp_pool s))" "workers (bp_pool s) ! w = Busy r j"
    by (rule waits_busy [OF inv i])
  have "pool_reachable cb n (worker_finish res now w (bp_pool s))"
    by (rule pool_reachable.step [OF pool pool_step.finish [OF busy]])
  then show ?thesis using sched by (auto simp: s' arrivals_def)
next
  case (collect e sc)
  have "is_Exception x" if "e = Process (Inl x)" for x
    using collect(3) that by (simp add: collector_event_def cancels_def)
  moreover have "queued_by e (bp_sched s) = []" "arrivals s s' = []"
    using collect(3) collector_step_queue [OF collect(3,4)] collect(2)
    by (simp_all add: queued_by_def arrivals_def collector_event_def split: sched_event.splits)
  ultimately show ?thesis using sched_reachable.step [OF sched collect(4)] pool collect(2) by auto
next
  case shutdown
  have "pool_reachable cb n (pool_stop (bp_pool s))" by (rule pool_reachable.step [OF pool pool_step.stop])
  then show ?thesis
    using sched_reachable_abandon_all [OF sched, of "awaited_futures s"] shutdown
    by (auto simp: batched_stop_def arrivals_def)
qed

lemma batched_step_evolves:
  assumes "batched_step e s s'" and sched: "sched_reachable m subs batches (bp_sched s)"
  shows "evolves (bs_futures (bp_sched s)) (bs_futures (bp_sched s'))"
  using assms(1)
proof (cases rule: batched_step.cases)
  case (work w res now)
  then show ?thesis
    using evolves_create [of "bs_futures (bp_sched s)"]
    by (cases rule: batched_poll_cases [OF work(4)]) (auto simp: submit_def create_future_def)
next
  case (collect ev sc)
  then show ?thesis using collector_step_live(2) [OF collect(3,4) sched_live_distinct(1) [OF sched]] by simp
qed (auto simp: batched_finish_def batched_stop_def evolves_fold_settle split: option.splits)

lemma batched_step_inv:
  assumes step: "batched_step e s s'" and inv: "waits_inv n s"
    and sched: "sched_reachable m subs batches (bp_sched s)"
  shows "waits_inv n s'"
    and "workers (bp_pool s') = [] \<Longrightarrow> length (live (bp_sched s')) \<le> length (live (bp_sched s))"
proof -
  note live = sched_live_distinct [OF sched]
  have "waits_inv n s' \<and>
    (workers (bp_pool s') = [] \<longrightarrow> length (live (bp_sched s')) \<le> length (live (bp_sched s)))"
    using step
  proof (cases rule: batched_step.cases)
    case (request e p)
    have ws: "workers p = workers (bp_pool s)" by (rule handler_step_workers [OF request(3,4)])
    have "waits_inv n s'"
      unfolding request(2) by (rule waits_inv_pool [OF inv]) (use inv ws in \<open>auto simp: waits_defs\<close>)
    then show ?thesis by (simp add: request(2))
  next
    case (work w res now)
    have "workers (bp_pool s') \<noteq> []"
      by (rule batched_poll_cases [OF work(4)])
        (use poll_running_workers(1) [OF work(2), where deq = "\<lambda>z. (res, z)" and now = now and z = "()"] work(2)
          in \<open>auto simp flip: length_greater_0_conv\<close>)
    then show ?thesis using waits_inv_work [OF inv work(2-4) live(2)] by simp
  next
    case (deliver now w)
    then show ?thesis
      using waits_inv_deliver [OF inv deliver(2)] by (auto simp: batched_finish_def split: option.splits)
  next
    case (collect e sc)
    then show ?thesis
      using waits_inv_collect [OF inv collect(3,4) live] collector_step_live(3) [OF collect(3,4) live(1)] by auto
  next
    case shutdown
    then show ?thesis using waits_inv_stop [OF inv] by (simp add: batched_stop_def live_def in_hand_def)
  qed
  then show "waits_inv n s'"
    and "workers (bp_pool s') = [] \<Longrightarrow> length (live (bp_sched s')) \<le> length (live (bp_sched s))" by blast+
qed

lemma batched_reachable_inv:
  "batched_reachable cb n m s \<Longrightarrow> pool_reachable cb n (bp_pool s) \<and>
     (\<exists>subs batches. sched_reachable m subs batches (bp_sched s)) \<and>
     waits_inv n s \<and> length (live (bp_sched s)) \<le> nat n"
proof (induction rule: batched_reachable.induct)
  case init
  have "waits_inv n (batched_start cb n m)"
    by (auto simp: waits_defs batched_start_def pool_start_def pool_init_def scheduler_start_def
        scheduler_init_def live_def in_hand_def)
  moreover have "pool_reachable cb n (bp_pool (batched_start cb n m))"
    using pool_reachable.init by (simp add: batched_start_def)
  moreover have "sched_reachable m [] [] (bp_sched (batched_start cb n m))"
    using sched_reachable.init by (simp add: batched_start_def)
  moreover have "live (bp_sched (batched_start cb n m)) = []"
    by (simp add: batched_start_def scheduler_start_def scheduler_init_def live_def in_hand_def)
  ultimately show ?case by force
next
  case (step s e s')
  then obtain subs batches where sched: "sched_reachable m subs batches (bp_sched s)" by blast
  have parts: "pool_reachable cb n (bp_pool s')" "\<exists>subs batches. sched_reachable m subs batches (bp_sched s')"
    using batched_step_parts [OF step.hyps(2) _ _ sched] step.IH by blast+
  have inv: "waits_inv n s'" using batched_step_inv(1) [OF step.hyps(2) _ sched] step.IH by blast
  have "length (live (bp_sched s')) \<le> nat n"
  proof (cases "workers (bp_pool s') = []")
    case True
    then show ?thesis using batched_step_inv(2) [OF step.hyps(2) _ sched] step.IH by fastforce
  next
    case False
    then show ?thesis using live_bounded [OF inv] sched_live_distinct parts(2) by blast
  qed
  then show ?case using parts inv by blast
qed

section \<open>Histories\<close>

text \<open>What a step of the composition takes out of the registry without settling it.\<close>

definition batched_overwritten :: "batched_event \<Rightarrow> batched \<Rightarrow> nat set" where
  "batched_overwritten e s = (case e of Request pe \<Rightarrow> overwritten pe (bp_pool s) | _ \<Rightarrow> {})"

lemma batched_step_registry:
  assumes "batched_step e s s'" and inv: "waits_inv n s"
    and pool: "pool_inv (bp_pool s)" and reg: "registry_ok Os (bp_pool s)"
  shows "registry_ok (Os \<union> batched_overwritten e s) (bp_pool s')"
  using assms(1)
proof (cases rule: batched_step.cases)
  case (request pe p)
  then show ?thesis using pool_step_registry [OF request(4) pool reg] by (simp add: batched_overwritten_def)
next
  case (work w res now)
  have "registry_ok Os (fst (worker_poll (\<lambda>z. (res, z)) now w (bp_pool s) ()))"
    using pool_step_registry [OF pool_step.poll [OF work(2,3)] pool reg] by (simp add: overwritten_def)
  then show ?thesis
    using work(1) by (cases rule: batched_poll_cases [OF work(4)]) (auto simp: batched_overwritten_def)
next
  case (deliver now w)
  then obtain i res where i: "awaiting s w = Some i"
    and s': "s' = s\<lparr>bp_pool := worker_finish res now w (bp_pool s), awaiting := (awaiting s)(w := None)\<rparr>"
    by (auto simp: batched_finish_def split: option.splits)
  obtain r j where busy: "w < length (workers (bp_pool s))" "workers (bp_pool s) ! w = Busy r j"
    by (rule waits_busy [OF inv i])
  have "registry_ok Os (worker_finish res now w (bp_pool s))"
    using pool_step_registry [OF pool_step.finish [OF busy] pool reg] by (simp add: overwritten_def)
  then show ?thesis using deliver(1) by (simp add: s' batched_overwritten_def)
qed (use reg in \<open>simp_all add: batched_overwritten_def batched_stop_def registry_stop\<close>)

lemma batched_history_reachable: "batched_history cb n m subs s \<Longrightarrow> batched_reachable cb n m s"
  by (induction rule: batched_history.induct) (blast intro: batched_reachable.intros)+

lemma batched_reachable_history: "batched_reachable cb n m s \<Longrightarrow> \<exists>subs. batched_history cb n m subs s"
  by (induction rule: batched_reachable.induct) (blast intro: batched_history.intros)+

lemma batch_item_id: "batch_item_of r j = Some item \<Longrightarrow> bi_request_id item = r"
  by (auto simp: batch_item_of_def split: json.splits option.splits)

text \<open>Each waiting worker waits for its own item, of all those ever submitted.\<close>

definition submitted_ok :: "queued list \<Rightarrow> batched \<Rightarrow> bool" where
  "submitted_ok subs s \<longleftrightarrow>
     (\<forall>w i. awaiting s w = Some i \<longrightarrow> (\<exists>r j item. workers (bp_pool s) ! w = Busy r j \<and>
        batch_item_of r j = Some item \<and> (item, i) \<in> set subs)) \<and>
     (\<forall>w w'. awaiting s w \<noteq> None \<and> awaiting s w = awaiting s w' \<longrightarrow> w = w')"

text \<open>A worker that waits is left alone until its own turn or the shutdown.\<close>

lemma waiting_kept:
  assumes step: "batched_step e s s'" and inv: "waits_inv n s" and w: "awaiting s w = Some i"
    and e: "e \<noteq> Shutdown" "\<And>now. e \<noteq> Deliver w now"
  shows "awaiting s' w = Some i" "workers (bp_pool s') ! w = workers (bp_pool s) ! w"
proof -
  obtain r j where busy: "workers (bp_pool s) ! w = Busy r j" by (rule waits_busy [OF inv w])
  have "awaiting s' w = Some i \<and> workers (bp_pool s') ! w = workers (bp_pool s) ! w"
    using step
  proof (cases rule: batched_step.cases)
    case (request ev p)
    then show ?thesis using w handler_step_workers [OF request(3,4)] by simp
  next
    case (work v res now)
    then have "w \<noteq> v" using busy by auto
    then show ?thesis
      using w poll_running_workers(2) [OF work(2), of w "\<lambda>z. (res, z)" now "()"]
      by (cases rule: batched_poll_cases [OF work(4)]) auto
  next
    case (deliver now v)
    moreover from this have "w \<noteq> v" using e(2) by blast
    ultimately show ?thesis
      using w finish_workers(2) [of w v] by (auto simp: batched_finish_def split: option.splits)
  qed (use w e(1) in auto)
  then show "awaiting s' w = Some i" "workers (bp_pool s') ! w = workers (bp_pool s) ! w" by blast+
qed

text \<open>Only a worker's own turn starts its wait.\<close>

lemma waiting_starts:
  assumes step: "batched_step e s s'" and w: "awaiting s' w = Some i"
  shows "awaiting s w = Some i \<and> e \<noteq> Shutdown \<and> (\<forall>now. e \<noteq> Deliver w now) \<or>
    i = length (bs_futures (bp_sched s)) \<and> (\<forall>v. v \<noteq> w \<longrightarrow> awaiting s' v = awaiting s v) \<and>
    (\<exists>r j item. workers (bp_pool s') ! w = Busy r j \<and> batch_item_of r j = Some item \<and> arrivals s s' = [(item, i)])"
  using step
proof (cases rule: batched_step.cases)
  case (work v res now)
  show ?thesis
  proof (cases rule: batched_poll_cases [OF work(4)])
    case 1
    then show ?thesis using w work(1) by auto
  next
    case submitted: (2 p r j item)
    have "arrivals s s' = [(item, length (bs_futures (bp_sched s)))]"
      by (simp add: submitted(4) arrivals_def submit_def create_future_def)
    then show ?thesis
      using w work(1) submitted by (cases "w = v") auto
  qed
qed (use w in \<open>auto simp: batched_finish_def batched_stop_def split: option.splits if_splits\<close>)

lemma submitted_step:
  assumes step: "batched_step e s s'" and inv: "waits_inv n s" and ok: "submitted_ok subs s"
  shows "submitted_ok (subs @ arrivals s s') s'"
proof -
  have "\<exists>r j item. workers (bp_pool s') ! w = Busy r j \<and> batch_item_of r j = Some item \<and>
      (item, i) \<in> set (subs @ arrivals s s')" if w: "awaiting s' w = Some i" for w i
    using waiting_starts [OF step w]
  proof (elim disjE conjE)
    assume old: "awaiting s w = Some i" "e \<noteq> Shutdown" "\<forall>now. e \<noteq> Deliver w now"
    then obtain r j item where "workers (bp_pool s) ! w = Busy r j" "batch_item_of r j = Some item"
      "(item, i) \<in> set subs"
      using ok unfolding submitted_ok_def by blast
    then show ?thesis using waiting_kept(2) [OF step inv old(1,2)] old(3) by auto
  qed auto
  moreover have "w = w'" if w: "awaiting s' w = Some i" "awaiting s' w' = Some i" for w w' i
  proof -
    have old: "i < length (bs_futures (bp_sched s))" if "awaiting s v = Some i" for v
      by (rule waits_busy [OF inv that])
    show ?thesis
    proof (cases "awaiting s w = Some i \<and> awaiting s w' = Some i")
      case True
      then show ?thesis using ok unfolding submitted_ok_def by simp
    next
      case False
      then show ?thesis
        using waiting_starts [OF step w(1)] waiting_starts [OF step w(2)] old w by (metis less_irrefl)
    qed
  qed
  ultimately show ?thesis unfolding submitted_ok_def by (metis not_None_eq)
qed

lemma batched_history_inv:
  "batched_history cb n m subs s \<Longrightarrow> (\<exists>batches. sched_reachable m subs batches (bp_sched s)) \<and> submitted_ok subs s"
proof (induction rule: batched_history.induct)
  case init
  show ?case
    using sched_reachable.init by (auto simp: batched_start_def submitted_ok_def)
next
  case (step subs s e s')
  note inv = batched_reachable_inv [OF batched_history_reachable [OF step.hyps(1)]]
  then show ?case
    using step.IH batched_step_parts [OF step.hyps(2)] submitted_step [OF step.hyps(2)] by blast
qed

lemma meanwhile_kept:
  assumes "meanwhile w s s'" and "batched_reachable cb n m s" and w: "awaiting s w = Some i"
  shows "batched_reachable cb n m s' \<and> awaiting s' w = Some i \<and>
    workers (bp_pool s') ! w = workers (bp_pool s) ! w \<and>
    evolves (bs_futures (bp_sched s)) (bs_futures (bp_sched s'))"
  using assms(1) unfolding meanwhile_def
proof (induction rule: rtranclp_induct)
  case base
  then show ?case using assms(2) w by simp
next
  case (step t t')
  then obtain e where e: "e \<noteq> Shutdown" "\<And>now. e \<noteq> Deliver w now" "batched_step e t t'" by blast
  note inv = batched_reachable_inv [OF conjunct1 [OF step.IH]]
  show ?case
    using waiting_kept [OF e(3) _ _ e(1,2), of n i] inv step.IH batched_step_evolves [OF e(3)] evolves_trans
      batched_reachable.step [OF _ e(3)]
    by metis
qed

section \<open>Properties\<close>

text \<open>C20: The composition of pool and batch scheduler refines its parts: whatever workers, handlers,
  the collector and the shutdown do, the pool is in a state the pool alone can reach, and the
  scheduler in one it alone reaches on the items that the workers put into its queue, in their
  order; each worker is busy exactly when it waits for one batch future; that future is the one of
  the item submitted for the request the worker is busy with, and no other worker waits for it.\<close>

theorem batched_pool_refines_its_parts:
  assumes "batched_history cb n m subs s"
  shows "pool_reachable cb n (bp_pool s) \<and> (\<exists>batches. sched_reachable m subs batches (bp_sched s)) \<and>
    (\<forall>w < length (workers (bp_pool s)).
       (awaiting s w \<noteq> None) = (\<exists>r j. workers (bp_pool s) ! w = Busy r j)) \<and>
    (\<forall>w i. awaiting s w = Some i \<longrightarrow>
       (\<exists>r j item. workers (bp_pool s) ! w = Busy r j \<and> batch_item_of r j = Some item \<and>
          bi_request_id item = r \<and> i < length subs \<and> subs ! i = (item, i)) \<and>
       (\<forall>v. v \<noteq> w \<longrightarrow> awaiting s v \<noteq> Some i))"
proof -
  note hist = batched_history_inv [OF assms]
  then obtain batches where sched: "sched_reachable m subs batches (bp_sched s)" by blast
  note inv = batched_reachable_inv [OF batched_history_reachable [OF assms]]
  have busy: "(awaiting s w \<noteq> None) = (\<exists>r j. workers (bp_pool s) ! w = Busy r j)"
    if "w < length (workers (bp_pool s))" for w
    using inv that by (auto simp: waits_defs) fastforce
  have numbered: "map snd subs = [0..<length (bs_futures (bp_sched s))]"
    using sched_reachable_inv [OF sched] by (simp add: sched_inv_def)
  have own: "\<exists>r j item. workers (bp_pool s) ! w = Busy r j \<and> batch_item_of r j = Some item \<and>
      bi_request_id item = r \<and> i < length subs \<and> subs ! i = (item, i)" if w: "awaiting s w = Some i" for w i
  proof -
    obtain r j item where item: "workers (bp_pool s) ! w = Busy r j" "batch_item_of r j = Some item"
      "(item, i) \<in> set subs"
      using hist w unfolding submitted_ok_def by blast
    then obtain k where k: "k < length subs" "subs ! k = (item, i)" by (auto simp: in_set_conv_nth)
    then have "k = i" using numbered nth_map [OF k(1), of snd] by (metis add_0 length_map length_upt minus_nat.diff_0 nth_upt snd_conv)
    then show ?thesis using item k batch_item_id by blast
  qed
  have alone: "v \<noteq> w \<longrightarrow> awaiting s v \<noteq> Some i" if "awaiting s w = Some i" for v w i
    using hist that unfolding submitted_ok_def by (metis option.distinct(1))
  show ?thesis
    using inv busy own alone sched by blast
qed

text \<open>C25: Batches are bounded by the workers: since a worker waits for its batch item before it takes
  the next request, a batch never holds more items than there are workers, however large
  \<^verbatim>\<open>max_batch_size\<close> is; with the default of one worker every batch is a single request and
  nothing is ever batched.\<close>

theorem batches_are_bounded_by_workers:
  assumes "batched_reachable cb n m s"
    and "bs_phase (bp_sched s) = Collecting batch \<or> bs_phase (bp_sched s) = Forwarding batch"
  shows "batch \<noteq> [] \<and> int (length batch) \<le> max 1 m \<and> length batch + length (bs_queue (bp_sched s)) \<le> nat n"
proof -
  obtain subs batches where sched: "sched_reachable m subs batches (bp_sched s)"
    and bound: "length (live (bp_sched s)) \<le> nat n"
    using batched_reachable_inv [OF assms(1)] by blast
  have hand: "in_hand (bp_sched s) = batch" using assms(2) by (auto simp: in_hand_def)
  then show ?thesis
    using sched_reachable_inv [OF sched] bound assms(2) by (auto simp: sched_inv_def fits_batch_def live_def)
qed

abbreviation "demo_queue_item \<equiv> [(''request_id'', JStr ''r1''), (''prompt'', JStr ''hi''),
  (''max_tokens'', JInt 4), (''temperature'', JFloat 1), (''seed'', JNull)]"

abbreviation "demo_forwarding \<equiv>
  \<lparr>bp_pool = \<lparr>pending = [(''r1'', 0)], futures = [Pending], circuit_breaker = None,
     workers = [Busy ''r1'' (job_of demo_queue_item), Idle], running = True\<rparr>,
   bp_sched = \<lparr>max_batch_size = 8, bs_queue = [], bs_phase = Forwarding
     [(\<lparr>bi_request_id = ''r1'', bi_prompt = ''hi'', bi_max_tokens = 4, bi_temperature = 1, bi_seed = None\<rparr>, 0)],
     bs_futures = [Pending], bs_running = True\<rparr>,
   awaiting = (\<lambda>_. None)(0 := Some 0)\<rparr>"

lemma demo_forwarding_reachable: "batched_reachable None 2 8 demo_forwarding"
proof -
  let ?s0 = "batched_start None 2 8"
  let ?s1 = "?s0\<lparr>bp_pool := snd (register_request ''r1'' (bp_pool ?s0))\<rparr>"
  have r1: "batched_reachable None 2 8 ?s1"
    by (rule batched_reachable.step [OF batched_reachable.init batched_step.request [OF _ pool_step.register]])
      (simp_all add: handler_event_def batched_start_def pool_start_def pool_init_def)
  obtain s2 where s2: "batched_poll (Inr (Some demo_queue_item)) 5 0 ?s1 = Some s2"
    "s2 = demo_forwarding\<lparr>bp_sched := (bp_sched demo_forwarding)\<lparr>bs_phase := Waiting,
       bs_queue := [(\<lparr>bi_request_id = ''r1'', bi_prompt = ''hi'', bi_max_tokens = 4, bi_temperature = 1,
         bi_seed = None\<rparr>, 0)]\<rparr>\<rparr>"
    by (simp add: batched_poll_def worker_poll_def known_request_def item_get_def job_of_def batch_item_of_def
        batched_start_def pool_start_def pool_init_def scheduler_start_def scheduler_init_def
        register_request_def create_future_def submit_def numeral_2_eq_2)
  have "batched_step (Work 0 5 (Inr (Some demo_queue_item))) ?s1 s2"
    by (rule batched_step.work [OF _ _ s2(1)])
      (simp_all add: batched_start_def pool_start_def pool_init_def register_request_def create_future_def numeral_2_eq_2)
  note r2 = batched_reachable.step [OF r1 this]
  note r3 = batched_reachable.step [OF r2 batched_step.collect [of First]]
  note r4 = batched_reachable.step [OF r3 batched_step.collect [of Close]]
  show ?thesis
    using r4 by (simp add: s2(2) collector_event_def collect_first_def close_batch_def)
qed

lemma batched_pool_refines_its_parts_witness:
  "\<exists>subs. batched_history None 2 8 subs demo_forwarding \<and> 0 < length subs \<and>
    snd (subs ! 0) = 0 \<and> bi_request_id (fst (subs ! 0)) = ''r1''"
proof -
  obtain subs where subs: "batched_history None 2 8 subs demo_forwarding"
    using demo_forwarding_reachable batched_reachable_history by blast
  have "\<exists>r j item. workers (bp_pool demo_forwarding) ! 0 = Busy r j \<and> batch_item_of r j = Some item \<and>
      bi_request_id item = r \<and> 0 < length subs \<and> subs ! 0 = (item, 0)"
    using batched_pool_refines_its_parts [OF subs, THEN conjunct2, THEN conjunct2, THEN conjunct2,
        rule_format, of 0 0, THEN conjunct1] by simp
  then show ?thesis using subs by (intro exI [of _ subs]) auto
qed

lemma batches_are_bounded_by_workers_witness:
  "length (in_hand (bp_sched demo_forwarding)) \<le> nat 2"
  using batches_are_bounded_by_workers [OF demo_forwarding_reachable] by (simp add: in_hand_def)

text \<open>A worker whose batch future has its result goes on with it.\<close>

lemma finish_delivers:
  assumes "batched_reachable cb n m s" and "awaiting s w = Some i" and "workers (bp_pool s) ! w = Busy r j"
    and "bs_futures (bp_sched s) ! i = Resolved v"
  shows "\<exists>s'. batched_finish now w s = Some s' \<and>
      workers (bp_pool s') ! w = Idle \<and> r \<notin> set (keys (pending (bp_pool s'))) \<and>
      (\<forall>f. futures (bp_pool s') ! f =
        (if map_of (pending (bp_pool s)) r = Some f \<and> futures (bp_pool s) ! f = Pending
         then Resolved v else futures (bp_pool s) ! f))"
proof -
  have "w < length (workers (bp_pool s))"
    using batched_reachable_inv [OF assms(1)] waits_busy [OF _ assms(2)] by blast
  moreover have "f < length (futures (bp_pool s))" if "map_of (pending (bp_pool s)) r = Some f" for f
    using batched_reachable_inv [OF assms(1)] pool_reachable_inv map_of_SomeD [OF that]
    by (force simp: pool_inv_def)
  ultimately show ?thesis
    using assms(2-4)
    by (auto simp: batched_finish_def awaited_def worker_finish_def answer_futures answer_pending keys_delete
        settle_eq future_done_def nth_list_update split: option.split)
qed

text \<open>C7: A batched result reaches its own request: while the workers run and the model call of a
  batch returns, the item at each position belongs to one waiting worker, whose request it carries.
  After the batch has been settled, and after anything that then happens before this worker goes on
  (handlers register, time out or cancel, other workers take and answer requests, the collector
  forms and settles further batches; no shutdown, which cancels the worker), the worker goes on with
  the result at that position: the request's future gets it if it is still registered and waiting, a
  future that was settled in between keeps its outcome, and the worker is free.\<close>

theorem batched_result_reaches_its_request:
  assumes "batched_reachable cb n m s" and "workers (bp_pool s) \<noteq> []"
    and "bs_phase (bp_sched s) = Forwarding batch" and "length results = length batch"
    and "k < length batch"
  shows "\<exists>w r j sc. w < length (workers (bp_pool s)) \<and> workers (bp_pool s) ! w = Busy r j \<and>
    batch_item_of r j = Some (fst (batch ! k)) \<and> process_batch (Inr results) (bp_sched s) = Some sc \<and>
    (\<forall>s'. meanwhile w (s\<lparr>bp_sched := sc\<rparr>) s' \<longrightarrow>
      (\<exists>s''. batched_finish now w s' = Some s'' \<and>
        workers (bp_pool s'') ! w = Idle \<and> r \<notin> set (keys (pending (bp_pool s''))) \<and>
        (\<forall>f. futures (bp_pool s'') ! f =
          (if map_of (pending (bp_pool s')) r = Some f \<and> futures (bp_pool s') ! f = Pending
           then Resolved (results ! k) else futures (bp_pool s') ! f))))"
proof -
  obtain subs batches where sched: "sched_reachable m subs batches (bp_sched s)"
    and inv: "waits_inv n s" and pool: "pool_inv (bp_pool s)"
    using batched_reachable_inv [OF assms(1)] pool_reachable_inv by blast
  have live: "live (bp_sched s) = batch @ bs_queue (bp_sched s)" by (simp add: live_def in_hand_def assms(3))
  then have item: "batch ! k \<in> set (live (bp_sched s))" using assms(5) by simp
  let ?i = "snd (batch ! k)"
  have waiting: "bs_futures (bp_sched s) ! ?i = Pending" and range: "?i < length (bs_futures (bp_sched s))"
    using item inv assms(2) sched_live_distinct(2) [OF sched] by (auto simp: waits_defs)
  then obtain w where w: "awaiting s w = Some ?i" using inv by (auto simp: waits_defs)
  obtain r j where busy: "w < length (workers (bp_pool s))" "workers (bp_pool s) ! w = Busy r j"
    and sent: "batch_item_of r j = Some (fst (batch ! k))"
    by (rule waits_busy [OF inv w]) (use item in blast)
  have "distinct (map snd batch)" "\<forall>i\<in>set (map snd batch). i < length (bs_futures (bp_sched s))"
    using sched_live_distinct [OF sched] by (auto simp: live)
  then obtain sc where sc: "process_batch (Inr results) (bp_sched s) = Some sc"
    "bs_futures sc ! ?i = Resolved (results ! k)" "?i < length (bs_futures sc)"
    using resolve_all_nth [of batch results "bs_futures (bp_sched s)" k] assms(3-5) waiting range
      resolve_all_flag [of batch results "bs_futures (bp_sched s)"]
    by (auto simp: process_batch_def case_prod_unfold Let_def resolve_all_length)
  let ?t = "s\<lparr>bp_sched := sc\<rparr>"
  have "batched_step (Collect (Process (Inr results))) s ?t"
    by (rule batched_step.collect) (simp_all add: collector_event_def cancels_def sc(1))
  then have t: "batched_reachable cb n m ?t" by (rule batched_reachable.step [OF assms(1)])
  have "\<exists>s''. batched_finish now w s' = Some s'' \<and>
      workers (bp_pool s'') ! w = Idle \<and> r \<notin> set (keys (pending (bp_pool s''))) \<and>
      (\<forall>f. futures (bp_pool s'') ! f =
        (if map_of (pending (bp_pool s')) r = Some f \<and> futures (bp_pool s') ! f = Pending
         then Resolved (results ! k) else futures (bp_pool s') ! f))"
    if later: "meanwhile w ?t s'" for s'
  proof (rule finish_delivers)
    note kept = meanwhile_kept [OF later t, of ?i]
    show "batched_reachable cb n m s'" "awaiting s' w = Some ?i" "workers (bp_pool s') ! w = Busy r j"
      "bs_futures (bp_sched s') ! ?i = Resolved (results ! k)"
      using kept w busy(2) sc(2,3) evolves_done [of "bs_futures sc" "bs_futures (bp_sched s')" ?i]
      by (simp_all add: future_done_def)
  qed
  then show ?thesis using busy sent sc(1) by blast
qed

text \<open>The request is cancelled while its result is on its way: the future stays cancelled.\<close>

abbreviation "demo_result_sched \<equiv> the (process_batch (Inr [(''ok'', 1, 2)]) (bp_sched demo_forwarding))"
abbreviation "demo_cancelled \<equiv> demo_forwarding\<lparr>bp_sched := demo_result_sched,
  bp_pool := cancel_request ''r1'' (bp_pool demo_forwarding)\<rparr>"

lemma batched_result_reaches_its_request_witness:
  "(\<exists>s''. batched_finish 6 0 (demo_forwarding\<lparr>bp_sched := demo_result_sched\<rparr>) = Some s'' \<and>
     futures (bp_pool s'') ! 0 = Resolved (''ok'', 1, 2)) \<and>
   (\<exists>s''. batched_finish 6 0 demo_cancelled = Some s'' \<and>
     workers (bp_pool s'') ! 0 = Idle \<and> futures (bp_pool s'') ! 0 = Cancelled)"
proof -
  let ?t = "demo_forwarding\<lparr>bp_sched := demo_result_sched\<rparr>"
  let ?ends = "\<lambda>w r s' s''. batched_finish 6 w s' = Some s'' \<and>
        workers (bp_pool s'') ! w = Idle \<and> r \<notin> set (keys (pending (bp_pool s''))) \<and>
        (\<forall>f. futures (bp_pool s'') ! f =
          (if map_of (pending (bp_pool s')) r = Some f \<and> futures (bp_pool s') ! f = Pending
           then Resolved ([(''ok'', 1, 2)] ! 0) else futures (bp_pool s') ! f))"
  have "\<exists>w r j sc. w < length (workers (bp_pool demo_forwarding)) \<and> workers (bp_pool demo_forwarding) ! w = Busy r j \<and>
      batch_item_of r j = Some (fst ([(\<lparr>bi_request_id = ''r1'', bi_prompt = ''hi'', bi_max_tokens = 4,
        bi_temperature = 1, bi_seed = None\<rparr>, 0 :: nat)] ! 0)) \<and>
      process_batch (Inr [(''ok'', 1, 2)]) (bp_sched demo_forwarding) = Some sc \<and>
      (\<forall>s'. meanwhile w (demo_forwarding\<lparr>bp_sched := sc\<rparr>) s' \<longrightarrow> (\<exists>s''. ?ends w r s' s''))"
    by (rule batched_result_reaches_its_request [OF demo_forwarding_reachable]) simp_all
  then show ?thesis
  proof (elim exE conjE)
    fix w r j sc
    assume w: "w < length (workers (bp_pool demo_forwarding))" "workers (bp_pool demo_forwarding) ! w = Busy r j"
      and sent: "batch_item_of r j = Some (fst ([(\<lparr>bi_request_id = ''r1'', bi_prompt = ''hi'', bi_max_tokens = 4,
        bi_temperature = 1, bi_seed = None\<rparr>, 0 :: nat)] ! 0))"
      and sc: "process_batch (Inr [(''ok'', 1, 2)]) (bp_sched demo_forwarding) = Some sc"
      and later: "\<forall>s'. meanwhile w (demo_forwarding\<lparr>bp_sched := sc\<rparr>) s' \<longrightarrow> (\<exists>s''. ?ends w r s' s'')"
    have r: "r = ''r1''" using batch_item_id [OF sent] by simp
    have w0: "w = 0" using w by (cases "w = 0") (auto simp: less_Suc_eq)
    have "meanwhile 0 ?t ?t" by (simp add: meanwhile_def)
    moreover have "batched_step (Request (Cancel ''r1'')) ?t demo_cancelled"
      using batched_step.request [of "Cancel ''r1''" ?t "cancel_request ''r1'' (bp_pool ?t)"]
        pool_step.cancel [of "''r1''" "bp_pool ?t"]
      by (simp add: handler_event_def)
    then have "meanwhile 0 ?t demo_cancelled"
      unfolding meanwhile_def by (intro r_into_rtranclp) blast
    moreover have "sc = demo_result_sched" using sc by simp
    ultimately have "\<exists>s''. ?ends 0 ''r1'' ?t s''" "\<exists>s''. ?ends 0 ''r1'' demo_cancelled s''"
      using later unfolding r w0 by blast+
    then obtain a b where ab: "?ends 0 ''r1'' ?t a" "?ends 0 ''r1'' demo_cancelled b" by (elim exE)
    have "futures (bp_pool a) ! 0 = Resolved (''ok'', 1, 2)" using ab(1) by simp
    moreover have "futures (bp_pool b) ! 0 = futures (bp_pool demo_cancelled) ! 0"
      using ab(2) by (simp add: cancel_request_def answer_def)
    then have "futures (bp_pool b) ! 0 = Cancelled"
      by (simp add: cancel_request_def answer_def settle_eq future_done_def)
    ultimately show ?thesis using ab by blast
  qed
qed

end
