(* ===== verification/Streaming.thy ===== *)
theory Streaming
  imports Inference Py_Str
begin

text \<open>
  \<^verbatim>\<open>core/streaming.py\<close> and the server-sent events of \<^verbatim>\<open>_create_streaming_response\<close> in
  \<^verbatim>\<open>api/router.py\<close>: the token generator around the streamer, the producer thread that puts
  tokens, an error or the end into the queue, and the consumer that turns them into events.
  What \<^verbatim>\<open>model.generate\<close> does in its thread, text by text and until it ends, raises or hangs, is
  a parameter; what the streamer yields, how it ends and which errors are seen follow from it.  The
  JSON texts are built by an encoder that is a parameter too.
\<close>

section \<open>The token generator\<close>

text \<open>
  \<open>tokens\<close> and \<open>ended\<close>: what the streamer yields and the exception it ends with, if any;
  \<open>errors\<close>: what the background thread collected.  The result is what was yielded and how the
  generator ended.
\<close>

definition generate_stream :: "'g manager \<Rightarrow> string list \<Rightarrow> exn option \<Rightarrow> exn list \<Rightarrow>
    string list \<times> exn option" where
  "generate_stream m tokens ended errors =
     (if \<not> is_loaded m then ([], Some ModelNotLoadedError)
      else
        (filter (\<lambda>t. t \<noteq> '''') tokens,
         case ended of
           Some e \<Rightarrow>
             (if is_Exception e \<and> errors \<noteq> []
              then Some (RuntimeError ''Generation failed in background thread'') else Some e)
         | None \<Rightarrow>
             (if errors \<noteq> [] then Some (RuntimeError ''Generation failed in background thread'')
              else None)))"

text \<open>
  The background thread.  \<^verbatim>\<open>model.generate\<close> hands each text to the streamer, after a wait since
  the text before it (or since its start), and then ends the stream after a wait and may still raise
  after another one, or raises without ending the stream, or hangs.
\<close>

datatype background_end = Ends float "(exn \<times> float) option" | Raises exn float | Hangs

record background =
  bg_texts :: "(float \<times> string) list"
  bg_end :: background_end

record gen_kwargs =
  gk_input_ids :: "nat list"
  gk_max_new_tokens :: int
  gk_temperature :: float
  gk_pad_token_id :: "nat option"
  gk_past_key_values :: "past_kv option"
  gk_use_cache :: bool

definition generation_kwargs :: "tokenizer \<Rightarrow> string \<Rightarrow> int \<Rightarrow> float \<Rightarrow> past_kv option \<Rightarrow> gen_kwargs" where
  "generation_kwargs tok prompt max_new_tokens temperature past =
     (let kw = \<lparr>gk_input_ids = tok_encode tok prompt, gk_max_new_tokens = max_new_tokens,
                gk_temperature = temperature, gk_pad_token_id = pad_token_id tok,
                gk_past_key_values = None, gk_use_cache = False\<rparr>
      in case past of
           None \<Rightarrow> kw
         | Some kv \<Rightarrow> kw\<lparr>gk_past_key_values := Some kv, gk_use_cache := True\<rparr>)"

text \<open>
  The thread seeds the generator of its own, runs \<^verbatim>\<open>model.generate\<close> with the keyword arguments, and
  appends what it raises, a \<^verbatim>\<open>BaseException\<close> included, to \<^verbatim>\<open>errors\<close>: \<open>thread_errors e waited\<close> is
  the list as it is \<open>waited\<close> seconds after the last text.
\<close>

definition generate_in_thread :: "'g engine \<Rightarrow> (gen_kwargs \<Rightarrow> 'g \<Rightarrow> background \<times> 'g) \<Rightarrow> gen_kwargs \<Rightarrow>
    int option \<Rightarrow> 'g \<Rightarrow> background \<times> 'g" where
  "generate_in_thread model generate kw seed g = generate kw (seeded model seed g)"

fun thread_errors :: "background_end \<Rightarrow> float \<Rightarrow> exn list" where
  "thread_errors (Ends d None) waited = []"
| "thread_errors (Ends d (Some (e, d'))) waited = (if d + d' \<le> waited then [e] else [])"
| "thread_errors (Raises e d) waited = (if d \<le> waited then [e] else [])"
| "thread_errors Hangs waited = []"

text \<open>
  The loop over the streamer, a queue with a timeout: the texts it yields; \<^verbatim>\<open>queue.Empty\<close> when a
  wait is longer than the timeout; and the errors found then, or found when the thread is joined
  for at most five seconds after the stream has ended.
\<close>

fun stream_texts :: "float \<Rightarrow> (float \<times> string) list \<Rightarrow> background_end \<Rightarrow>
    string list \<times> exn option \<times> exn list" where
  "stream_texts timeout [] e =
     (case e of
        Ends d r \<Rightarrow>
          (if d \<le> timeout then ([], None, thread_errors e (d + 5))
           else ([], Some (OtherException ''Empty''), thread_errors e timeout))
      | _ \<Rightarrow> ([], Some (OtherException ''Empty''), thread_errors e timeout))"
| "stream_texts timeout ((d, t) # ts) e =
     (if d \<le> timeout
      then (case stream_texts timeout ts e of (texts, ended, errors) \<Rightarrow> (t # texts, ended, errors))
      else ([], Some (OtherException ''Empty''), []))"

text \<open>The generator with its thread.\<close>

definition stream_run :: "'g manager \<Rightarrow> (gen_kwargs \<Rightarrow> 'g \<Rightarrow> background \<times> 'g) \<Rightarrow> float \<Rightarrow> string \<Rightarrow> int \<Rightarrow>
    float \<Rightarrow> int option \<Rightarrow> past_kv option \<Rightarrow> 'g \<Rightarrow> (string list \<times> exn option) \<times> 'g" where
  "stream_run m generate timeout prompt max_new_tokens temperature seed past g =
     (case (mm_model m, mm_tokenizer m) of
        (Some model, Some tok) \<Rightarrow>
          (let (bg, g) = generate_in_thread model generate
                 (generation_kwargs tok prompt max_new_tokens temperature past) seed g;
               (texts, ended, errors) = stream_texts timeout (bg_texts bg) (bg_end bg)
           in (generate_stream m texts ended errors, g))
      | _ \<Rightarrow> (generate_stream m [] None [], g))"

text \<open>
  A generation that comes to its end: every wait for the streamer is within the timeout, the stream
  is ended, and nothing is raised while the thread is joined.
\<close>

definition completes :: "float \<Rightarrow> background \<Rightarrow> bool" where
  "completes timeout bg \<longleftrightarrow> (\<forall>d\<in>set (map fst (bg_texts bg)). d \<le> timeout) \<and>
     (case bg_end bg of Ends d r \<Rightarrow> d \<le> timeout \<and> thread_errors (bg_end bg) (d + 5) = [] | _ \<Rightarrow> False)"

section \<open>The producer\<close>

definition error_sentinel :: string where
  "error_sentinel = ''__ERROR__:''"

text \<open>The messages put into the token queue; \<open>None\<close> is the end marker of the \<^verbatim>\<open>finally\<close> clause.\<close>

definition produce_tokens :: "(exn \<Rightarrow> string) \<Rightarrow> string list \<times> exn option \<Rightarrow> string option list" where
  "produce_tokens error_json stream =
     map Some (filter (\<lambda>t. t \<noteq> '''') (fst stream)) @
     (case snd stream of
        Some e \<Rightarrow> (if is_Exception e then [Some (error_sentinel @ error_json e)] else [])
      | None \<Rightarrow> []) @
     [None]"

section \<open>The event generator\<close>

text \<open>
  One \<^verbatim>\<open>get\<close> from the queue: a message, or the timeout.  \<open>disconnected\<close> is what
  \<^verbatim>\<open>request.is_disconnected()\<close> answers if it is asked after this message.
\<close>

datatype got = Got "string option" (disconnected: bool) | GotTimeout

datatype sse = Chunk string | Error_event string | Done_event

fun event_generator :: "string \<Rightarrow> got list \<Rightarrow> sse list" where
  "event_generator timeout_json [] = []"
| "event_generator timeout_json (GotTimeout # gs) = [Error_event timeout_json, Done_event]"
| "event_generator timeout_json (Got None d # gs) = [Done_event]"
| "event_generator timeout_json (Got (Some token) d # gs) =
     (if startswith token error_sentinel
      then [Error_event (drop (length error_sentinel) token), Done_event]
      else if d then []
      else Chunk token # event_generator timeout_json gs)"

text \<open>
  What the consumer can meet when the producer puts \<open>msgs\<close>: the messages in their order, the client
  gone or not at each of them, up to the last one or up to a wait that times out.
\<close>

fun gets_of :: "string option list \<Rightarrow> got list \<Rightarrow> bool" where
  "gets_of [] [] \<longleftrightarrow> True"
| "gets_of msgs [GotTimeout] \<longleftrightarrow> True"
| "gets_of (x # msgs) (Got y d # gs) \<longleftrightarrow> x = y \<and> gets_of msgs gs"
| "gets_of _ _ \<longleftrightarrow> False"

text \<open>The text of an event on the wire; \<open>chunk_json\<close> renders a \<^verbatim>\<open>StreamChunk\<close>.\<close>

definition newline :: char where
  "newline = char_of (10 :: nat)"

fun render :: "(string \<Rightarrow> string) \<Rightarrow> sse \<Rightarrow> string" where
  "render chunk_json (Chunk t) = ''data: '' @ chunk_json t @ [newline, newline]"
| "render chunk_json (Error_event j) = ''data: '' @ j @ [newline, newline]"
| "render chunk_json Done_event = ''data: [DONE]'' @ [newline, newline]"

section \<open>Properties\<close>

lemma event_generator_tokens:
  assumes "\<forall>t\<in>set ts. \<not> startswith t error_sentinel"
  shows "event_generator j (map (\<lambda>t. Got (Some t) False) ts @ gs) = map Chunk ts @ event_generator j gs"
  using assms by (induction ts) auto

text \<open>C36: A stream delivers the model's text: when the streamer ends normally, no wait times out and
  the client stays, the events are one chunk per non-empty token in order and then the end
  marker, provided that no token itself begins with the error sentinel.\<close>

theorem stream_delivers_tokens:
  assumes "is_loaded m" and "\<forall>t\<in>set tokens. \<not> startswith t error_sentinel"
  shows "event_generator timeout_json
      (map (\<lambda>x. Got x False) (produce_tokens error_json (generate_stream m tokens None []))) =
    map Chunk (filter (\<lambda>t. t \<noteq> '''') tokens) @ [Done_event]"
  using assms event_generator_tokens [of "filter (\<lambda>t. t \<noteq> '''') tokens" timeout_json "[Got None False]"]
  by (simp add: generate_stream_def produce_tokens_def comp_def)

lemma stream_delivers_tokens_witness:
  "event_generator ''{}'' (map (\<lambda>x. Got x False)
      (produce_tokens (\<lambda>e. ''{}'') (generate_stream demo_manager [''Hel'', '''', ''lo''] None []))) =
    [Chunk ''Hel'', Chunk ''lo'', Done_event]"
  using stream_delivers_tokens [of demo_manager "[''Hel'', '''', ''lo'']" "''{}''" "\<lambda>e. ''{}''"]
  by (simp add: is_loaded_def error_sentinel_def)

text \<open>A failed generation is reported: the chunks sent are a prefix of the model's tokens and the
  stream ends with one error event and the end marker, for every exception that the background
  thread or the streamer raises.\<close>

theorem stream_reports_failure:
  assumes "is_loaded m" and "\<forall>t\<in>set tokens. \<not> startswith t error_sentinel"
    and "errors \<noteq> [] \<or> ended \<noteq> None" and "\<And>e. ended = Some e \<Longrightarrow> is_Exception e"
  shows "\<exists>j. event_generator timeout_json
      (map (\<lambda>x. Got x False) (produce_tokens error_json (generate_stream m tokens ended errors))) =
    map Chunk (filter (\<lambda>t. t \<noteq> '''') tokens) @ [Error_event j, Done_event]"
proof -
  obtain e where e: "generate_stream m tokens ended errors = (filter (\<lambda>t. t \<noteq> '''') tokens, Some e)"
    "is_Exception e"
    using assms by (cases ended; cases "errors = []") (auto simp: generate_stream_def is_Exception_def)
  have "startswith (error_sentinel @ error_json e) error_sentinel" by (auto simp: startswith_append)
  then show ?thesis
    using assms(2) e event_generator_tokens [of "filter (\<lambda>t. t \<noteq> '''') tokens" timeout_json
        "[Got (Some (error_sentinel @ error_json e)) False, Got None False]"]
    by (simp add: produce_tokens_def comp_def)
qed

lemma stream_reports_failure_witness:
  "\<exists>j. event_generator ''{}'' (map (\<lambda>x. Got x False)
      (produce_tokens (\<lambda>e. ''{}'') (generate_stream demo_manager [''Hel''] None [RuntimeError ''oom'']))) =
    [Chunk ''Hel'', Error_event j, Done_event]"
  using stream_reports_failure [of demo_manager "[''Hel'']" "[RuntimeError ''oom'']" None "''{}''" "\<lambda>e. ''{}''"]
  by (simp add: is_loaded_def error_sentinel_def)

text \<open>What the client sees of any messages that end as the producer's do.\<close>

lemma events_of_gets:
  assumes "\<forall>t\<in>set ts. \<not> startswith t error_sentinel"
    and "tail = [None] \<or> (\<exists>j. tail = [Some (error_sentinel @ j), None])"
    and "gets_of (map Some ts @ tail) gets"
  shows "(tail = [None] \<and> event_generator tj gets = map Chunk ts @ [Done_event]) \<or>
    (\<exists>sent rest j. ts = sent @ rest \<and> event_generator tj gets = map Chunk sent @ [Error_event j, Done_event]) \<or>
    (\<exists>sent rest x. ts = sent @ rest \<and> event_generator tj gets = map Chunk sent \<and> Got x True \<in> set gets)"
  using assms
proof (induction ts arbitrary: gets)
  case Nil
  have "startswith (error_sentinel @ j) error_sentinel" for j by (auto simp: startswith_append)
  with Nil show ?case by (cases "(tail, gets)" rule: gets_of.cases) auto
next
  case (Cons t ts)
  from Cons.prems(3) consider "gets = [GotTimeout]"
    | d gs where "gets = Got (Some t) d # gs" "gets_of (map Some ts @ tail) gs"
    by (cases "(map Some (t # ts) @ tail, gets)" rule: gets_of.cases) auto
  then show ?case
  proof cases
    case 1
    then show ?thesis by auto
  next
    case 2
    have plain: "\<not> startswith t error_sentinel" using Cons.prems(1) by simp
    then have ev: "event_generator tj gets = (if d then [] else Chunk t # event_generator tj gs)"
      by (simp add: 2(1))
    have IH: "(tail = [None] \<and> event_generator tj gs = map Chunk ts @ [Done_event]) \<or>
      (\<exists>sent rest j. ts = sent @ rest \<and> event_generator tj gs = map Chunk sent @ [Error_event j, Done_event]) \<or>
      (\<exists>sent rest x. ts = sent @ rest \<and> event_generator tj gs = map Chunk sent \<and> Got x True \<in> set gs)"
      using Cons.prems 2(2) by (intro Cons.IH) auto
    show ?thesis
    proof (cases d)
      case True
      then have "t # ts = [] @ (t # ts) \<and> event_generator tj gets = map Chunk [] \<and> Got (Some t) True \<in> set gets"
        by (simp add: 2(1) plain)
      then show ?thesis by blast
    next
      case False
      then have ev: "event_generator tj gets = Chunk t # event_generator tj gs" by (simp add: ev)
      from IH show ?thesis
      proof (elim disjE exE conjE)
        fix sent rest j
        assume "ts = sent @ rest" "event_generator tj gs = map Chunk sent @ [Error_event j, Done_event]"
        then have "t # ts = (t # sent) @ rest \<and>
            event_generator tj gets = map Chunk (t # sent) @ [Error_event j, Done_event]" by (simp add: ev)
        then show ?thesis by blast
      next
        fix sent rest x
        assume "ts = sent @ rest" "event_generator tj gs = map Chunk sent" "Got x True \<in> set gs"
        then have "t # ts = (t # sent) @ rest \<and> event_generator tj gets = map Chunk (t # sent) \<and>
            Got x True \<in> set gets" using False by (simp add: plain 2(1))
        then show ?thesis by blast
      qed (simp add: ev)
    qed
  qed
qed

lemma stream_texts_parts:
  assumes "stream_texts timeout ws e = (texts, ended, errors)"
  shows "(\<exists>rest. map snd ws = texts @ rest) \<and> (ended = None \<or> ended = Some (OtherException ''Empty'')) \<and>
    (ended = None \<and> errors = [] \<longrightarrow> texts = map snd ws \<and> completes timeout \<lparr>bg_texts = ws, bg_end = e\<rparr>)"
  using assms
  by (induction ws arbitrary: texts)
    (force simp: completes_def split: if_splits background_end.splits prod.splits)+

text \<open>C39: A generation that fails is never presented as complete.  With a loaded model, whatever \<^verbatim>\<open>model.generate\<close> does in its
  thread (text after text, then ending, raising any exception, or hanging), whatever of it falls
  outside the timeout, and whatever the consumer meets (a timeout of its own at any point, also
  before the producer's, or a client that disconnects): the chunks sent are the first of the
  model's non-empty texts, and they end in one of three ways: with the bare end marker, and then
  they are all of the texts and the generation came to its end within the timeouts; with an error
  event and the end marker; or with nothing, when the client had disconnected.  No text of the model
  begins with the error sentinel.\<close>

theorem failed_generation_is_never_complete:
  assumes "mm_model m = Some model" and "mm_tokenizer m = Some tok"
    and "generate (generation_kwargs tok prompt n temperature past) (seeded model seed g) = (bg, g')"
    and "\<forall>(d, t)\<in>set (bg_texts bg). \<not> startswith t error_sentinel"
    and "texts = filter (\<lambda>t. t \<noteq> '''') (map snd (bg_texts bg))"
    and "gets_of (produce_tokens error_json (fst (stream_run m generate timeout prompt n temperature seed past g))) gets"
  shows "(event_generator timeout_json gets = map Chunk texts @ [Done_event] \<and> completes timeout bg) \<or>
    (\<exists>sent rest j. texts = sent @ rest \<and>
       event_generator timeout_json gets = map Chunk sent @ [Error_event j, Done_event]) \<or>
    (\<exists>sent rest x. texts = sent @ rest \<and> event_generator timeout_json gets = map Chunk sent \<and>
       Got x True \<in> set gets)"
proof -
  let ?ne = "filter (\<lambda>t. t \<noteq> '''')"
  obtain ts ended errors where st: "stream_texts timeout (bg_texts bg) (bg_end bg) = (ts, ended, errors)"
    by (cases "stream_texts timeout (bg_texts bg) (bg_end bg)")
  note parts = stream_texts_parts [OF st]
  then obtain rest where rest: "map snd (bg_texts bg) = ts @ rest" by blast
  have loaded: "is_loaded m" using assms(1,2) by (simp add: is_loaded_def)
  then have run: "fst (stream_run m generate timeout prompt n temperature seed past g) = generate_stream m ts ended errors"
    and gen: "generate_stream m ts ended errors = (?ne ts, snd (generate_stream m ts ended errors))"
    using assms(1-3) st by (simp_all add: stream_run_def generate_in_thread_def generate_stream_def)
  define fin where "fin = snd (generate_stream m ts ended errors)"
  have fin: "fst (stream_run m generate timeout prompt n temperature seed past g) = (?ne ts, fin)"
    unfolding run fin_def by (rule gen)
  have none: "fin = None \<Longrightarrow> ended = None \<and> errors = []"
    using loaded by (auto simp: fin_def generate_stream_def split: option.splits if_splits)
  have exc: "is_Exception e" if "fin = Some e" for e
    using loaded that parts by (cases ended) (auto simp: fin_def generate_stream_def is_Exception_def split: if_splits)
  define tail where "tail = (case fin of Some e \<Rightarrow> [Some (error_sentinel @ error_json e)] | None \<Rightarrow> []) @ [None :: string option]"
  have gets: "gets_of (map Some (?ne ts) @ tail) gets"
    using assms(6) exc unfolding fin produce_tokens_def tail_def by (auto split: option.splits)
  have "\<forall>t\<in>set (ts @ rest). \<not> startswith t error_sentinel" using assms(4) by (auto simp: rest [symmetric])
  then have "(tail = [None] \<and> event_generator timeout_json gets = map Chunk (?ne ts) @ [Done_event]) \<or>
    (\<exists>sent r j. ?ne ts = sent @ r \<and> event_generator timeout_json gets = map Chunk sent @ [Error_event j, Done_event]) \<or>
    (\<exists>sent r x. ?ne ts = sent @ r \<and> event_generator timeout_json gets = map Chunk sent \<and> Got x True \<in> set gets)"
    by (intro events_of_gets [OF _ _ gets]) (auto simp: tail_def split: option.splits)
  moreover have "texts = ?ne ts @ ?ne rest" by (simp add: assms(5) rest)
  moreover have "completes timeout bg \<and> texts = ?ne ts" if "tail = [None]"
    using that none parts by (cases fin; cases bg) (auto simp: tail_def assms(5))
  ultimately show ?thesis by (metis append_assoc)
qed

text \<open>The model runs out of memory after one text; the consumer's own timer is the first to fire.\<close>

lemma failed_generation_is_never_complete_witness:
  "let bg = \<lparr>bg_texts = [(1, ''Hel'')], bg_end = Raises (RuntimeError ''oom'') 2\<rparr>;
       gets = [Got (Some ''Hel'') False, GotTimeout] in
   \<not> completes 30 bg \<and> (\<exists>sent rest j. [''Hel''] = sent @ rest \<and>
     event_generator ''{}'' gets = map Chunk sent @ [Error_event j, Done_event])"
proof -
  define bg where "bg = \<lparr>bg_texts = [(1, ''Hel'')], bg_end = Raises (RuntimeError ''oom'') 2\<rparr>"
  let ?gets = "[Got (Some ''Hel'') False, GotTimeout]"
  have m: "mm_model demo_manager = Some (the (mm_model demo_manager))"
    "mm_tokenizer demo_manager = Some (the (mm_tokenizer demo_manager))" by simp_all
  have gets: "gets_of (produce_tokens (\<lambda>e. ''{}'')
      (fst (stream_run demo_manager (\<lambda>kw g. (bg, g)) 30 ''hi'' 4 1 None None ()))) ?gets"
    by (simp add: bg_def stream_run_def generate_in_thread_def generate_stream_def is_loaded_def
        produce_tokens_def is_Exception_def)
  have "\<not> completes 30 bg" by (simp add: completes_def bg_def)
  with failed_generation_is_never_complete [OF m, where generate = "\<lambda>kw g. (bg, g)", OF refl _ refl gets, of "''{}''"]
  show ?thesis by (auto simp: bg_def error_sentinel_def)
qed

text \<open>C40: The error sentinel is in band: a model token that begins with it is not sent as text but
  ends the stream, its rest is sent as if it were the server's error object, and all tokens
  after it are lost, although the generation succeeded.\<close>

theorem sentinel_token_truncates_stream:
  assumes "is_loaded m" and "\<forall>t\<in>set before. \<not> startswith t error_sentinel"
  shows "event_generator timeout_json (map (\<lambda>x. Got x False) (produce_tokens error_json
      (generate_stream m (before @ (error_sentinel @ rest) # after) None []))) =
    map Chunk (filter (\<lambda>t. t \<noteq> '''') before) @ [Error_event rest, Done_event]"
proof -
  have "startswith (error_sentinel @ rest) error_sentinel" by (auto simp: startswith_append)
  moreover have "error_sentinel @ rest \<noteq> ''''" by (simp add: error_sentinel_def)
  ultimately show ?thesis
    using assms event_generator_tokens [of "filter (\<lambda>t. t \<noteq> '''') before" timeout_json
        "Got (Some (error_sentinel @ rest)) False #
         map (\<lambda>x. Got x False) (map Some (filter (\<lambda>t. t \<noteq> '''') after) @ [None])"]
    by (simp add: generate_stream_def produce_tokens_def comp_def)
qed

lemma sentinel_token_truncates_stream_witness:
  "event_generator ''{}'' (map (\<lambda>x. Got x False) (produce_tokens (\<lambda>e. ''{}'')
      (generate_stream demo_manager [''A'', ''__ERROR__:x'', ''B''] None []))) =
    [Chunk ''A'', Error_event ''x'', Done_event]"
  using sentinel_token_truncates_stream [of demo_manager "[''A'']" "''{}''" "\<lambda>e. ''{}''" "''x''" "[''B'']"]
  by (simp add: is_loaded_def error_sentinel_def)

end
