(* ===== verification/Lifecycle.thy ===== *)
theory Lifecycle
  imports Prelude
begin

text \<open>
  \<^verbatim>\<open>lifecycle.py\<close>: the shutdown flag, the count of requests in flight and the event that is set
  when it is zero.
\<close>

record lifecycle =
  shutting_down :: bool
  in_flight :: int
  drained :: bool
  signals :: "string list"

definition lifecycle_init :: lifecycle where
  "lifecycle_init = \<lparr>shutting_down = False, in_flight = 0, drained = True, signals = []\<rparr>"

definition track_request :: "lifecycle \<Rightarrow> lifecycle" where
  "track_request l = l\<lparr>in_flight := in_flight l + 1, drained := False\<rparr>"

definition complete_request :: "lifecycle \<Rightarrow> lifecycle" where
  "complete_request l =
     (let l = l\<lparr>in_flight := max 0 (in_flight l - 1)\<rparr>
      in if in_flight l = 0 then l\<lparr>drained := True\<rparr> else l)"

text \<open>
  \<^verbatim>\<open>register_signals\<close>: the loop over the two signals; \<open>add_handler\<close> is what \<^verbatim>\<open>loop.add_signal_handler\<close>
  returns or raises (it raises off the main thread and on event loops without signals).
  \<open>signals\<close> are those whose handler is \<^verbatim>\<open>_handle_signal\<close>.
\<close>

fun add_handlers :: "(string \<Rightarrow> unit result) \<Rightarrow> string list \<Rightarrow> lifecycle \<Rightarrow> unit result \<times> lifecycle" where
  "add_handlers add_handler [] l = (Inr (), l)"
| "add_handlers add_handler (sig # sigs) l =
     (case add_handler sig of
        Inl e \<Rightarrow> (Inl e, l)
      | Inr _ \<Rightarrow> add_handlers add_handler sigs
          (if sig \<in> set (signals l) then l else l\<lparr>signals := signals l @ [sig]\<rparr>))"

definition register_signals :: "(string \<Rightarrow> unit result) \<Rightarrow> lifecycle \<Rightarrow> unit result \<times> lifecycle" where
  "register_signals add_handler l = add_handlers add_handler [''SIGTERM'', ''SIGINT''] l"

abbreviation signals_registered :: "lifecycle \<Rightarrow> lifecycle" where
  "signals_registered l \<equiv> snd (register_signals (\<lambda>_. Inr ()) l)"

lemma register_signals_Inr:
  "register_signals add_handler l = (Inr (), l') \<Longrightarrow> l' = signals_registered l"
  by (auto simp: register_signals_def split: sum.splits)

lemma register_signals_fields [simp]:
  "in_flight (signals_registered l) = in_flight l" "drained (signals_registered l) = drained l"
  "shutting_down (signals_registered l) = shutting_down l"
  by (simp_all add: register_signals_def)

definition handle_signal :: "lifecycle \<Rightarrow> lifecycle" where
  "handle_signal l = l\<lparr>shutting_down := True\<rparr>"

text \<open>
  How \<^verbatim>\<open>wait_for_drain\<close> ends, given the completions that arrive within the timeout: at once, when
  the event is set, or by the timeout with that many requests left.
\<close>

datatype drain_end = Immediately | Drained_after nat | Timed_out int

fun await_drained :: "nat \<Rightarrow> nat \<Rightarrow> lifecycle \<Rightarrow> drain_end" where
  "await_drained seen completions l =
     (if drained l then Drained_after seen
      else case completions of
             0 \<Rightarrow> Timed_out (in_flight l)
           | Suc n \<Rightarrow> await_drained (Suc seen) n (complete_request l))"

definition wait_for_drain :: "nat \<Rightarrow> lifecycle \<Rightarrow> drain_end" where
  "wait_for_drain completions l =
     (if in_flight l = 0 then Immediately else await_drained 0 completions l)"

datatype life_event = Track | Complete | Signals | Signal

fun life_step :: "life_event \<Rightarrow> lifecycle \<Rightarrow> lifecycle" where
  "life_step Track l = track_request l"
| "life_step Complete l = complete_request l"
| "life_step Signals l = signals_registered l"
| "life_step Signal l = handle_signal l"

definition life_run :: "life_event list \<Rightarrow> lifecycle" where
  "life_run es = fold life_step es lifecycle_init"

lemma life_run_snoc: "life_run (es @ [e]) = life_step e (life_run es)"
  by (simp add: life_run_def)

lemma life_run_inv: "0 \<le> in_flight (life_run es) \<and> (drained (life_run es) \<longleftrightarrow> in_flight (life_run es) = 0) \<and>
  (shutting_down (life_run es) \<longleftrightarrow> Signal \<in> set es)"
proof (induction es rule: rev_induct)
  case Nil
  then show ?case by (simp add: life_run_def lifecycle_init_def)
next
  case (snoc e es)
  then show ?case
    by (cases e) (auto simp: life_run_snoc track_request_def complete_request_def
        handle_signal_def Let_def)
qed

lemma await_drained_eq:
  assumes "0 < in_flight l" and "\<not> drained l"
  shows "await_drained seen n l =
    (if nat (in_flight l) \<le> n then Drained_after (seen + nat (in_flight l))
     else Timed_out (in_flight l - int n))"
  using assms
proof (induction n arbitrary: seen l)
  case (Suc n)
  show ?case
  proof (cases "in_flight l = 1")
    case True
    then show ?thesis using Suc.prems by (subst await_drained.simps) (simp add: complete_request_def)
  next
    case False
    then have "complete_request l = l\<lparr>in_flight := in_flight l - 1\<rparr>"
      using Suc.prems by (simp add: complete_request_def)
    moreover have "await_drained (Suc seen) n (l\<lparr>in_flight := in_flight l - 1\<rparr>) =
        (if nat (in_flight l - 1) \<le> n then Drained_after (Suc seen + nat (in_flight l - 1))
         else Timed_out (in_flight l - 1 - int n))"
      using Suc.IH [of "l\<lparr>in_flight := in_flight l - 1\<rparr>" "Suc seen"] Suc.prems False by simp
    ultimately show ?thesis
      using Suc.prems False by (subst await_drained.simps) (auto simp: nat_diff_distrib)
  qed
qed simp

declare await_drained.simps [simp del]

text \<open>Draining waits for exactly the requests in flight: after any run of the manager the wait is
  skipped when nothing is in flight, ends with the completion that empties the count when
  enough arrive in time, and otherwise times out with the rest.\<close>

theorem drain_waits_for_in_flight:
  "wait_for_drain n (life_run es) =
    (if in_flight (life_run es) = 0 then Immediately
     else if nat (in_flight (life_run es)) \<le> n then Drained_after (nat (in_flight (life_run es)))
     else Timed_out (in_flight (life_run es) - int n))"
  using life_run_inv [of es] await_drained_eq [of "life_run es" 0 n]
  by (cases "in_flight (life_run es) = 0") (simp_all add: wait_for_drain_def)

text \<open>Since nothing in the program tracks requests, shutdown does not drain: when only signals
  reach the manager, \<^verbatim>\<open>wait_for_drain\<close> returns at once, whatever is running.\<close>

theorem untracked_requests_are_not_drained:
  "wait_for_drain n (life_run (replicate k Signal)) = Immediately"
proof -
  have "in_flight (life_run (replicate k Signal)) = 0"
    by (induction k) (simp_all add: life_run_snoc replicate_append_same [symmetric] handle_signal_def,
        simp add: life_run_def lifecycle_init_def)
  then show ?thesis by (simp add: wait_for_drain_def)
qed

end
