(* ===== verification/Api.thy ===== *)
theory Api
  imports Worker_Pool Rate_Limiter Memory_Profiler Inference Lifecycle Py_Str
begin

text \<open>
  \<^verbatim>\<open>api/{schemas,router,memory_router}.py\<close> and \<^verbatim>\<open>middleware/*.py\<close>: request validation, the error
  handler, the two middlewares around the routes, and the routes.  A handler that calls Redis
  is an action on a state \<open>'s\<close> that holds Redis and the objects of the application; what
  FastAPI does around them is a parameter (the next handler, the exception raised).
\<close>

section \<open>Requests and responses\<close>

record completion_request =
  cr_prompt :: string
  cr_max_tokens :: int
  cr_temperature :: float
  cr_stream :: bool
  cr_seed :: "int option"
  cr_priority :: int

definition valid_request :: "completion_request \<Rightarrow> bool" where
  "valid_request body \<longleftrightarrow>
     1 \<le> length (cr_prompt body) \<and> length (cr_prompt body) \<le> 4096 \<and>
     1 \<le> cr_max_tokens body \<and> cr_max_tokens body \<le> 2048 \<and>
     0 \<le> cr_temperature body \<and> cr_temperature body \<le> 2 \<and>
     1 \<le> cr_priority body \<and> cr_priority body \<le> 3"

datatype body =
    Error_body string string int  \<comment> \<open>message, type, code\<close>
  | Detail body  \<comment> \<open>the body FastAPI gives an \<^verbatim>\<open>HTTPException\<close>\<close>
  | Completion_body string string string int int int  \<comment> \<open>id, model, content, usage\<close>
  | Health_body string string bool string int
  | Ready_body string "string option"
  | Models_body "(string \<times> bool) list"
  | Cache_stats_body "kv_stats option"
  | Memory_stats_body "mem_snapshot option"
  | Watermark_body "watermark_status option"
  | Gc_body "(int \<times> float) option"
  | Stream_body
  | Speculative_body string string string int int int "(string \<times> float) list"
  | Framework_body string  \<comment> \<open>what FastAPI answers by itself\<close>

record response =
  status :: int
  headers :: "(string \<times> string) list"
  content :: body

definition http_exception :: "int \<Rightarrow> string \<Rightarrow> string \<Rightarrow> int \<Rightarrow> (string \<times> string) list \<Rightarrow> response" where
  "http_exception status_code message type code hs =
     \<lparr>status = status_code, headers = hs, content = Detail (Error_body message type code)\<rparr>"

section \<open>The global exception handler\<close>

text \<open>The map is looked up with the exact type of the exception.\<close>

definition exception_map :: "exn \<Rightarrow> int \<times> string" where
  "exception_map e =
     (case e of
        CircuitOpenError \<Rightarrow> (503, ''circuit_open'')
      | ModelNotLoadedError \<Rightarrow> (503, ''model_unavailable'')
      | QueueFullError \<Rightarrow> (503, ''queue_full'')
      | RateLimitExceededError \<Rightarrow> (429, ''rate_limited'')
      | GenerationError _ \<Rightarrow> (500, ''generation_error'')
      | _ \<Rightarrow> (500, ''internal_error''))"

definition global_exception_handler :: "(exn \<Rightarrow> string) \<Rightarrow> exn \<Rightarrow> response" where
  "global_exception_handler str_exn e =
     (let (code, type) = exception_map e in
      \<lparr>status = code, headers = (if code = 429 then [(''Retry-After'', ''1'')] else []),
       content = Error_body (str_exn e) type code\<rparr>)"

section \<open>Load shedding\<close>

definition bypass_paths :: "string list" where
  "bypass_paths = [''/health'', ''/docs'', ''/openapi.json'', ''/redoc'']"

definition load_shedder :: "(nat, 's) action \<Rightarrow> int \<Rightarrow> string \<Rightarrow> (response, 's) action \<Rightarrow>
    (response, 's) action" where
  "load_shedder depth_action max_queue_depth path call_next =
     (if path \<in> set bypass_paths then call_next
      else bind depth_action (\<lambda>depth.
        if max_queue_depth \<le> int depth
        then ret \<lparr>status = 503, headers = [(''Retry-After'', ''5'')],
                  content = Error_body ''Server overloaded - too many pending requests''
                    ''overloaded_error'' 503\<rparr>
        else call_next))"

section \<open>Rate limiting\<close>

definition extract_api_key :: "string option \<Rightarrow> string" where
  "extract_api_key authorization =
     (let auth_header = (case authorization of None \<Rightarrow> '''' | Some h \<Rightarrow> h) in
      if startswith auth_header ''Bearer '' then strip (drop 7 auth_header) else ''default'')"

definition set_header :: "string \<Rightarrow> string \<Rightarrow> response \<Rightarrow> response" where
  "set_header k v r = r\<lparr>headers := AList.update k v (headers r)\<rparr>"

definition rate_limit_middleware :: "(string \<Rightarrow> (bool \<times> rate_info, 's) action) \<Rightarrow> string option \<Rightarrow>
    (response, 's) action \<Rightarrow> (response, 's) action" where
  "rate_limit_middleware consume authorization call_next =
     bind (consume (extract_api_key authorization)) (\<lambda>(allowed, info).
       if \<not> allowed
       then ret \<lparr>status = 429,
                 headers = [(''Retry-After'', str_int (py_int (info_retry_after info) + 1)),
                            (''X-RateLimit-Remaining'', ''0''),
                            (''X-RateLimit-Limit'', str_int (py_int (info_limit info)))],
                 content = Error_body ''Rate limit exceeded'' ''rate_limit_error'' 429\<rparr>
       else bind call_next (\<lambda>response.
         ret (set_header ''X-RateLimit-Limit'' (str_int (py_int (info_limit info)))
           (set_header ''X-RateLimit-Remaining'' (str_int (py_int (info_remaining info))) response))))"

text \<open>
  The application: the load shedder is the outer middleware; an exception that reaches the top
  goes to the global handler (dashes in messages are written as hyphens).
\<close>

definition app :: "(nat, 's) action \<Rightarrow> int \<Rightarrow> (string \<Rightarrow> (bool \<times> rate_info, 's) action) \<Rightarrow>
    (exn \<Rightarrow> string) \<Rightarrow> string \<Rightarrow> string option \<Rightarrow> (response, 's) action \<Rightarrow> 's \<Rightarrow> response option \<times> 's" where
  "app depth_action max_queue_depth consume str_exn path authorization route s =
     (case load_shedder depth_action max_queue_depth path
             (rate_limit_middleware consume authorization route) s of
        (Inr r, s) \<Rightarrow> (Some r, s)
      | (Inl e, s) \<Rightarrow>
          (if is_Exception e then Some (global_exception_handler str_exn e) else None, s))"

section \<open>Health, readiness, models and statistics\<close>

fun circuit_value :: "circuit_state \<Rightarrow> string" where
  "circuit_value circuit_state.CLOSED = ''closed''"
| "circuit_value circuit_state.OPEN = ''open''"
| "circuit_value circuit_state.HALF_OPEN = ''half_open''"

definition health_check_route :: "bool \<Rightarrow> bool \<Rightarrow> circuit_state \<Rightarrow> (nat, 's) action \<Rightarrow> string \<Rightarrow>
    (response, 's) action" where
  "health_check_route model_loaded redis_healthy cbs depth_action model_name =
     bind depth_action (\<lambda>depth.
       let health_status =
             (if \<not> model_loaded \<or> cbs = circuit_state.OPEN then ''unhealthy''
              else if \<not> redis_healthy \<or> cbs = circuit_state.HALF_OPEN then ''degraded''
              else ''healthy'');
           response = Health_body health_status model_name redis_healthy
             (circuit_value cbs) (int depth)
       in if health_status = ''unhealthy''
          then ret \<lparr>status = 503, headers = [], content = Detail response\<rparr>
          else ret \<lparr>status = 200, headers = [], content = response\<rparr>)"

definition readiness_check :: "bool \<Rightarrow> bool \<Rightarrow> response" where
  "readiness_check is_shutting_down model_loaded =
     (if is_shutting_down
      then \<lparr>status = 503, headers = [], content = Detail (Ready_body ''not_ready'' (Some ''Shutting down''))\<rparr>
      else if \<not> model_loaded
      then \<lparr>status = 503, headers = [], content = Detail (Ready_body ''not_ready'' (Some ''Model not loaded''))\<rparr>
      else \<lparr>status = 200, headers = [], content = Ready_body ''ready'' None\<rparr>)"

definition ok :: "body \<Rightarrow> response" where
  "ok b = \<lparr>status = 200, headers = [], content = b\<rparr>"

definition list_models :: "string \<Rightarrow> bool \<Rightarrow> response" where
  "list_models model_name model_loaded = ok (Models_body [(model_name, model_loaded)])"

definition cache_stats :: "kv_cache option \<Rightarrow> response" where
  "cache_stats kv = ok (Cache_stats_body (map_option kv_stats_of kv))"

definition memory_stats :: "cuda_device option \<Rightarrow> tracker option \<Rightarrow> response" where
  "memory_stats dev tr = ok (Memory_stats_body (map_option (snapshot dev) tr))"

definition watermark_route :: "cuda_device option \<Rightarrow> tracker \<Rightarrow> 's monitor option \<Rightarrow> response" where
  "watermark_route dev tr mon = ok (Watermark_body (map_option (get_status dev tr) mon))"

definition trigger_gc :: "(cuda_device \<Rightarrow> cuda_device) \<Rightarrow> (cuda_device \<Rightarrow> cuda_device) \<Rightarrow>
    cuda_device option \<Rightarrow> tracker option \<Rightarrow> response" where
  "trigger_gc collected emptied dev tr =
     ok (Gc_body (map_option (\<lambda>tr. let s = snapshot (force_gc collected emptied tr dev) tr in
       (allocated_bytes s, py_round (utilization s) 4)) tr))"

section \<open>Completions\<close>

definition request_payload :: "completion_request \<Rightarrow> item" where
  "request_payload body =
     [(''prompt'', JStr (cr_prompt body)), (''max_tokens'', JInt (cr_max_tokens body)),
      (''temperature'', JFloat (cr_temperature body)),
      (''seed'', (case cr_seed body of None \<Rightarrow> JNull | Some s \<Rightarrow> JInt s))]"

datatype started = Rejected response | Streaming_response | Awaiting string nat

text \<open>
  \<^verbatim>\<open>create_completion\<close> up to the wait.  \<open>admit\<close> is the answer of the pressure handler, \<open>None\<close>
  without one; \<open>enq\<close> enqueues the payload under the priority.  The future is registered before
  that, and stays registered when it raises.
\<close>

definition create_completion :: "bool \<Rightarrow> bool option \<Rightarrow> string \<Rightarrow>
    (string \<Rightarrow> int \<Rightarrow> item \<Rightarrow> (nat, 'z) action) \<Rightarrow> completion_request \<Rightarrow> completion pool \<Rightarrow> 'z \<Rightarrow>
    started result \<times> completion pool \<times> 'z" where
  "create_completion model_loaded admit request_id enq body pool z =
     (if \<not> model_loaded
      then (Inr (Rejected (http_exception 503 ''Model not loaded'' ''server_error'' 503 [])), pool, z)
      else if admit = Some False
      then (Inr (Rejected (http_exception 503 ''Memory pressure too high - server overloaded''
                  ''memory_pressure'' 503 [(''Retry-After'', ''5'')])), pool, z)
      else if cr_stream body then (Inr Streaming_response, pool, z)
      else
        (let (result_future, pool) = register_request request_id pool
         in case enq request_id (cr_priority body) (request_payload body) z of
              (Inl e, z) \<Rightarrow> (Inl e, pool, z)
            | (Inr depth, z) \<Rightarrow> (Inr (Awaiting request_id result_future), pool, z)))"

text \<open>How \<^verbatim>\<open>wait_for(result_future, timeout)\<close> ends, and the rest of the handler.\<close>

datatype waited = Returned completion | Raised exn | Timed_out_waiting

definition waited_of :: "completion outcome \<Rightarrow> waited" where
  "waited_of out = (case out of Resolved r \<Rightarrow> Returned r | Failed e \<Rightarrow> Raised e
     | Cancelled \<Rightarrow> Raised CancelledError | Pending \<Rightarrow> Timed_out_waiting)"

definition completion_timeout :: "string \<Rightarrow> response" where
  "completion_timeout timeout_s =
     http_exception 504 (''Generation timed out after '' @ timeout_s @ ''s'') ''timeout_error'' 504 []"

definition finish_completion :: "string \<Rightarrow> string \<Rightarrow> string \<Rightarrow> waited \<Rightarrow> completion pool \<Rightarrow>
    response \<times> completion pool" where
  "finish_completion model_name timeout_s request_id w pool =
     (case w of
        Returned (generated_text, prompt_tokens, completion_tokens) \<Rightarrow>
          (ok (Completion_body request_id model_name generated_text prompt_tokens completion_tokens
                 (prompt_tokens + completion_tokens)), pool)
      | Timed_out_waiting \<Rightarrow> (completion_timeout timeout_s, cancel_request request_id pool)
      | Raised e \<Rightarrow>
          (if e = CancelledError
           then (http_exception 503 ''Request cancelled'' ''server_error'' 503 [], cancel_request request_id pool)
           else if is_TimeoutError e
           then (completion_timeout timeout_s, cancel_request request_id pool)
           else if e = ModelNotLoadedError
           then (http_exception 503 ''Model not loaded'' ''server_error'' 503 [], pool)
           else (http_exception 500 ''Inference failed'' ''server_error'' 500 [], pool)))"

section \<open>Lemmas\<close>

lemma load_shedder_bypass [simp]: "path \<in> set bypass_paths \<Longrightarrow> load_shedder d n path next = next"
  by (simp add: load_shedder_def)

lemma register_request_fresh:
  assumes "register_request r pool = (f, pool')"
  shows "f = length (futures pool)" "futures pool' = futures pool @ [Pending]"
    "pending pool' = AList.update r f (pending pool)" "workers pool' = workers pool"
    "running pool' = running pool" "circuit_breaker pool' = circuit_breaker pool"
  using assms by (auto simp: register_request_def create_future_def)

text \<open>The whole seconds of the header cover the waiting time.\<close>

lemma retry_after_header_covers:
  assumes "0 \<le> ms" and "ms < 2 ^ 53"
  shows "of_int ms / 1000 < (of_int (py_int (fdiv (of_int ms) 1000) + 1) :: rat)"
proof -
  let ?x = "of_int ms / 1000 :: rat"
  have x: "0 \<le> ?x" using assms(1) by simp
  have "?x \<le> of_int ms" using assms(1) by simp
  then have "\<lfloor>?x\<rfloor> < 2 ^ 53" using assms(2) by (simp add: floor_less_iff)
  moreover have "0 \<le> \<lfloor>?x\<rfloor>" using x by simp
  ultimately have "fl64 (of_int \<lfloor>?x\<rfloor>) = of_int \<lfloor>?x\<rfloor>" by (intro f64.exact_int) simp
  moreover have "fl64 (of_int \<lfloor>?x\<rfloor>) \<le> fl64 ?x" by (rule f64.mono [OF of_int_floor_le])
  ultimately have "\<lfloor>?x\<rfloor> \<le> \<lfloor>fl64 ?x\<rfloor>" by (simp add: le_floor_iff)
  moreover have "0 \<le> fl64 ?x" using x by (rule f64.nonneg)
  ultimately show ?thesis by (simp add: py_int_def fdiv_def) linarith
qed

section \<open>Properties\<close>

text \<open>Overload is shed before any work: at or above \<^verbatim>\<open>max_queue_depth\<close> every path outside the
  bypass list gets 503 with \<^verbatim>\<open>Retry-After\<close>, and neither the rate limiter nor the route runs;
  below it the request goes on to the rate limiter.\<close>

theorem overload_is_shed:
  assumes "path \<notin> set bypass_paths" and "depth_action s = (Inr depth, s')"
  shows "app depth_action max_queue_depth consume str_exn path auth route s =
    (if max_queue_depth \<le> int depth
     then (Some \<lparr>status = 503, headers = [(''Retry-After'', ''5'')],
             content = Error_body ''Server overloaded - too many pending requests''
               ''overloaded_error'' 503\<rparr>, s')
     else (case rate_limit_middleware consume auth route s' of
             (Inr r, s'') \<Rightarrow> (Some r, s'')
           | (Inl e, s'') \<Rightarrow>
               (if is_Exception e then Some (global_exception_handler str_exn e) else None, s'')))"
  using assms by (simp add: app_def load_shedder_def ret_def)

lemma overload_is_shed_witness:
  "status (the (fst (app (ret 100) 100 (\<lambda>k. ret (True, \<lparr>info_remaining = 9, info_limit = 10,
     info_retry_after = 0\<rparr>)) (\<lambda>_. '''') ''/v1/completions'' None (ret (ok Stream_body)) ()))) = 503"
  by (subst overload_is_shed [where depth = 100 and s' = "()"]) (simp_all add: bypass_paths_def ret_def)

text \<open>C38: The rate limiter's fail-open is out of reach: while the commands of Redis raise, the limiter
  would allow every request, but the load shedder, which is asked first, raises, so that every
  request outside the bypass list is answered by the global handler with the status of that
  error, whatever the route would do.\<close>

theorem redis_outage_fails_all_requests:
  assumes "path \<notin> set bypass_paths" and "is_Exception e"
    and "\<And>s. fst (zcard ops key s) = Inl e" and "\<And>s. fst (script_load s) = Inl e"
    and "\<And>sha k n r t s. fst (evalsha sha k n r t s) = Inl e"
  shows "(\<exists>info. fst (try_consume cl script_load evalsha now rl api_key s) = Inr (True, info)) \<and>
    (redis_open cl \<longrightarrow> fst (app (queue_depth ops cl key) max_queue_depth consume str_exn path auth route s) =
      Some (global_exception_handler str_exn e))"
proof
  obtain s1 where load: "script_load s = (Inl e, s1)" using assms(4) by (metis surjective_pairing)
  have eval: "\<exists>s'. evalsha sha k n r t s = (Inl e, s')" for sha k n r t
    using assms(5) by (metis surjective_pairing)
  show "\<exists>info. fst (try_consume cl script_load evalsha now rl api_key s) = Inr (True, info)"
  proof (cases "redis_open cl")
    case True
    then show ?thesis
      using load eval [of "the (script_sha rl)" "bucket_key rl api_key" "lim_bucket_size rl" "lim_refill_rate rl" now]
        assms(2)
      by (cases "script_sha rl") (auto simp: try_consume_def ensure_script_loaded_def bind_def Let_def)
  next
    case False
    then show ?thesis
      by (cases "script_sha rl")
        (auto simp: try_consume_def ensure_script_loaded_def bind_def redis_property_def raise_def
          is_Exception_def Let_def)
  qed
  obtain s2 where "zcard ops key s = (Inl e, s2)" using assms(3) by (metis surjective_pairing)
  then show "redis_open cl \<longrightarrow> fst (app (queue_depth ops cl key) max_queue_depth consume str_exn path auth route s) =
      Some (global_exception_handler str_exn e)"
    using assms(1,2) by (simp add: app_def load_shedder_def queue_depth_def)
qed

definition down_zset :: "(unit, string) zset_ops" where
  "down_zset = \<lparr>zadd = (\<lambda>k m sc. raise (RedisError ''down'')), zpopmin = (\<lambda>k n. raise (RedisError ''down'')),
     zcard = (\<lambda>k. raise (RedisError ''down''))\<rparr>"

lemma redis_outage_fails_all_requests_witness:
  "(\<exists>info. fst (try_consume ((redis_client_init '''')\<lparr>redis_open := True\<rparr>) (raise (RedisError ''down''))
      (\<lambda>sha k n r t. raise (RedisError ''down'')) 5 (limiter_init 10 2 ''rate_limit'') ''k1'' ()) = Inr (True, info)) \<and>
   status (the (fst (app (queue_depth down_zset ((redis_client_init '''')\<lparr>redis_open := True\<rparr>) ''q'') 100
     (\<lambda>k. ret (True, \<lparr>info_remaining = 9, info_limit = 10, info_retry_after = 0\<rparr>)) (\<lambda>_. '''') ''/v1/models'' None (ret (ok Stream_body)) ()))) = 500"
  using redis_outage_fails_all_requests [of "''/v1/models''" "RedisError ''down''" down_zset "''q''"
      "raise (RedisError ''down'')" "\<lambda>sha k n r t. raise (RedisError ''down'')"
      "(redis_client_init '''')\<lparr>redis_open := True\<rparr>" 5 "limiter_init 10 2 ''rate_limit''" "''k1''" "()"
      100 "\<lambda>k. ret (True, \<lparr>info_remaining = 9, info_limit = 10, info_retry_after = 0\<rparr>)" "\<lambda>_. ''''" None "ret (ok Stream_body)"]
  by (simp add: bypass_paths_def raise_def is_Exception_def down_zset_def
      global_exception_handler_def exception_map_def)

text \<open>The health endpoint reports 503 exactly when the model is not loaded or the breaker is open,
  and otherwise 200, degraded when Redis fails its ping or the breaker probes; but when the
  queue depth cannot be read there is no health report: the exception escapes, so that a Redis
  outage that makes the depth raise never shows as degraded.\<close>

theorem health_report:
  "health_check_route loaded redis_healthy cbs depth_action model s =
    (case depth_action s of
       (Inl e, s') \<Rightarrow> (Inl e, s')
     | (Inr depth, s') \<Rightarrow>
         (Inr (if \<not> loaded \<or> cbs = circuit_state.OPEN
               then \<lparr>status = 503, headers = [], content = Detail (Health_body ''unhealthy'' model
                       redis_healthy (circuit_value cbs) (int depth))\<rparr>
               else \<lparr>status = 200, headers = [], content = Health_body
                       (if redis_healthy \<and> cbs = circuit_state.CLOSED then ''healthy'' else ''degraded'')
                       model redis_healthy (circuit_value cbs) (int depth)\<rparr>), s'))"
  by (cases cbs) (auto simp: health_check_route_def bind_def ret_def Let_def split: prod.split sum.split)

text \<open>A denial tells the client long enough: the whole seconds of the \<^verbatim>\<open>Retry-After\<close> header
  exceed the waiting time that the token bucket computed, although it went through a
  floating-point division.\<close>

theorem denial_header_covers_wait:
  assumes "consume (extract_api_key auth) s = (Inr (False, info), s')"
    and "info_retry_after info = fdiv (of_int ms) 1000" and "0 \<le> ms" and "ms < 2 ^ 53"
  shows "\<exists>r secs. rate_limit_middleware consume auth route s = (Inr r, s') \<and> status r = 429 \<and>
    map_of (headers r) ''Retry-After'' = Some (str_int secs) \<and> of_int ms / 1000 < (of_int secs :: rat)"
  using assms(1,2) retry_after_header_covers [OF assms(3,4)]
  by (auto simp: rate_limit_middleware_def ret_def)

lemma denial_header_covers_wait_witness:
  "\<exists>r secs. rate_limit_middleware (\<lambda>k. ret (False, \<lparr>info_remaining = 0, info_limit = 10,
      info_retry_after = fdiv (of_int 1500) 1000\<rparr>)) (Some ''Bearer k1'') (ret (ok Stream_body)) () = (Inr r, ()) \<and>
    map_of (headers r) ''Retry-After'' = Some (str_int secs) \<and> (of_int 1500 / 1000 :: rat) < of_int secs"
  using denial_header_covers_wait [of "\<lambda>k. ret (False, \<lparr>info_remaining = 0, info_limit = 10,
      info_retry_after = fdiv (of_int 1500) 1000\<rparr>)" "Some ''Bearer k1''" "()" _ "()" 1500]
  by (fastforce simp: ret_def)

text \<open>Clients are told a tripped breaker is an internal error: the router turns every exception of
  the worker but timeouts, cancellations and a missing model into 500, \<^verbatim>\<open>CircuitOpenError\<close>
  included, for which the global handler would answer 503.\<close>

theorem open_circuit_is_reported_as_500:
  "status (fst (finish_completion model timeout_s r (Raised CircuitOpenError) pool)) = 500 \<and>
   status (global_exception_handler str_exn CircuitOpenError) = 503"
  by (simp add: finish_completion_def http_exception_def is_TimeoutError_def
      global_exception_handler_def exception_map_def)

text \<open>A request that could not be enqueued leaks: its future stays in the registry, unsettled,
  although the handler is gone and no worker will ever see the request.\<close>

theorem failed_enqueue_leaks_future:
  assumes "\<not> cr_stream body" and "admit \<noteq> Some False"
    and "enq r (cr_priority body) (request_payload body) z = (Inl e, z')"
  shows "\<exists>pool'. create_completion True admit r enq body pool z = (Inl e, pool', z') \<and>
    map_of (pending pool') r = Some (length (futures pool)) \<and>
    futures pool' = futures pool @ [Pending]"
proof -
  obtain f pool' where reg: "register_request r pool = (f, pool')" by force
  note fresh = register_request_fresh [OF reg]
  show ?thesis
    using assms reg by (auto simp: create_completion_def fresh update_conv')
qed

abbreviation "demo_body \<equiv> \<lparr>cr_prompt = ''hello'', cr_max_tokens = 16, cr_temperature = 1,
  cr_stream = False, cr_seed = None, cr_priority = 1\<rparr>"

lemma failed_enqueue_leaks_future_witness:
  "\<exists>pool'. create_completion True None ''cmpl-1'' (\<lambda>r p d. raise (RedisError ''down'')) demo_body
      (pool_start 1 (pool_init None)) () = (Inl (RedisError ''down''), pool', ()) \<and>
    map_of (pending pool') ''cmpl-1'' = Some 0"
  using failed_enqueue_leaks_future [of demo_body None "\<lambda>r p d. raise (RedisError ''down'')" "''cmpl-1''"
      "()" "RedisError ''down''" "()" "pool_start 1 (pool_init None)"]
  by (auto simp: raise_def pool_start_def pool_init_def)

end
