(* ===== verification/Direct_Routes.thy ===== *)
theory Direct_Routes
  imports Api Speculative_Decoding Streaming
begin

text \<open>
  The routes of \<^verbatim>\<open>api/router.py\<close> that do not go through the queue: the speculative completion,
  the synchronous response (which no route calls) and the streaming response.
\<close>

section \<open>The synchronous response\<close>

text \<open>
  \<open>w\<close> is how \<^verbatim>\<open>wait_for(run_in_executor(.., generate))\<close> ends.  There is no clause for
  \<^verbatim>\<open>CancelledError\<close>, so it escapes.
\<close>

definition create_sync_response :: "string \<Rightarrow> string \<Rightarrow> string \<Rightarrow> waited \<Rightarrow> response result" where
  "create_sync_response model_name timeout_s completion_id w =
     (case w of
        Returned (generated_text, prompt_tokens, completion_tokens) \<Rightarrow>
          Inr (ok (Completion_body completion_id model_name generated_text prompt_tokens completion_tokens
                 (prompt_tokens + completion_tokens)))
      | Timed_out_waiting \<Rightarrow> Inr (completion_timeout timeout_s)
      | Raised e \<Rightarrow>
          (if e = ModelNotLoadedError
           then Inr (http_exception 503 ''Model not loaded'' ''server_error'' 503 [])
           else if is_TimeoutError e then Inr (completion_timeout timeout_s)
           else if is_Exception e then Inr (http_exception 500 ''Inference failed'' ''server_error'' 500 [])
           else Inl e))"

section \<open>The speculative route\<close>

text \<open>
  \<open>orchestrator\<close> is \<^verbatim>\<open>app.state.spec_orchestrator\<close>: its models and its configuration.  The
  request's temperature and seed are not used.
\<close>

definition create_speculative_completion :: "torch \<Rightarrow> 'g manager \<Rightarrow> ('kv lms \<times> spec_config) option \<Rightarrow>
    nat option \<Rightarrow> string \<Rightarrow> string \<Rightarrow> completion_request \<Rightarrow> response rnd" where
  "create_speculative_completion T m orchestrator eos_token_id completion_id model_name body =
     (if \<not> is_loaded m
      then Done (http_exception 503 ''Model not loaded'' ''server_error'' 503 [])
      else case orchestrator of
        None \<Rightarrow> Done (http_exception 400
          ''Speculative decoding is not enabled. Set LLM_SPEC_ENABLED=true to enable.''
          ''configuration_error'' 400 [])
      | Some (L, cfg) \<Rightarrow>
          (case mm_tokenizer m of
             None \<Rightarrow> Fail (OtherException ''AssertionError'')
           | Some tok \<Rightarrow>
               (let input_ids = tok_encode tok (cr_prompt body) in
                rbind (generate T L cfg input_ids (cr_max_tokens body) eos_token_id)
                  (\<lambda>(generated_ids, metrics).
                     Done (ok (Speculative_body completion_id model_name (tok_decode tok generated_ids)
                       (int (length input_ids)) (int (length generated_ids))
                       (int (length input_ids) + int (length generated_ids))
                       (metrics_to_dict metrics)))))))"

section \<open>The streaming response\<close>

text \<open>
  The response object: headers, and the body as the texts that \<open>event_generator\<close> yields for
  what the consumer gets from the queue.
\<close>

definition streaming_headers :: "(string \<times> string) list" where
  "streaming_headers = [(''Cache-Control'', ''no-cache''), (''Connection'', ''keep-alive''),
     (''X-Accel-Buffering'', ''no'')]"

definition create_streaming_response :: "(string \<Rightarrow> string) \<Rightarrow> string \<Rightarrow> got list \<Rightarrow> response \<times> string list" where
  "create_streaming_response chunk_json timeout_json gets =
     (\<lparr>status = 200, headers = streaming_headers, content = Stream_body\<rparr>,
      map (render chunk_json) (event_generator timeout_json gets))"

section \<open>Properties\<close>

text \<open>The two ways to wait for a completion agree: for every way the inference can end, except
  that the handler itself is cancelled, the queued route and the synchronous one give the
  client the same response; a cancellation escapes from the synchronous one.\<close>

theorem sync_response_agrees_with_queued:
  "create_sync_response model_name timeout_s r w =
     (if w = Raised CancelledError then Inl CancelledError
      else Inr (fst (finish_completion model_name timeout_s r w pool)))"
  by (cases w) (auto simp: create_sync_response_def finish_completion_def is_Exception_def is_TimeoutError_def
      split: prod.split)

text \<open>C35: Every answer of the speculative route is one of three: 503 while the model is not loaded,
  400 while speculative decoding is off (it does not fall back to standard generation), and
  otherwise 200, whose usage counts are those of the prompt and of the tokens returned, whose
  metrics report that same number of tokens, and which exceeds the requested limit by at most
  the draft length.\<close>

theorem speculative_route_answers:
  "always (\<lambda>r.
     if \<not> is_loaded m then status r = 503
     else case orchestrator of None \<Rightarrow> status r = 400
       | Some (L, cfg) \<Rightarrow> status r = 200 \<and>
           (\<exists>text p c metrics. content r = Speculative_body i model_name text p c (p + c) metrics \<and>
              p = int (length (tok_encode (the (mm_tokenizer m)) (cr_prompt body))) \<and> 0 \<le> c \<and>
              c \<le> max 0 (cr_max_tokens body + num_draft_tokens cfg) \<and>
              map_of metrics ''total_generated'' = Some (of_int c)))
   (create_speculative_completion T m orchestrator eos i model_name body)"
proof (cases "is_loaded m \<and> orchestrator \<noteq> None")
  case True
  then obtain L cfg tok where orch: "orchestrator = Some (L, cfg)" and tok: "mm_tokenizer m = Some tok"
    by (auto simp: is_loaded_def)
  have "always (generated_ok cfg (cr_max_tokens body) eos)
      (generate T L cfg (tok_encode tok (cr_prompt body)) (cr_max_tokens body) eos)"
    unfolding generate_def by (rule generate_loop_ok) (simp_all add: metrics_ok_def metrics_init_def)
  then show ?thesis
    using True orch tok
    by (auto simp: create_speculative_completion_def always_rbind Let_def ok_def generated_ok_def
        metrics_to_dict_def elim!: always_mono)
next
  case False
  then show ?thesis
    by (cases orchestrator) (auto simp: create_speculative_completion_def http_exception_def)
qed

end
