(* ===== verification/App_Config.thy ===== *)
theory App_Config
  imports Float_Arith Prelude
begin

text \<open>
  \<^verbatim>\<open>config.py\<close> and \<^verbatim>\<open>logging.py\<close>: the settings with their defaults, the cached accessor, and
  what \<^verbatim>\<open>setup_logging\<close> leaves in the standard logging module.  Reading the environment is
  pydantic's: \<open>read\<close> is what \<^verbatim>\<open>Settings()\<close> returns or raises.
\<close>

section \<open>Settings\<close>

record settings =
  cfg_app_env :: string
  cfg_model_name :: string
  cfg_device :: string
  cfg_max_new_tokens :: int
  cfg_generation_timeout_s :: float
  cfg_max_concurrent_requests :: int
  cfg_host :: string
  cfg_port :: int
  cfg_log_level :: string
  cfg_redis_url :: string
  cfg_rate_limit_bucket_size :: int
  cfg_rate_limit_refill_rate :: float
  cfg_max_queue_depth :: int
  cfg_circuit_breaker_failure_threshold :: int
  cfg_circuit_breaker_recovery_timeout_s :: float
  cfg_max_batch_size :: int
  cfg_max_batch_wait_ms :: int
  cfg_batching_enabled :: bool
  cfg_kv_cache_max_memory_mb :: int
  cfg_kv_cache_max_entries :: int
  cfg_kv_cache_enabled :: bool
  cfg_kv_cache_prefix_tokens :: int
  cfg_spec_enabled :: bool
  cfg_spec_draft_model_name :: string
  cfg_spec_num_draft_tokens :: int
  cfg_spec_temperature :: float

definition default_settings :: settings where
  "default_settings =
     \<lparr>cfg_app_env = ''development'',
      cfg_model_name = ''TinyLlama/TinyLlama-1.1B-Chat-v1.0'',
      cfg_device = ''cpu'',
      cfg_max_new_tokens = 256,
      cfg_generation_timeout_s = 60,
      cfg_max_concurrent_requests = 1,
      cfg_host = ''0.0.0.0'',
      cfg_port = 8000,
      cfg_log_level = ''info'',
      cfg_redis_url = ''redis://localhost:6379/0'',
      cfg_rate_limit_bucket_size = 10,
      cfg_rate_limit_refill_rate = 2,
      cfg_max_queue_depth = 100,
      cfg_circuit_breaker_failure_threshold = 5,
      cfg_circuit_breaker_recovery_timeout_s = 30,
      cfg_max_batch_size = 8,
      cfg_max_batch_wait_ms = 50,
      cfg_batching_enabled = True,
      cfg_kv_cache_max_memory_mb = 512,
      cfg_kv_cache_max_entries = 100,
      cfg_kv_cache_enabled = True,
      cfg_kv_cache_prefix_tokens = 0,
      cfg_spec_enabled = False,
      cfg_spec_draft_model_name = ''TinyLlama/TinyLlama-1.1B-Chat-v1.0'',
      cfg_spec_num_draft_tokens = 5,
      cfg_spec_temperature = 1\<rparr>"

text \<open>\<^verbatim>\<open>@lru_cache\<close>: the first settings read are kept; an exception is not.\<close>

definition get_settings :: "settings result \<Rightarrow> settings option \<Rightarrow> settings result \<times> settings option" where
  "get_settings read cached =
     (case cached of
        Some s \<Rightarrow> (Inr s, cached)
      | None \<Rightarrow> (case read of Inl e \<Rightarrow> (Inl e, None) | Inr s \<Rightarrow> (Inr s, Some s)))"

lemma get_settings_once:
  "get_settings read cached = (Inr s, c) \<Longrightarrow> get_settings read' c = (Inr s, c)"
  by (auto simp: get_settings_def split: option.splits sum.splits)

section \<open>Logging\<close>

datatype renderer = JSON_renderer | Console_renderer

text \<open>The processors of \<^verbatim>\<open>structlog\<close> that \<^verbatim>\<open>setup_logging\<close> names, in the places where it puts them.\<close>

datatype processor =
    Merge_contextvars
  | Add_log_level
  | Add_logger_name
  | Time_stamper string
  | Stack_info_renderer
  | Unicode_decoder
  | Wrap_for_formatter
  | Remove_processors_meta
  | Render renderer

definition shared_processors :: "processor list" where
  "shared_processors =
     [Merge_contextvars, Add_log_level, Add_logger_name, Time_stamper ''iso'', Stack_info_renderer,
      Unicode_decoder]"

record formatter =
  fm_processors :: "processor list"
  fm_foreign_pre_chain :: "processor list"

text \<open>
  What \<^verbatim>\<open>structlog.configure\<close> is given; the logger factory and the wrapper class are the ones for
  the \<^verbatim>\<open>logging\<close> module.
\<close>

record structlog_config =
  sc_processors :: "processor list"
  sc_cache_logger_on_first_use :: bool

record log_state =
  structlog_conf :: "structlog_config option"
  root_handlers :: "formatter list"
  root_level :: int
  logger_levels :: "(string \<times> int) list"

definition upper_char :: "char \<Rightarrow> char" where
  "upper_char c = (let n = of_char c :: nat in if 97 \<le> n \<and> n \<le> 122 then char_of (n - 32) else c)"

text \<open>
  \<^verbatim>\<open>getattr(logging, log_level.upper(), logging.INFO)\<close>.  The module has eight attributes that
  are levels, and two more whose names are their own upper case but which \<^verbatim>\<open>setLevel\<close> refuses.
\<close>

definition level_attributes :: "(string \<times> int) list" where
  "level_attributes =
     [(''CRITICAL'', 50), (''FATAL'', 50), (''ERROR'', 40), (''WARNING'', 30), (''WARN'', 30),
      (''INFO'', 20), (''DEBUG'', 10), (''NOTSET'', 0)]"

definition log_level_of :: "string \<Rightarrow> int result" where
  "log_level_of log_level =
     (let name = map upper_char log_level in
      if name = ''BASIC_FORMAT'' then Inl (OtherException ''ValueError'')
      else if name = ''_STYLES'' then Inl (OtherException ''TypeError'')
      else Inr (case map_of level_attributes name of Some n \<Rightarrow> n | None \<Rightarrow> 20))"

text \<open>The level is set after the root handler was replaced, so an exception comes after that.\<close>

definition setup_logging :: "string \<Rightarrow> bool \<Rightarrow> log_state \<Rightarrow> unit result \<times> log_state" where
  "setup_logging log_level json_format s =
     (let renderer = (if json_format then JSON_renderer else Console_renderer);
          s = s\<lparr>structlog_conf := Some \<lparr>sc_processors = shared_processors @ [Wrap_for_formatter],
                                        sc_cache_logger_on_first_use = True\<rparr>\<rparr>;
          formatter = \<lparr>fm_processors = [Remove_processors_meta, Render renderer],
                       fm_foreign_pre_chain = shared_processors\<rparr>;
          s = s\<lparr>root_handlers := [formatter]\<rparr>
      in case log_level_of log_level of
           Inl e \<Rightarrow> (Inl e, s)
         | Inr level \<Rightarrow>
             (Inr (), s\<lparr>root_level := level,
                logger_levels := AList.update ''torch'' 30 (AList.update ''transformers'' 30 (logger_levels s))\<rparr>))"

text \<open>\<^verbatim>\<open>get_logger\<close> passes the name on to \<^verbatim>\<open>structlog\<close>, a parameter.\<close>

definition get_logger :: "(string \<Rightarrow> 'logger) \<Rightarrow> string \<Rightarrow> 'logger" where
  "get_logger structlog_get_logger name = structlog_get_logger name"

text \<open>
  What an event passes, as \<^verbatim>\<open>structlog\<close> documents it: from a logger of the service the configured
  processors and then the formatter of the handler; from another library the formatter's pre-chain
  first.
\<close>

definition service_path :: "structlog_config \<Rightarrow> formatter \<Rightarrow> processor list" where
  "service_path conf fm = sc_processors conf @ fm_processors fm"

definition foreign_path :: "formatter \<Rightarrow> processor list" where
  "foreign_path fm = fm_foreign_pre_chain fm @ fm_processors fm"

text \<open>Calling it again leaves one root handler, the one of the last call.\<close>

lemma setup_logging_one_handler:
  "map (last \<circ> fm_processors) (root_handlers (snd (setup_logging l j s))) =
    [Render (if j then JSON_renderer else Console_renderer)]"
  by (simp add: setup_logging_def Let_def split: sum.split)

text \<open>
  Events of the service and of other libraries pass the same processors, but for the hand-over to
  the formatter, and end in the renderer of the environment.
\<close>

lemma one_pipeline:
  assumes "setup_logging l j s = (res, s')"
  shows "\<exists>conf fm. structlog_conf s' = Some conf \<and> root_handlers s' = [fm] \<and>
    filter (\<lambda>p. p \<noteq> Wrap_for_formatter) (service_path conf fm) = foreign_path fm \<and>
    last (foreign_path fm) = Render (if j then JSON_renderer else Console_renderer)"
  using assms
  by (auto simp: setup_logging_def service_path_def foreign_path_def shared_processors_def Let_def
      split: sum.splits)

lemma setup_logging_again:
  assumes "setup_logging l j s = (Inr (), s')" and "distinct (keys (logger_levels s))"
  shows "setup_logging l j s' = (Inr (), s')"
proof -
  have "AList.update k v (AList.update k v d) = AList.update k v d" for k v and d :: "(string \<times> int) list"
    by (induction d) auto
  moreover have "AList.update ''transformers'' 30 (AList.update ''torch'' 30 (AList.update ''transformers'' 30 d)) =
      AList.update ''torch'' 30 (AList.update ''transformers'' 30 d)" for d :: "(string \<times> int) list"
    by (induction d) auto
  ultimately show ?thesis
    using assms(1) by (auto simp: setup_logging_def Let_def split: sum.splits)
qed

lemma log_level_of_info: "log_level_of ''info'' = Inr 20"
  by code_simp

end
