(* ===== verification/Serving.thy ===== *)
theory Serving
  imports Batched_Pool Direct_Routes App_Config
begin

text \<open>
  The lifespan of the application (\<^verbatim>\<open>main.py\<close>): what the start builds, in the order of the code and
  with the failures of its parts, the traffic of the running service, and the shutdown.  A part of
  the start is an action on the objects built so far; an exception leaves them as they are.
\<close>

section \<open>State\<close>

text \<open>What the libraries return while the service starts.\<close>

type_synonym 'kv draft_model = "'kv option \<Rightarrow> nat list \<Rightarrow> real list list \<times> 'kv"

record ('g, 'kv) libs =
  lib_settings :: "settings result"
  lib_tokenizer :: "tokenizer result"
  lib_eos :: "nat option"
  lib_model :: "'g engine result"
  lib_target_forward :: "'g engine \<Rightarrow> nat list \<Rightarrow> real list list"
  lib_from_url :: "unit result"
  lib_ping :: "bool result"
  lib_draft_tokenizer :: "tokenizer result"
  lib_draft_eos :: "nat option"
  lib_draft_model :: "'kv draft_model result"
  lib_softmax :: "real list \<Rightarrow> real list"
  lib_scale :: "real list \<Rightarrow> real \<Rightarrow> real list"
  lib_mem_config :: "mem_config result"
  lib_cuda :: "cuda_device option"
  lib_add_handler :: "string \<Rightarrow> unit result"

record executor =
  max_workers :: int
  accepting :: bool

record 'kv draft_runner =
  dr_model :: "'kv draft_model option"
  dr_tokenizer :: "tokenizer option"

text \<open>
  The cached settings, the logging set-up, and the objects of \<^verbatim>\<open>app.state\<close> and of the running
  \<^verbatim>\<open>lifespan\<close>.  The circuit breaker is the one in the pool.  The prefix cache is the one in the
  pressure handler.  \<open>sv_awaiting\<close> is, per worker, the batch future it waits for.
\<close>

record ('g, 'kv) serving =
  sv_settings :: "settings option"
  sv_log :: log_state
  sv_manager :: "'g manager option"
  sv_executor :: "executor option"
  sv_redis :: "redis_client option"
  sv_limiter :: "limiter option"
  sv_scheduler :: "scheduler option"
  sv_pool :: "completion pool option"
  sv_awaiting :: "nat \<Rightarrow> nat option"
  sv_orchestrator :: "('kv lms \<times> spec_config) option"
  sv_tracker :: "tracker option"
  sv_pressure :: "(pressure monitor \<times> pressure) option"
  sv_lifecycle :: "lifecycle option"

definition serving_init :: "log_state \<Rightarrow> ('g, 'kv) serving" where
  "serving_init lg =
     \<lparr>sv_settings = None, sv_log = lg, sv_manager = None, sv_executor = None, sv_redis = None,
      sv_limiter = None, sv_scheduler = None, sv_pool = None, sv_awaiting = (\<lambda>_. None),
      sv_orchestrator = None, sv_tracker = None, sv_pressure = None, sv_lifecycle = None\<rparr>"

section \<open>Start\<close>

definition start_settings :: "('g, 'kv) libs \<Rightarrow> (settings, ('g, 'kv) serving) action" where
  "start_settings L s =
     (let (res, cached) = get_settings (lib_settings L) (sv_settings s)
      in (res, s\<lparr>sv_settings := cached\<rparr>))"

definition start_logging :: "settings \<Rightarrow> (unit, ('g, 'kv) serving) action" where
  "start_logging cfg s =
     (let (res, lg) = setup_logging (cfg_log_level cfg) (cfg_app_env cfg \<noteq> ''development'') (sv_log s)
      in (res, s\<lparr>sv_log := lg\<rparr>))"

definition start_model :: "('g, 'kv) libs \<Rightarrow> ('g manager, ('g, 'kv) serving) action" where
  "start_model L s =
     (let (res, m) = load_model (lib_tokenizer L) (lib_eos L) (lib_model L) manager_init;
          s = s\<lparr>sv_manager := Some m\<rparr>
      in case res of Inl e \<Rightarrow> (Inl e, s) | Inr _ \<Rightarrow> (Inr m, s))"

definition start_executor :: "settings \<Rightarrow> (unit, ('g, 'kv) serving) action" where
  "start_executor cfg s =
     (if cfg_max_concurrent_requests cfg \<le> 0 then (Inl (OtherException ''ValueError''), s)
      else (Inr (), s\<lparr>sv_executor := Some
              \<lparr>max_workers = cfg_max_concurrent_requests cfg, accepting = True\<rparr>\<rparr>))"

definition start_redis :: "('g, 'kv) libs \<Rightarrow> settings \<Rightarrow> (unit, ('g, 'kv) serving) action" where
  "start_redis L cfg s =
     (let (res, cl, _) = connect (lib_from_url L) (\<lambda>z. (lib_ping L, z)) (redis_client_init (cfg_redis_url cfg)) ()
      in (res, s\<lparr>sv_redis := Some cl\<rparr>))"

definition start_limiter :: "settings \<Rightarrow> (unit, ('g, 'kv) serving) action" where
  "start_limiter cfg s =
     (Inr (), s\<lparr>sv_limiter := Some (limiter_init (cfg_rate_limit_bucket_size cfg)
                  (cfg_rate_limit_refill_rate cfg) ''rate_limit'')\<rparr>)"

definition make_breaker :: "settings \<Rightarrow> breaker" where
  "make_breaker cfg =
     breaker_init (cfg_circuit_breaker_failure_threshold cfg)
       (cfg_circuit_breaker_recovery_timeout_s cfg) 1"

definition make_kv_cache :: "settings \<Rightarrow> kv_cache option" where
  "make_kv_cache cfg =
     (if cfg_kv_cache_enabled cfg
      then Some (kv_init (cfg_kv_cache_max_memory_mb cfg * 1024 * 1024) (cfg_kv_cache_max_entries cfg))
      else None)"

definition start_scheduler :: "settings \<Rightarrow> (unit, ('g, 'kv) serving) action" where
  "start_scheduler cfg s =
     (Inr (), if cfg_batching_enabled cfg
              then s\<lparr>sv_scheduler := Some (scheduler_start (scheduler_init (cfg_max_batch_size cfg)))\<rparr>
              else s)"

definition start_workers :: "settings \<Rightarrow> breaker \<Rightarrow> (unit, ('g, 'kv) serving) action" where
  "start_workers cfg cb s =
     (Inr (), s\<lparr>sv_pool := Some (pool_start (cfg_max_concurrent_requests cfg)
                  (pool_init (Some cb)))\<rparr>)"

text \<open>\<^verbatim>\<open>DraftModelRunner.load\<close>: the pad token is replaced after the model is loaded.\<close>

definition draft_init :: "'kv draft_runner" where
  "draft_init = \<lparr>dr_model = None, dr_tokenizer = None\<rparr>"

definition draft_load :: "tokenizer result \<Rightarrow> nat option \<Rightarrow> 'kv draft_model result \<Rightarrow>
    'kv draft_runner \<Rightarrow> unit result \<times> 'kv draft_runner" where
  "draft_load loaded_tokenizer eos_token_id loaded_model d =
     (case loaded_tokenizer of
        Inl e \<Rightarrow> (Inl e, d)
      | Inr tok \<Rightarrow>
          (let d = d\<lparr>dr_tokenizer := Some tok\<rparr> in
           case loaded_model of
             Inl e \<Rightarrow> (Inl e, d)
           | Inr model \<Rightarrow>
               (Inr (), d\<lparr>dr_model := Some model,
                  dr_tokenizer := Some (if pad_token_id tok = None
                    then tok\<lparr>pad_token_id := eos_token_id\<rparr> else tok)\<rparr>)))"

text \<open>
  The orchestrator's two models: the draft model just loaded and the target model of the model
  manager, which \<open>start_model\<close> left there.
\<close>

definition start_speculation :: "('g, 'kv) libs \<Rightarrow> settings \<Rightarrow> 'g manager \<Rightarrow>
    (unit, ('g, 'kv) serving) action" where
  "start_speculation L cfg m s =
     (if cfg_spec_enabled cfg then
        (let (res, d) = draft_load (lib_draft_tokenizer L) (lib_draft_eos L) (lib_draft_model L) draft_init in
         case res of
           Inl e \<Rightarrow> (Inl e, s)
         | Inr _ \<Rightarrow>
             (Inr (), s\<lparr>sv_orchestrator := Some
                (\<lparr>draft_forward = the (dr_model d), target_forward = lib_target_forward L (the (mm_model m)),
                  softmax = lib_softmax L, t_scale = lib_scale L\<rparr>,
                 \<lparr>num_draft_tokens = cfg_spec_num_draft_tokens cfg,
                  spec_temperature = real_of_rat (cfg_spec_temperature cfg),
                  min_acceptance_rate = fl64 (3 / 10), fallback_on_low_acceptance = True\<rparr>)\<rparr>))
      else (Inr (), s))"

text \<open>\<^verbatim>\<open>MemoryProfilerConfig()\<close> reads the environment; these are its defaults.\<close>

definition default_mem_config :: mem_config where
  "default_mem_config =
     \<lparr>mem_enabled = True, high_watermark_ratio = fl64 (85 / 100),
      critical_watermark_ratio = fl64 (95 / 100), total_memory_bytes = 0, enable_cuda = False\<rparr>"

definition start_memory :: "('g, 'kv) libs \<Rightarrow> kv_cache option \<Rightarrow> (unit, ('g, 'kv) serving) action" where
  "start_memory L kv s =
     (case lib_mem_config L of
        Inl e \<Rightarrow> (Inl e, s)
      | Inr cfg \<Rightarrow>
          (case tracker_init cfg (lib_cuda L) of
             Inl e \<Rightarrow> (Inl e, s)
           | Inr tr \<Rightarrow>
               (Inr (), s\<lparr>sv_tracker := Some tr,
                  sv_pressure := Some (pressure_init
                    (monitor_init (high_watermark_ratio cfg) (critical_watermark_ratio cfg)) kv)\<rparr>)))"

definition start_lifecycle :: "('g, 'kv) libs \<Rightarrow> (unit, ('g, 'kv) serving) action" where
  "start_lifecycle L s =
     (let (res, l) = register_signals (lib_add_handler L) lifecycle_init
      in (res, s\<lparr>sv_lifecycle := Some l\<rparr>))"

definition startup :: "('g, 'kv) libs \<Rightarrow> (unit, ('g, 'kv) serving) action" where
  "startup L =
     bind (start_settings L) (\<lambda>cfg.
     bind (start_logging cfg) (\<lambda>_.
     bind (start_model L) (\<lambda>m.
     bind (start_executor cfg) (\<lambda>_.
     bind (start_redis L cfg) (\<lambda>_.
     bind (start_limiter cfg) (\<lambda>_.
     let cb = make_breaker cfg; kv = make_kv_cache cfg in
     bind (start_scheduler cfg) (\<lambda>_.
     bind (start_workers cfg cb) (\<lambda>_.
     bind (start_speculation L cfg m) (\<lambda>_.
     bind (start_memory L kv) (\<lambda>_.
     start_lifecycle L))))))))))"

section \<open>Shutdown\<close>

text \<open>The worker side of the service: the pool, with the batch scheduler when there is one.\<close>

definition batched_side :: "('g, 'kv) serving \<Rightarrow> batched option" where
  "batched_side s =
     (case (sv_pool s, sv_scheduler s) of
        (Some p, Some sc) \<Rightarrow> Some \<lparr>bp_pool = p, bp_sched = sc, awaiting = sv_awaiting s\<rparr>
      | _ \<Rightarrow> None)"

definition set_batched :: "batched \<Rightarrow> ('g, 'kv) serving \<Rightarrow> ('g, 'kv) serving" where
  "set_batched b s =
     s\<lparr>sv_pool := Some (bp_pool b), sv_scheduler := Some (bp_sched b), sv_awaiting := awaiting b\<rparr>"

definition stop_workers :: "('g, 'kv) serving \<Rightarrow> ('g, 'kv) serving" where
  "stop_workers s =
     (case batched_side s of
        Some b \<Rightarrow> set_batched (batched_stop b) s
      | None \<Rightarrow> s\<lparr>sv_pool := map_option pool_stop (sv_pool s)\<rparr>)"

definition clear_kv_cache :: "('g, 'kv) serving \<Rightarrow> ('g, 'kv) serving" where
  "clear_kv_cache s =
     s\<lparr>sv_pressure := map_option (map_prod id (\<lambda>h. h\<lparr>pr_kv := map_option kv_clear (pr_kv h)\<rparr>)) (sv_pressure s)\<rparr>"

definition close_redis :: "unit result \<Rightarrow> (unit, ('g, 'kv) serving) action" where
  "close_redis aclose s =
     (case sv_redis s of
        None \<Rightarrow> (Inr (), s)
      | Some cl \<Rightarrow> (let (res, cl) = close aclose cl in (res, s\<lparr>sv_redis := Some cl\<rparr>)))"

definition stop_executor :: "('g, 'kv) serving \<Rightarrow> ('g, 'kv) serving" where
  "stop_executor s = s\<lparr>sv_executor := map_option (\<lambda>x. x\<lparr>accepting := False\<rparr>) (sv_executor s)\<rparr>"

text \<open>
  The part of \<^verbatim>\<open>lifespan\<close> after the \<^verbatim>\<open>yield\<close>; \<open>completions\<close> is the number of tracked requests that
  complete while it waits for them, \<open>aclose\<close> what closing the connections returns or raises.
\<close>

definition lifespan_stop :: "unit result \<Rightarrow> nat \<Rightarrow> ('g, 'kv) serving \<Rightarrow>
    drain_end option \<times> unit result \<times> ('g, 'kv) serving" where
  "lifespan_stop aclose completions s =
     (let drain_end = map_option (wait_for_drain completions) (sv_lifecycle s);
          s = stop_workers s;
          s = s\<lparr>sv_scheduler := map_option scheduler_stop (sv_scheduler s)\<rparr>;
          s = clear_kv_cache s
      in case close_redis aclose s of
           (Inl e, s) \<Rightarrow> (drain_end, Inl e, s)
         | (Inr _, s) \<Rightarrow> (drain_end, Inr (), stop_executor s))"

definition is_ok :: "'a result \<Rightarrow> bool" where
  "is_ok r = (case r of Inl e \<Rightarrow> False | Inr _ \<Rightarrow> True)"

section \<open>The running service\<close>

text \<open>
  What can happen between start and shutdown: a step of the worker side, an admission check,
  the rate limiter remembering its script, a signal.
\<close>

datatype traffic =
    Batched_traffic batched_event
  | Pool_traffic "completion event"
  | Admission "cuda_device option"
  | Limited "string option"
  | Signalled

inductive serving_step :: "traffic \<Rightarrow> ('g, 'kv) serving \<Rightarrow> ('g, 'kv) serving \<Rightarrow> bool" where
  batched: "e \<noteq> Shutdown \<Longrightarrow> batched_side s = Some b \<Longrightarrow> batched_step e b b' \<Longrightarrow>
     serving_step (Batched_traffic e) s (set_batched b' s)"
| direct: "e \<noteq> Stop \<Longrightarrow> sv_scheduler s = None \<Longrightarrow> sv_pool s = Some p \<Longrightarrow> pool_step e p p' \<Longrightarrow>
     serving_step (Pool_traffic e) s (s\<lparr>sv_pool := Some p'\<rparr>)"
| admission: "sv_tracker s = Some tr \<Longrightarrow> sv_pressure s = Some p \<Longrightarrow>
     serving_step (Admission dev) s (s\<lparr>sv_pressure := Some (snd (should_admit dev tr p))\<rparr>)"
| limited: "sv_limiter s = Some rl \<Longrightarrow>
     serving_step (Limited sha) s (s\<lparr>sv_limiter := Some (rl\<lparr>script_sha := sha\<rparr>)\<rparr>)"
| signalled: "sv_lifecycle s = Some l \<Longrightarrow>
     serving_step Signalled s (s\<lparr>sv_lifecycle := Some (handle_signal l)\<rparr>)"

inductive_cases serving_step_cases: "serving_step t s s'"

inductive serving_reachable :: "('g, 'kv) libs \<Rightarrow> ('g, 'kv) serving \<Rightarrow> bool" for L where
  init: "startup L (serving_init lg) = (Inr (), s) \<Longrightarrow> serving_reachable L s"
| step: "serving_reachable L s \<Longrightarrow> serving_step t s s' \<Longrightarrow> serving_reachable L s'"

text \<open>
  A history collects the futures whose registry entry was overwritten by a request with the same
  id, as far as the pool's own steps do (\<open>overwritten\<close>).
\<close>

definition lost_in :: "traffic \<Rightarrow> ('g, 'kv) serving \<Rightarrow> nat set" where
  "lost_in t s =
     (case sv_pool s of
        None \<Rightarrow> {}
      | Some p \<Rightarrow> (case t of Batched_traffic (Request e) \<Rightarrow> overwritten e p | Pool_traffic e \<Rightarrow> overwritten e p | _ \<Rightarrow> {}))"

inductive serving_history :: "('g, 'kv) libs \<Rightarrow> nat set \<Rightarrow> ('g, 'kv) serving \<Rightarrow> bool" for L where
  init: "startup L (serving_init lg) = (Inr (), s) \<Longrightarrow> serving_history L {} s"
| step: "serving_history L Os s \<Longrightarrow> serving_step t s s' \<Longrightarrow> serving_history L (Os \<union> lost_in t s) s'"

lemma serving_reachable_history: "serving_reachable L s \<longleftrightarrow> (\<exists>Os. serving_history L Os s)"
proof
  show "\<exists>Os. serving_history L Os s" if "serving_reachable L s"
    using that by (induction rule: serving_reachable.induct) (blast intro: serving_history.intros)+
  have "serving_reachable L s" if "serving_history L Os s" for Os
    using that by (induction rule: serving_history.induct) (blast intro: serving_reachable.intros)+
  then show "\<exists>Os. serving_history L Os s \<Longrightarrow> serving_reachable L s" by blast
qed

section \<open>The invariant\<close>

text \<open>
  The worker side is in a state that its own theory reaches from the configured start, with the
  batch scheduler exactly when batching is on.
\<close>

definition worker_side_ok :: "settings \<Rightarrow> ('g, 'kv) serving \<Rightarrow> bool" where
  "worker_side_ok cfg s \<longleftrightarrow>
     (\<exists>p. sv_pool s = Some p \<and>
       (case sv_scheduler s of
          None \<Rightarrow> \<not> cfg_batching_enabled cfg \<and>
            pool_reachable (Some (make_breaker cfg)) (cfg_max_concurrent_requests cfg) p
        | Some sc \<Rightarrow> cfg_batching_enabled cfg \<and>
            batched_reachable (Some (make_breaker cfg)) (cfg_max_concurrent_requests cfg)
              (cfg_max_batch_size cfg) \<lparr>bp_pool = p, bp_sched = sc, awaiting = sv_awaiting s\<rparr>))"

definition memory_side_ok :: "settings \<Rightarrow> mem_config \<Rightarrow> ('g, 'kv) serving \<Rightarrow> bool" where
  "memory_side_ok cfg mem s \<longleftrightarrow>
     (0 \<le> cfg_kv_cache_max_memory_mb cfg \<and> 0 \<le> cfg_kv_cache_max_entries cfg \<longrightarrow>
      (\<exists>p levels. sv_pressure s = Some p \<and>
        pressure_reachable (high_watermark_ratio mem) (critical_watermark_ratio mem) levels p))"

definition objects_ok :: "settings \<Rightarrow> ('g, 'kv) serving \<Rightarrow> bool" where
  "objects_ok cfg s \<longleftrightarrow>
     (\<exists>m. sv_manager s = Some m \<and> is_loaded m) \<and>
     0 < cfg_max_concurrent_requests cfg \<and>
     sv_executor s = Some \<lparr>max_workers = cfg_max_concurrent_requests cfg, accepting = True\<rparr> \<and>
     sv_redis s = Some \<lparr>redis_url = cfg_redis_url cfg, redis_open = True\<rparr> \<and>
     (\<exists>sha. sv_limiter s = Some ((limiter_init (cfg_rate_limit_bucket_size cfg)
        (cfg_rate_limit_refill_rate cfg) ''rate_limit'')\<lparr>script_sha := sha\<rparr>)) \<and>
     (sv_orchestrator s \<noteq> None \<longleftrightarrow> cfg_spec_enabled cfg) \<and>
     sv_tracker s \<noteq> None \<and> sv_pressure s \<noteq> None \<and> sv_settings s = Some cfg \<and>
     (\<exists>k. sv_lifecycle s = Some (life_run (Signals # replicate k Signal)))"

definition serving_ok :: "('g, 'kv) libs \<Rightarrow> ('g, 'kv) serving \<Rightarrow> bool" where
  "serving_ok L s \<longleftrightarrow>
     (\<exists>cfg mem. lib_settings L = Inr cfg \<and> lib_mem_config L = Inr mem \<and>
       objects_ok cfg s \<and> worker_side_ok cfg s \<and> memory_side_ok cfg mem s)"

lemmas start_defs = startup_def start_settings_def start_logging_def start_model_def start_executor_def
  start_redis_def start_limiter_def start_scheduler_def start_workers_def start_speculation_def
  start_memory_def start_lifecycle_def

lemma bind_Inr: "bind m f s = (Inr b, s'') \<longleftrightarrow> (\<exists>a s'. m s = (Inr a, s') \<and> f a s' = (Inr b, s''))"
  by (auto simp: bind_def split: prod.splits sum.splits)

lemma load_model_loads: "load_model t e m manager_init = (Inr (), mm) \<Longrightarrow> is_loaded mm"
  by (auto simp: load_model_def manager_init_def is_loaded_def Let_def split: sum.splits)

lemma make_kv_cache_inv:
  "0 \<le> cfg_kv_cache_max_memory_mb cfg \<Longrightarrow> 0 \<le> cfg_kv_cache_max_entries cfg \<Longrightarrow>
   make_kv_cache cfg = Some c \<Longrightarrow> kv_inv c"
  by (auto simp: make_kv_cache_def intro: inv_intros split: if_splits)

lemma start_Inr:
  "start_settings L s = (Inr cfg, s') \<longleftrightarrow>
     (\<exists>c. get_settings (lib_settings L) (sv_settings s) = (Inr cfg, c) \<and> s' = s\<lparr>sv_settings := c\<rparr>)"
  "start_logging cfg s = (Inr u, s') \<longleftrightarrow>
     (\<exists>l. setup_logging (cfg_log_level cfg) (cfg_app_env cfg \<noteq> ''development'') (sv_log s) = (Inr (), l) \<and>
        s' = s\<lparr>sv_log := l\<rparr>)"
  "start_model L s = (Inr m, s') \<longleftrightarrow>
     load_model (lib_tokenizer L) (lib_eos L) (lib_model L) manager_init = (Inr (), m) \<and>
     s' = s\<lparr>sv_manager := Some m\<rparr>"
  "start_executor cfg s = (Inr u, s') \<longleftrightarrow> 0 < cfg_max_concurrent_requests cfg \<and>
     s' = s\<lparr>sv_executor := Some \<lparr>max_workers = cfg_max_concurrent_requests cfg, accepting = True\<rparr>\<rparr>"
  "start_redis L cfg s = (Inr u, s') \<longleftrightarrow> lib_from_url L = Inr () \<and> (\<exists>b. lib_ping L = Inr b) \<and>
     s' = s\<lparr>sv_redis := Some \<lparr>redis_url = cfg_redis_url cfg, redis_open = True\<rparr>\<rparr>"
  "start_limiter cfg s = (Inr u, s') \<longleftrightarrow>
     s' = s\<lparr>sv_limiter := Some (limiter_init (cfg_rate_limit_bucket_size cfg)
                  (cfg_rate_limit_refill_rate cfg) ''rate_limit'')\<rparr>"
  by (auto simp: start_defs connect_def redis_client_init_def Let_def split: prod.splits sum.splits if_splits)

lemma start_speculation_Inr:
  "start_speculation L cfg m s = (Inr u, s') \<Longrightarrow>
     s' = s\<lparr>sv_orchestrator := sv_orchestrator s'\<rparr> \<and>
     (if cfg_spec_enabled cfg then sv_orchestrator s' \<noteq> None else s' = s)"
  by (auto simp: start_speculation_def Let_def split: prod.splits sum.splits if_splits)

lemma start_memory_Inr:
  "start_memory L kv s = (Inr u, s') \<longleftrightarrow>
     (\<exists>mem tr. lib_mem_config L = Inr mem \<and> tracker_init mem (lib_cuda L) = Inr tr \<and>
        s' = s\<lparr>sv_tracker := Some tr,
               sv_pressure := Some (pressure_init
                 (monitor_init (high_watermark_ratio mem) (critical_watermark_ratio mem)) kv)\<rparr>)"
  by (auto simp: start_memory_def split: sum.splits)

lemma startup_Inr:
  assumes "startup L (serving_init lg) = (Inr (), s)"
  shows "\<exists>cfg mem m tr. lib_settings L = Inr cfg \<and> lib_mem_config L = Inr mem \<and>
    sv_settings s = Some cfg \<and> sv_manager s = Some m \<and> is_loaded m \<and>
    0 < cfg_max_concurrent_requests cfg \<and>
    sv_executor s = Some \<lparr>max_workers = cfg_max_concurrent_requests cfg, accepting = True\<rparr> \<and>
    sv_redis s = Some \<lparr>redis_url = cfg_redis_url cfg, redis_open = True\<rparr> \<and>
    sv_limiter s = Some (limiter_init (cfg_rate_limit_bucket_size cfg) (cfg_rate_limit_refill_rate cfg) ''rate_limit'') \<and>
    sv_scheduler s = (if cfg_batching_enabled cfg
      then Some (scheduler_start (scheduler_init (cfg_max_batch_size cfg))) else None) \<and>
    sv_pool s = Some (pool_start (cfg_max_concurrent_requests cfg) (pool_init (Some (make_breaker cfg)))) \<and>
    sv_awaiting s = (\<lambda>_. None) \<and> (sv_orchestrator s \<noteq> None \<longleftrightarrow> cfg_spec_enabled cfg) \<and>
    tracker_init mem (lib_cuda L) = Inr tr \<and> sv_tracker s = Some tr \<and>
    sv_pressure s = Some (pressure_init (monitor_init (high_watermark_ratio mem)
      (critical_watermark_ratio mem)) (make_kv_cache cfg)) \<and>
    sv_lifecycle s = Some (signals_registered lifecycle_init)"
proof -
  from assms obtain cfg s1 s2 m s3 s4 s5 s6 s7 s8 s9 s10 where steps:
    "start_settings L (serving_init lg) = (Inr cfg, s1)" "start_logging cfg s1 = (Inr (), s2)"
    "start_model L s2 = (Inr m, s3)" "start_executor cfg s3 = (Inr (), s4)"
    "start_redis L cfg s4 = (Inr (), s5)" "start_limiter cfg s5 = (Inr (), s6)"
    "start_scheduler cfg s6 = (Inr (), s7)" "start_workers cfg (make_breaker cfg) s7 = (Inr (), s8)"
    "start_speculation L cfg m s8 = (Inr (), s9)" "start_memory L (make_kv_cache cfg) s9 = (Inr (), s10)"
    "start_lifecycle L s10 = (Inr (), s)"
    unfolding startup_def bind_Inr Let_def by auto
  note spec = start_speculation_Inr [OF steps(9)]
  have cfg: "lib_settings L = Inr cfg" "s1 = (serving_init lg)\<lparr>sv_settings := Some cfg\<rparr>"
    using steps(1) by (auto simp: start_Inr get_settings_def serving_init_def split: sum.splits)
  obtain mem tr where mem: "lib_mem_config L = Inr mem" "tracker_init mem (lib_cuda L) = Inr tr"
    and s10: "s10 = s9\<lparr>sv_tracker := Some tr,
      sv_pressure := Some (pressure_init (monitor_init (high_watermark_ratio mem)
        (critical_watermark_ratio mem)) (make_kv_cache cfg))\<rparr>"
    using steps(10) by (auto simp: start_memory_Inr)
  have m: "is_loaded m" using steps(3) load_model_loads by (auto simp: start_Inr)
  have life: "s = s10\<lparr>sv_lifecycle := Some (signals_registered lifecycle_init)\<rparr>"
    using steps(11) register_signals_Inr [of "lib_add_handler L" lifecycle_init]
    by (auto simp: start_lifecycle_def split: prod.splits)
  show ?thesis
    by (rule exI [of _ cfg], rule exI [of _ mem], rule exI [of _ m], rule exI [of _ tr])
      (use steps(2-8) spec cfg mem s10 m life in \<open>auto simp: start_Inr start_scheduler_def start_workers_def
        serving_init_def split: if_splits\<close>)
qed

lemma life_run_signal:
  "life_run (Signals # replicate (Suc k) Signal) = handle_signal (life_run (Signals # replicate k Signal))"
  by (simp only: replicate_Suc replicate_append_same [symmetric] append_Cons [symmetric] life_run_snoc life_step.simps)

lemma startup_serving_ok:
  assumes "startup L (serving_init lg) = (Inr (), s)"
  shows "serving_ok L s"
proof -
  from startup_Inr [OF assms] obtain cfg mem m tr where s:
    "lib_settings L = Inr cfg" "lib_mem_config L = Inr mem" "sv_settings s = Some cfg"
    "sv_manager s = Some m" "is_loaded m" "0 < cfg_max_concurrent_requests cfg"
    "sv_executor s = Some \<lparr>max_workers = cfg_max_concurrent_requests cfg, accepting = True\<rparr>"
    "sv_redis s = Some \<lparr>redis_url = cfg_redis_url cfg, redis_open = True\<rparr>"
    "sv_limiter s = Some (limiter_init (cfg_rate_limit_bucket_size cfg) (cfg_rate_limit_refill_rate cfg) ''rate_limit'')"
    "sv_orchestrator s \<noteq> None \<longleftrightarrow> cfg_spec_enabled cfg" "sv_tracker s = Some tr"
    "sv_lifecycle s = Some (signals_registered lifecycle_init)" and w:
    "sv_scheduler s = (if cfg_batching_enabled cfg
      then Some (scheduler_start (scheduler_init (cfg_max_batch_size cfg))) else None)"
    "sv_pool s = Some (pool_start (cfg_max_concurrent_requests cfg) (pool_init (Some (make_breaker cfg))))"
    "sv_awaiting s = (\<lambda>_. None)" and pr:
    "sv_pressure s = Some (pressure_init (monitor_init (high_watermark_ratio mem)
      (critical_watermark_ratio mem)) (make_kv_cache cfg))" by blast
  have "sv_lifecycle s = Some (life_run (Signals # replicate 0 Signal))"
    using s(12) by (simp add: life_run_def)
  moreover have "sv_limiter s = Some ((limiter_init (cfg_rate_limit_bucket_size cfg)
        (cfg_rate_limit_refill_rate cfg) ''rate_limit'')\<lparr>script_sha := None\<rparr>)"
    using s(9) by (simp add: limiter_init_def)
  ultimately have "objects_ok cfg s" unfolding objects_ok_def using s pr by blast
  moreover have "worker_side_ok cfg s"
    using w by (simp add: worker_side_ok_def pool_reachable.init
        batched_reachable.init [unfolded batched_start_def])
  moreover have "memory_side_ok cfg mem s"
    using pr pressure_reachable.init [of "make_kv_cache cfg"] make_kv_cache_inv [of cfg]
    unfolding memory_side_ok_def by blast
  ultimately show ?thesis unfolding serving_ok_def using s(1,2) by blast
qed

lemma serving_step_ok:
  assumes "serving_step t s s'" and "serving_ok L s"
  shows "serving_ok L s'"
proof -
  obtain cfg mem where ok: "lib_settings L = Inr cfg" "lib_mem_config L = Inr mem"
    "objects_ok cfg s" "worker_side_ok cfg s" "memory_side_ok cfg mem s"
    using assms(2) unfolding serving_ok_def by blast
  have "objects_ok cfg s' \<and> worker_side_ok cfg s' \<and> memory_side_ok cfg mem s'"
    using assms(1)
  proof cases
    case (batched e b b')
    then obtain p sc where p: "sv_pool s = Some p" "sv_scheduler s = Some sc"
      "b = \<lparr>bp_pool = p, bp_sched = sc, awaiting = sv_awaiting s\<rparr>"
      by (auto simp: batched_side_def split: option.splits)
    then have "batched_reachable (Some (make_breaker cfg)) (cfg_max_concurrent_requests cfg)
        (cfg_max_batch_size cfg) b" and on: "cfg_batching_enabled cfg"
      using ok(4) by (simp_all add: worker_side_ok_def)
    from batched_reachable.step [OF this(1) batched(5)] have "worker_side_ok cfg s'"
      using on batched(2) by (cases b') (simp add: worker_side_ok_def set_batched_def)
    then show ?thesis
      using ok batched(2) by (simp add: objects_ok_def memory_side_ok_def set_batched_def)
  next
    case (direct e p p')
    then have "pool_reachable (Some (make_breaker cfg)) (cfg_max_concurrent_requests cfg) p"
      and off: "\<not> cfg_batching_enabled cfg"
      using ok(4) by (simp_all add: worker_side_ok_def)
    from pool_reachable.step [OF this(1) direct(6)] have "worker_side_ok cfg s'"
      using off direct(2,4) by (simp add: worker_side_ok_def)
    then show ?thesis
      using ok direct(2) by (simp add: objects_ok_def memory_side_ok_def)
  next
    case (admission tr p dev)
    have "memory_side_ok cfg mem s'"
      using ok(5) admission pressure_reachable.admit unfolding memory_side_ok_def by fastforce
    then show ?thesis
      using ok admission(2) by (cases "sv_scheduler s") (simp_all add: objects_ok_def worker_side_ok_def)
  next
    case (limited rl sha)
    then show ?thesis
      using ok by (cases "sv_scheduler s")
        (auto simp: objects_ok_def worker_side_ok_def memory_side_ok_def)
  next
    case (signalled l)
    from ok(3) obtain k where "sv_lifecycle s = Some (life_run (Signals # replicate k Signal))"
      by (auto simp: objects_ok_def)
    then have "sv_lifecycle s' = Some (life_run (Signals # replicate (Suc k) Signal))"
      using signalled by (simp only: life_run_signal) simp
    then have "objects_ok cfg s'" using ok(3) signalled(2) unfolding objects_ok_def by (simp del: replicate.simps) blast
    then show ?thesis
      using ok signalled(2) by (cases "sv_scheduler s") (simp_all add: worker_side_ok_def memory_side_ok_def)
  qed
  then show ?thesis using ok(1,2) unfolding serving_ok_def by blast
qed

lemma serving_reachable_ok: "serving_reachable L s \<Longrightarrow> serving_ok L s"
  by (induction rule: serving_reachable.induct) (rule startup_serving_ok serving_step_ok; assumption)+

lemma stop_workers_fields [simp]:
  "sv_pressure (stop_workers s) = sv_pressure s" "sv_redis (stop_workers s) = sv_redis s"
  "sv_executor (stop_workers s) = sv_executor s"
  by (simp_all add: stop_workers_def set_batched_def split: option.split)

lemma close_redis_other:
  assumes "close_redis aclose s = (res, s')"
  shows "sv_pool s' = sv_pool s" "sv_scheduler s' = sv_scheduler s" "sv_pressure s' = sv_pressure s"
    "sv_executor s' = sv_executor s"
  using assms by (auto simp: close_redis_def Let_def split: option.splits prod.splits)

text \<open>The shutdown up to the connections: its last two steps leave the workers' side alone.\<close>

lemma lifespan_stop_parts:
  assumes "lifespan_stop aclose n s = (drain_end, res, s')"
  shows "drain_end = map_option (wait_for_drain n) (sv_lifecycle s)"
    "sv_pool s' = sv_pool (stop_workers s)"
    "sv_scheduler s' = map_option scheduler_stop (sv_scheduler (stop_workers s))"
    "sv_pressure s' = map_option (map_prod id (\<lambda>h. h\<lparr>pr_kv := map_option kv_clear (pr_kv h)\<rparr>)) (sv_pressure s)"
    "sv_redis s = Some cl \<Longrightarrow> res = fst (close aclose cl) \<and> sv_redis s' = Some (snd (close aclose cl)) \<and>
       sv_executor s' = (case res of Inl e \<Rightarrow> sv_executor s
         | Inr _ \<Rightarrow> map_option (\<lambda>x. x\<lparr>accepting := False\<rparr>) (sv_executor s))"
  using assms
  by (auto simp: lifespan_stop_def Let_def clear_kv_cache_def close_redis_def stop_executor_def
      split: option.splits prod.splits sum.splits)

lemma serving_history_registry:
  "serving_history L Os s \<Longrightarrow> \<exists>p. sv_pool s = Some p \<and> registry_ok Os p"
proof (induction rule: serving_history.induct)
  case (init lg s)
  then show ?case
    using startup_Inr [OF init] by (auto simp: registry_ok_def orphaned_def pool_start_def pool_init_def)
next
  case (step Os s t s')
  then obtain p where p: "sv_pool s = Some p" "registry_ok Os p" by blast
  have "serving_reachable L s" using step.hyps(1) serving_reachable_history by blast
  then obtain cfg where side: "worker_side_ok cfg s" using serving_reachable_ok by (auto simp: serving_ok_def)
  show ?case
    using step.hyps(2)
  proof cases
    case (batched e b b')
    then obtain sc where sc: "sv_scheduler s = Some sc" "b = \<lparr>bp_pool = p, bp_sched = sc, awaiting = sv_awaiting s\<rparr>"
      using p(1) by (auto simp: batched_side_def split: option.splits)
    then have "batched_reachable (Some (make_breaker cfg)) (cfg_max_concurrent_requests cfg)
        (cfg_max_batch_size cfg) b"
      using side p(1) by (simp add: worker_side_ok_def)
    note inv = batched_reachable_inv [OF this]
    then have "pool_inv p" using pool_reachable_inv sc(2) by auto
    then have "registry_ok (Os \<union> batched_overwritten e b) (bp_pool b')"
      using batched_step_registry [OF batched(5)] inv p(2) sc(2) by fastforce
    then show ?thesis
      using batched(1,2) p(1) sc(2)
      by (cases e) (simp_all add: set_batched_def lost_in_def batched_overwritten_def)
  next
    case (direct e q q')
    then have "pool_inv p" using side p(1) pool_reachable_inv by (auto simp: worker_side_ok_def)
    then show ?thesis using pool_step_registry [OF direct(6)] direct p by (simp add: lost_in_def)
  qed (use p in \<open>simp_all add: lost_in_def\<close>)
qed

lemma signals_not_tracked: "in_flight (life_run (Signals # replicate k Signal)) = 0"
proof (induction k)
  case (Suc k)
  then show ?case by (simp add: life_run_signal handle_signal_def del: replicate_Suc)
qed (simp add: life_run_def lifecycle_init_def)

section \<open>Properties\<close>

text \<open>C6: The running service keeps its configuration and its parts' invariants: in every state
  between start and shutdown, whatever workers, handlers, the batch collector, admission checks
  and signals did, the model is loaded, Redis is connected, the limiter has the configured
  bucket, the executor accepts work for a positive number of threads, the workers and, exactly when batching is on, the batch scheduler
  are in a state their own theories reach from the configured start, the pressure handler is
  in a state reachable from its start (when the cache settings are not negative), and speculative decoding is available exactly when it is
  configured.\<close>

theorem running_service_invariant:
  assumes "serving_reachable L s"
  shows "\<exists>cfg mem. lib_settings L = Inr cfg \<and> lib_mem_config L = Inr mem \<and>
    objects_ok cfg s \<and> worker_side_ok cfg s \<and> memory_side_ok cfg mem s"
  using serving_reachable_ok [OF assms] by (simp add: serving_ok_def)

abbreviation "demo_tok \<equiv> \<lparr>tok_encode = (\<lambda>p. [1]), tok_decode = (\<lambda>ids. ''x''), pad_token_id = None\<rparr>"

definition demo_libs :: "settings \<Rightarrow> unit draft_model result \<Rightarrow> (unit, unit) libs" where
  "demo_libs cfg draft =
     \<lparr>lib_settings = Inr cfg, lib_tokenizer = Inr demo_tok, lib_eos = Some 2,
      lib_model = Inr \<lparr>eng_generate = (\<lambda>rows mask past n t pad. ret rows), eng_forward = (\<lambda>ids. Inr []),
        manual_seed = (\<lambda>n g. g)\<rparr>,
      lib_target_forward = (\<lambda>e ids. []), lib_from_url = Inr (), lib_ping = Inr True, lib_draft_tokenizer = Inr demo_tok,
      lib_draft_eos = Some 2, lib_draft_model = draft, lib_softmax = id, lib_scale = (\<lambda>xs t. xs),
      lib_mem_config = Inr default_mem_config, lib_cuda = None, lib_add_handler = (\<lambda>sig. Inr ())\<rparr>"

abbreviation "demo_log \<equiv> \<lparr>structlog_conf = None, root_handlers = [], root_level = 30, logger_levels = []\<rparr>"

lemma demo_startup:
  "\<exists>s. startup (demo_libs default_settings (Inl CancelledError)) (serving_init demo_log) = (Inr (), s)"
  by (simp add: start_defs demo_libs_def default_settings_def serving_init_def bind_def Let_def
      get_settings_def setup_logging_def log_level_of_info load_model_def manager_init_def connect_def
      redis_client_init_def tracker_init_def default_mem_config_def visible_device_def register_signals_def)

lemma running_service_invariant_witness:
  "\<exists>s. serving_reachable (demo_libs default_settings (Inl CancelledError)) s \<and> objects_ok default_settings s"
proof -
  obtain s where "serving_reachable (demo_libs default_settings (Inl CancelledError)) s"
    using demo_startup serving_reachable.init by blast
  from running_service_invariant [OF this] this show ?thesis by (auto simp: demo_libs_def)
qed

text \<open>What becomes of the wait, the cache, Redis and the executor.\<close>

lemma shutdown_of_objects:
  assumes ok: "objects_ok cfg s" and stop: "lifespan_stop aclose n s = (drain_end, res, s')"
  shows "drain_end = Some Immediately \<and>
    (\<exists>mon h. sv_pressure s' = Some (mon, h) \<and>
      (case pr_kv h of None \<Rightarrow> True | Some c \<Rightarrow> cache c = [] \<and> current_memory_bytes c = 0)) \<and>
    res = aclose \<and>
    map_option redis_open (sv_redis s') = Some (\<not> is_ok aclose) \<and>
    map_option accepting (sv_executor s') = Some (\<not> is_ok aclose)"
proof -
  note parts = lifespan_stop_parts [OF stop]
  obtain k where life: "sv_lifecycle s = Some (life_run (Signals # replicate k Signal))"
    using ok by (auto simp: objects_ok_def)
  have drained: "drain_end = Some Immediately"
    using life signals_not_tracked [of k] by (simp add: parts(1) wait_for_drain_def)
  obtain mon h where "sv_pressure s = Some (mon, h)" using ok by (auto simp: objects_ok_def)
  then have "sv_pressure s' = Some (mon, h\<lparr>pr_kv := map_option kv_clear (pr_kv h)\<rparr>)" by (simp add: parts(4))
  moreover obtain cl where "sv_redis s = Some cl" "redis_open cl" using ok by (auto simp: objects_ok_def)
  then have "res = aclose" "map_option redis_open (sv_redis s') = Some (\<not> is_ok aclose)"
    "map_option accepting (sv_executor s') = Some (\<not> is_ok aclose)"
    using parts(5) ok by (cases aclose; auto simp: objects_ok_def close_def is_ok_def)+
  ultimately show ?thesis using drained by (simp add: kv_clear_def split: option.split)
qed

text \<open>C9: Shutdown releases everything, and forgets only waiters whose id was registered again, but
  does not drain: from every state of the running service the wait for requests in flight returns at
  once; afterwards a future that was handed to a handler is done, unless nothing had settled it and
  its registry entry was overwritten by a later request with the same id (\<open>Os\<close> are these futures);
  every future a worker waits for is done, no worker and no collector runs, no request is
  registered and the prefix cache is empty.  When the connections close without an exception, Redis
  is closed and the executor takes no more work; when closing raises, that exception ends the
  shutdown, with the client still open and the executor still taking work.\<close>

theorem shutdown_releases_everything:
  assumes "serving_history L Os s" and "sv_pool s = Some p0" and "lifespan_stop aclose n s = (drain_end, res, s')"
  shows "drain_end = Some Immediately \<and>
    (\<exists>p. sv_pool s' = Some p \<and> workers p = [] \<and> \<not> running p \<and> pending p = [] \<and>
      length (futures p) = length (futures p0) \<and>
      (\<forall>i < length (futures p). future_done (futures p) i \<longleftrightarrow> \<not> (i \<in> Os \<and> futures p0 ! i = Pending))) \<and>
    (case sv_scheduler s' of None \<Rightarrow> True | Some sc \<Rightarrow> bs_phase sc = Ended \<and> \<not> bs_running sc \<and>
      (\<forall>i < length (bs_futures sc). future_done (bs_futures sc) i)) \<and>
    (\<exists>mon h. sv_pressure s' = Some (mon, h) \<and>
      (case pr_kv h of None \<Rightarrow> True | Some c \<Rightarrow> cache c = [] \<and> current_memory_bytes c = 0)) \<and>
    res = aclose \<and>
    map_option redis_open (sv_redis s') = Some (\<not> is_ok aclose) \<and>
    map_option accepting (sv_executor s') = Some (\<not> is_ok aclose)"
proof -
  have reach: "serving_reachable L s" using assms(1) serving_reachable_history by blast
  obtain cfg mem where ok: "objects_ok cfg s" "worker_side_ok cfg s"
    using serving_reachable_ok [OF reach] by (auto simp: serving_ok_def)
  note parts = lifespan_stop_parts [OF assms(3)]
  note others = shutdown_of_objects [OF ok(1) assms(3)]
  have p: "sv_pool s = Some p0" "registry_ok Os p0"
    using serving_history_registry [OF assms(1)] assms(2) by auto
  have stops: "future_done (futures (pool_stop p0)) i \<longleftrightarrow> \<not> (i \<in> Os \<and> futures p0 ! i = Pending)"
    if "i < length (futures p0)" for i
    using pool_owner.waits_on [OF _ that] registry_orphans [OF p(2)] by simp
  show ?thesis
  proof (cases "sv_scheduler s")
    case None
    then have "sv_pool s' = Some (pool_stop p0)" "sv_scheduler s' = None"
      using p(1) by (simp_all add: parts(2,3) stop_workers_def batched_side_def)
    then show ?thesis using others stops pool_owner.halt_length [of p0] by (simp add: pool_stop_def)
  next
    case (Some sc)
    let ?b = "\<lparr>bp_pool = p0, bp_sched = sc, awaiting = sv_awaiting s\<rparr>"
    have reach: "batched_reachable (Some (make_breaker cfg)) (cfg_max_concurrent_requests cfg)
        (cfg_max_batch_size cfg) ?b"
      using ok(2) p(1) Some by (simp add: worker_side_ok_def)
    note inv = batched_reachable_inv [OF reach]
    have "\<forall>i < length (bs_futures (bp_sched (batched_stop ?b))).
        future_done (bs_futures (bp_sched (batched_stop ?b))) i"
      using workers_side.nobody_waits [of "cfg_max_concurrent_requests cfg" ?b] inv by simp
    moreover have "sv_pool s' = Some (pool_stop p0)"
      "sv_scheduler s' = Some (scheduler_stop (bp_sched (batched_stop ?b)))"
      using Some p(1) by (simp_all add: parts(2,3) stop_workers_def batched_side_def set_batched_def batched_stop_def)
    ultimately show ?thesis
      using others stops pool_owner.halt_length [of p0]
      by (simp add: batched_stop_def pool_stop_def scheduler_stop_def)
  qed
qed

lemma shutdown_releases_everything_witness:
  "\<exists>s. serving_reachable (demo_libs default_settings (Inl CancelledError)) s \<and>
     fst (lifespan_stop (Inr ()) 3 s) = Some Immediately \<and>
     map_option redis_open (sv_redis (snd (snd (lifespan_stop (Inr ()) 3 s)))) = Some False"
proof -
  obtain s where s: "startup (demo_libs default_settings (Inl CancelledError)) (serving_init demo_log) = (Inr (), s)"
    using demo_startup by blast
  note h = serving_history.init [OF s]
  obtain p where "sv_pool s = Some p" using serving_history_registry [OF h] by blast
  from shutdown_releases_everything [OF h this, of "Inr ()" 3] serving_reachable.init [OF s]
  show ?thesis by (intro exI [of _ s]) (auto simp: is_ok_def prod_eq_iff)
qed

text \<open>A start that fails late leaks what it had started: when the draft model cannot be loaded,
  the start raises that error with Redis connected, the executor open and all workers running,
  and nothing closes them, since the code after the \<^verbatim>\<open>yield\<close> is not reached.\<close>

theorem failed_draft_load_leaks:
  assumes "lib_settings L = Inr cfg" and "log_level_of (cfg_log_level cfg) = Inr level"
    and "lib_tokenizer L = Inr tok" and "lib_model L = Inr model"
    and "0 < cfg_max_concurrent_requests cfg" and "lib_from_url L = Inr ()" and "lib_ping L = Inr b"
    and "cfg_spec_enabled cfg" and "fst (draft_load (lib_draft_tokenizer L) (lib_draft_eos L) (lib_draft_model L) draft_init) = Inl e"
  shows "\<exists>s p. startup L (serving_init lg) = (Inl e, s) \<and>
    sv_redis s = Some \<lparr>redis_url = cfg_redis_url cfg, redis_open = True\<rparr> \<and>
    sv_executor s = Some \<lparr>max_workers = cfg_max_concurrent_requests cfg, accepting = True\<rparr> \<and>
    sv_pool s = Some p \<and> running p \<and> workers p = replicate (nat (cfg_max_concurrent_requests cfg)) Idle \<and>
    (sv_scheduler s \<noteq> None \<longleftrightarrow> cfg_batching_enabled cfg) \<and> sv_lifecycle s = None"
proof -
  obtain d where d: "draft_load (lib_draft_tokenizer L) (lib_draft_eos L) (lib_draft_model L) draft_init = (Inl e, d)"
    using assms(9) by (metis prod.collapse)
  show ?thesis
    using assms(1-8) d
    by (simp add: start_defs serving_init_def bind_def Let_def get_settings_def setup_logging_def
        load_model_def connect_def redis_client_init_def pool_start_def pool_init_def)
qed

lemma failed_draft_load_leaks_witness:
  "\<exists>s p. startup (demo_libs (default_settings\<lparr>cfg_spec_enabled := True\<rparr>) (Inl (OtherException ''OSError'')))
      (serving_init demo_log) = (Inl (OtherException ''OSError''), s) \<and>
     sv_pool s = Some p \<and> workers p = [Idle]"
proof -
  let ?cfg = "default_settings\<lparr>cfg_spec_enabled := True\<rparr>"
  have "cfg_max_concurrent_requests ?cfg = 1" "cfg_log_level ?cfg = ''info''"
    by (simp_all add: default_settings_def)
  then show ?thesis
    using failed_draft_load_leaks [of "demo_libs ?cfg (Inl (OtherException ''OSError''))" ?cfg 20 demo_tok
        "\<lparr>eng_generate = (\<lambda>rows mask past n t pad. ret rows), eng_forward = (\<lambda>ids. Inr []),
          manual_seed = (\<lambda>n g. g)\<rparr>" True "OtherException ''OSError''" demo_log]
    by (simp add: demo_libs_def log_level_of_info draft_load_def) blast
qed

end
