(* ===== verification/Service.thy ===== *)
theory Service
  imports Serving
begin

text \<open>
  A request through the running application: the dependencies that read \<^verbatim>\<open>app.state\<close>
  (\<^verbatim>\<open>api/router.py\<close>), the routes on the objects they get, and \<^verbatim>\<open>main.py\<close>'s middlewares around
  them.  The state is the service and what Redis holds.
\<close>

section \<open>The environment of a request\<close>

text \<open>
  The services and clocks a request sees.  \<open>env_unrouted\<close> is FastAPI's own answer to a method
  and path without a route, \<open>env_unprocessable\<close> its answer to a body that the schema rejects.
  \<open>env_meanwhile\<close> is what the rest of the service does while the request waits for its future,
  and how the wait ends.  \<open>env_draws\<close> is the outcome of a random program.
\<close>

record ('g, 'kv, 'z, 'm) env =
  env_zset :: "('z, 'm) zset_ops"
  env_dumps :: "item \<Rightarrow> 'm"
  env_script_load :: "(string, 'z) action"
  env_evalsha :: "'z evalsha"
  env_ping :: "(bool, 'z) action"
  env_time :: float
  env_monotonic :: float
  env_device :: "cuda_device option"
  env_collected :: "cuda_device \<Rightarrow> cuda_device"
  env_emptied :: "cuda_device \<Rightarrow> cuda_device"
  env_uuid :: string
  env_timeout_text :: string
  env_str_exn :: "exn \<Rightarrow> string"
  env_unrouted :: "string \<Rightarrow> string \<Rightarrow> response"
  env_unprocessable :: response
  env_torch :: torch
  env_eos :: "nat option"
  env_draws :: "response rnd \<Rightarrow> response result"
  env_meanwhile :: "nat \<Rightarrow> ('g, 'kv) serving \<times> 'z \<Rightarrow> waited \<times> ('g, 'kv) serving \<times> 'z"

type_synonym ('a, 'g, 'kv, 'z) handler = "('a, ('g, 'kv) serving \<times> 'z) action"

section \<open>Dependencies\<close>

text \<open>An attribute of \<^verbatim>\<open>app.state\<close> that was never set raises.\<close>

definition get_attr :: "'a option \<Rightarrow> 'a result" where
  "get_attr x = (case x of None \<Rightarrow> Inl (OtherException ''AttributeError'') | Some a \<Rightarrow> Inr a)"

definition get_model_manager :: "('g, 'kv) serving \<Rightarrow> 'g manager result" where
  "get_model_manager s = get_attr (sv_manager s)"

definition get_inference_executor :: "('g, 'kv) serving \<Rightarrow> executor result" where
  "get_inference_executor s = get_attr (sv_executor s)"

definition get_redis_client :: "('g, 'kv) serving \<Rightarrow> redis_client result" where
  "get_redis_client s = get_attr (sv_redis s)"

text \<open>The queue is its client and the constant key; it is set together with the client.\<close>

definition get_priority_queue :: "('g, 'kv) serving \<Rightarrow> (redis_client \<times> string) result" where
  "get_priority_queue s = get_attr (map_option (\<lambda>cl. (cl, ''inference_queue'')) (sv_redis s))"

definition get_worker_pool :: "('g, 'kv) serving \<Rightarrow> completion pool result" where
  "get_worker_pool s = get_attr (sv_pool s)"

definition get_circuit_breaker :: "('g, 'kv) serving \<Rightarrow> breaker result" where
  "get_circuit_breaker s = get_attr (case sv_pool s of None \<Rightarrow> None | Some p \<Rightarrow> circuit_breaker p)"

definition get_lifecycle_manager :: "('g, 'kv) serving \<Rightarrow> lifecycle result" where
  "get_lifecycle_manager s = get_attr (sv_lifecycle s)"

definition depends :: "(('g, 'kv) serving \<Rightarrow> 'a result) \<Rightarrow> ('a, 'g, 'kv, 'z) handler" where
  "depends f = (\<lambda>(s, z). (f s, (s, z)))"

definition on_redis :: "('a, 'z) action \<Rightarrow> ('a, 'g, 'kv, 'z) handler" where
  "on_redis act = (\<lambda>(s, z). let (res, z) = act z in (res, (s, z)))"

definition model_name :: "('g, 'kv) serving \<Rightarrow> string result" where
  "model_name s = get_attr (map_option cfg_model_name (sv_settings s))"

section \<open>Reading routes\<close>

definition health_handler :: "('g, 'kv, 'z, 'm) env \<Rightarrow> (response, 'g, 'kv, 'z) handler" where
  "health_handler V =
     bind (depends get_model_manager) (\<lambda>m.
     bind (depends get_redis_client) (\<lambda>cl.
     bind (depends get_priority_queue) (\<lambda>(qcl, key).
     bind (depends get_circuit_breaker) (\<lambda>cb.
     bind (depends model_name) (\<lambda>name st.
       health_check_route (is_loaded m) (health_check (env_ping V) cl (snd st))
         (state_property (env_monotonic V) cb)
         (on_redis (queue_depth (env_zset V) qcl key)) name st)))))"

definition ready_handler :: "(response, 'g, 'kv, 'z) handler" where
  "ready_handler =
     bind (depends get_model_manager) (\<lambda>m.
     bind (depends get_lifecycle_manager) (\<lambda>l.
     ret (readiness_check (shutting_down l) (is_loaded m))))"

definition models_handler :: "(response, 'g, 'kv, 'z) handler" where
  "models_handler =
     bind (depends get_model_manager) (\<lambda>m.
     bind (depends model_name) (\<lambda>name.
     ret (list_models name (is_loaded m))))"

definition cache_handler :: "(response, 'g, 'kv, 'z) handler" where
  "cache_handler =
     bind (depends (\<lambda>s. get_attr (map_option (pr_kv \<circ> snd) (sv_pressure s)))) (\<lambda>kv.
     ret (cache_stats kv))"

definition memory_stats_handler :: "('g, 'kv, 'z, 'm) env \<Rightarrow> (response, 'g, 'kv, 'z) handler" where
  "memory_stats_handler V = (\<lambda>(s, z). (Inr (memory_stats (env_device V) (sv_tracker s)), (s, z)))"

definition watermark_handler :: "('g, 'kv, 'z, 'm) env \<Rightarrow> (response, 'g, 'kv, 'z) handler" where
  "watermark_handler V = (\<lambda>(s, z).
     (Inr (case sv_tracker s of
             None \<Rightarrow> ok (Watermark_body None)
           | Some tr \<Rightarrow> watermark_route (env_device V) tr (map_option fst (sv_pressure s))), (s, z)))"

definition gc_handler :: "('g, 'kv, 'z, 'm) env \<Rightarrow> (response, 'g, 'kv, 'z) handler" where
  "gc_handler V = (\<lambda>(s, z).
     (Inr (trigger_gc (env_collected V) (env_emptied V) (env_device V) (sv_tracker s)), (s, z)))"

section \<open>Completions\<close>

text \<open>
  The answer of the pressure handler, asked only when the model is loaded; \<open>None\<close> without a
  handler.
\<close>

definition admission :: "cuda_device option \<Rightarrow> bool \<Rightarrow> ('g, 'kv) serving \<Rightarrow> bool option \<times> ('g, 'kv) serving" where
  "admission dev model_loaded s =
     (case (sv_tracker s, sv_pressure s) of
        (Some tr, Some p) \<Rightarrow>
          (if model_loaded
           then (let (admit, p) = should_admit dev tr p in (Some admit, s\<lparr>sv_pressure := Some p\<rparr>))
           else (None, s))
      | _ \<Rightarrow> (None, s))"

text \<open>The body of the route, on the objects that its dependencies found.\<close>

definition complete :: "('g, 'kv, 'z, 'm) env \<Rightarrow> completion_request \<Rightarrow> 'g manager \<Rightarrow> redis_client \<Rightarrow>
    string \<Rightarrow> completion pool \<Rightarrow> string \<Rightarrow> (response, 'g, 'kv, 'z) handler" where
  "complete V body m qcl key pool name = (\<lambda>(s, z).
     let (admit, s) = admission (env_device V) (is_loaded m) s;
         (res, pool, z) = create_completion (is_loaded m) admit (env_uuid V)
           (\<lambda>rid p d. enqueue (env_zset V) (env_dumps V) qcl key rid p d (env_time V)) body pool z;
         s = s\<lparr>sv_pool := Some pool\<rparr>
     in case res of
          Inl e \<Rightarrow> (Inl e, (s, z))
        | Inr (Rejected r) \<Rightarrow> (Inr r, (s, z))
        | Inr Streaming_response \<Rightarrow>
            (Inr \<lparr>status = 200, headers = streaming_headers, content = Stream_body\<rparr>, (s, z))
        | Inr (Awaiting rid f) \<Rightarrow>
            (let (w, s, z) = env_meanwhile V f (s, z) in
             case sv_pool s of
               None \<Rightarrow> (Inl (OtherException ''AttributeError''), (s, z))
             | Some pool \<Rightarrow>
                 (let (r, pool) = finish_completion name (env_timeout_text V) rid w pool
                  in (Inr r, (s\<lparr>sv_pool := Some pool\<rparr>, z)))))"

definition completion_handler :: "('g, 'kv, 'z, 'm) env \<Rightarrow> completion_request \<Rightarrow>
    (response, 'g, 'kv, 'z) handler" where
  "completion_handler V body =
     bind (depends get_model_manager) (\<lambda>m.
     bind (depends get_inference_executor) (\<lambda>_.
     bind (depends get_priority_queue) (\<lambda>(qcl, key).
     bind (depends get_worker_pool) (\<lambda>pool.
     bind (depends model_name) (\<lambda>name. complete V body m qcl key pool name)))))"

definition speculative_handler :: "('g, 'kv, 'z, 'm) env \<Rightarrow> completion_request \<Rightarrow>
    (response, 'g, 'kv, 'z) handler" where
  "speculative_handler V body =
     bind (depends get_model_manager) (\<lambda>m.
     bind (depends get_inference_executor) (\<lambda>_.
     bind (depends model_name) (\<lambda>name (s, z).
       (env_draws V (create_speculative_completion (env_torch V) m (sv_orchestrator s) (env_eos V)
          (env_uuid V) name body), (s, z)))))"

section \<open>Routing\<close>

text \<open>\<open>body\<close> is the parsed body of a completion request, \<open>None\<close> when the schema rejects it.\<close>

definition route :: "('g, 'kv, 'z, 'm) env \<Rightarrow> string \<Rightarrow> string \<Rightarrow> completion_request option \<Rightarrow>
    (response, 'g, 'kv, 'z) handler" where
  "route V http_method path body =
     (if (http_method, path) = (''GET'', ''/health'') then health_handler V
      else if (http_method, path) = (''GET'', ''/ready'') then ready_handler
      else if (http_method, path) = (''GET'', ''/v1/models'') then models_handler
      else if (http_method, path) = (''GET'', ''/v1/cache/stats'') then cache_handler
      else if (http_method, path) = (''GET'', ''/v1/memory/stats'') then memory_stats_handler V
      else if (http_method, path) = (''GET'', ''/v1/memory/watermark'') then watermark_handler V
      else if (http_method, path) = (''POST'', ''/v1/memory/gc'') then gc_handler V
      else if (http_method, path) = (''POST'', ''/v1/completions'')
      then (case body of None \<Rightarrow> ret (env_unprocessable V) | Some b \<Rightarrow> completion_handler V b)
      else if (http_method, path) = (''POST'', ''/v1/completions/speculative'')
      then (case body of None \<Rightarrow> ret (env_unprocessable V) | Some b \<Rightarrow> speculative_handler V b)
      else ret (env_unrouted V http_method path))"

text \<open>The limiter of \<^verbatim>\<open>app.state\<close> remembers its script.\<close>

definition consume :: "('g, 'kv, 'z, 'm) env \<Rightarrow> string \<Rightarrow> (bool \<times> rate_info, 'g, 'kv, 'z) handler" where
  "consume V api_key = (\<lambda>(s, z).
     case (sv_redis s, sv_limiter s) of
       (Some cl, Some rl) \<Rightarrow>
         (let (res, rl, z) = try_consume cl (env_script_load V) (env_evalsha V) (env_time V) rl api_key z
          in (res, (s\<lparr>sv_limiter := Some rl\<rparr>, z)))
     | _ \<Rightarrow> (Inl (OtherException ''AttributeError''), (s, z)))"

definition serve :: "('g, 'kv, 'z, 'm) env \<Rightarrow> string \<Rightarrow> string \<Rightarrow> string option \<Rightarrow>
    completion_request option \<Rightarrow> ('g, 'kv) serving \<times> 'z \<Rightarrow>
    response option \<times> ('g, 'kv) serving \<times> 'z" where
  "serve V http_method path authorization body st =
     app (bind (depends get_priority_queue) (\<lambda>(qcl, key). on_redis (queue_depth (env_zset V) qcl key)))
       (cfg_max_queue_depth (the (sv_settings (fst st)))) (consume V) (env_str_exn V) path authorization
       (route V http_method path body) st"

section \<open>Well-typed responses\<close>

text \<open>
  A response fits its schema: an error body repeats the status, which is an error's; the
  details of the health and readiness exceptions come with 503; every other body comes with
  200, with a state that the schema's literals allow and a total that is the sum.
\<close>

fun body_fits :: "int \<Rightarrow> body \<Rightarrow> bool" where
  "body_fits st (Error_body message type code) = (code = st \<and> 400 \<le> st)"
| "body_fits st (Detail b) =
     (case b of
        Error_body message type code \<Rightarrow> code = st \<and> 400 \<le> st
      | Health_body health name redis cb depth \<Rightarrow> st = 503 \<and> health = ''unhealthy'' \<and> 0 \<le> depth
      | Ready_body ready reason \<Rightarrow> st = 503 \<and> ready = ''not_ready'' \<and> reason \<noteq> None
      | _ \<Rightarrow> False)"
| "body_fits st (Completion_body i name text p c t) = (st = 200 \<and> t = p + c)"
| "body_fits st (Speculative_body i name text p c t metrics) = (st = 200 \<and> t = p + c)"
| "body_fits st (Health_body health name redis cb depth) =
     (st = 200 \<and> health \<in> {''healthy'', ''degraded''} \<and> cb \<in> {''closed'', ''half_open''} \<and> 0 \<le> depth)"
| "body_fits st (Ready_body ready reason) = (st = 200 \<and> ready = ''ready'' \<and> reason = None)"
| "body_fits st (Framework_body text) = True"
| "body_fits st _ = (st = 200)"

definition typed :: "response \<Rightarrow> bool" where
  "typed r \<longleftrightarrow> body_fits (status r) (content r)"

text \<open>What a handler that returns a response must satisfy, for lifting through \<open>bind\<close>.\<close>

definition answers :: "(response \<Rightarrow> bool) \<Rightarrow> (response, 's) action \<Rightarrow> bool" where
  "answers P act \<longleftrightarrow> (\<forall>s r s'. act s = (Inr r, s') \<longrightarrow> P r)"

lemma answers_bind: "(\<And>a. answers P (f a)) \<Longrightarrow> answers P (bind m f)"
  by (auto simp: answers_def bind_def split: prod.splits sum.splits)

lemma answers_ret: "P r \<Longrightarrow> answers P (ret r)"
  by (simp add: answers_def ret_def)

lemma answers_if: "(b \<Longrightarrow> answers P x) \<Longrightarrow> (\<not> b \<Longrightarrow> answers P y) \<Longrightarrow> answers P (if b then x else y)"
  by simp

lemma typed_http_exception [simp]: "400 \<le> code \<Longrightarrow> typed (http_exception code m t code hs)"
  by (simp add: typed_def http_exception_def)

lemma typed_set_header [simp]: "typed (set_header k v r) = typed r"
  by (simp add: typed_def set_header_def)

lemma typed_readiness [simp]: "typed (readiness_check down loaded)"
  by (simp add: typed_def readiness_check_def)

lemma typed_global [simp]: "typed (global_exception_handler str_exn e)"
  by (cases e) (simp_all add: typed_def global_exception_handler_def exception_map_def)

lemma typed_finish [simp]: "typed (fst (finish_completion name t r w pool))"
  by (cases w) (auto simp: finish_completion_def completion_timeout_def ok_def typed_def http_exception_def
      split: prod.split)

lemma typed_health:
  assumes "health_check_route loaded redis cb depth name s = (Inr r, s')"
  shows "typed r"
  using assms
  by (cases cb) (auto simp: health_check_route_def bind_def ret_def Let_def typed_def
      split: prod.splits sum.splits if_splits)

lemma create_completion_rejection:
  "create_completion loaded admit i enq body pool z = (Inr (Rejected r), pool', z') \<Longrightarrow> typed r"
  by (auto simp: create_completion_def Let_def split: if_splits prod.splits sum.splits)

lemma answers_split: "(\<And>a b. answers P (f a b)) \<Longrightarrow> answers P (case x of (a, b) \<Rightarrow> f a b)"
  by (cases x) simp

lemma answers_option:
  "(x = None \<Longrightarrow> answers P n) \<Longrightarrow> (\<And>a. x = Some a \<Longrightarrow> answers P (f a)) \<Longrightarrow>
   answers P (case x of None \<Rightarrow> n | Some a \<Rightarrow> f a)"
  by (cases x) simp_all

lemmas answer_intros = answers_bind answers_ret answers_split

lemma answers_health: "answers typed (\<lambda>st. health_check_route l (h st) cb depth name st)"
  using typed_health by (auto simp: answers_def)

lemma reading_handlers_typed:
  "answers typed (health_handler V)" "answers typed ready_handler" "answers typed models_handler"
  "answers typed cache_handler" "answers typed (memory_stats_handler V)"
  "answers typed (watermark_handler V)" "answers typed (gc_handler V)"
proof -
  show "answers typed (health_handler V)"
    unfolding health_handler_def by (intro answer_intros answers_health)
  have ok: "typed (list_models n l)" "typed (cache_stats kv)" for n l kv
    by (simp_all add: typed_def list_models_def cache_stats_def ok_def)
  show "answers typed ready_handler" unfolding ready_handler_def by (intro answer_intros) simp
  show "answers typed models_handler" unfolding models_handler_def by (intro answer_intros ok)
  show "answers typed cache_handler" unfolding cache_handler_def by (intro answer_intros ok)
  show "answers typed (memory_stats_handler V)" "answers typed (watermark_handler V)" "answers typed (gc_handler V)"
    by (auto simp: answers_def memory_stats_handler_def watermark_handler_def gc_handler_def typed_def
        memory_stats_def watermark_route_def trigger_gc_def ok_def split: option.splits)
qed

lemma complete_typed: "answers typed (complete V b m qcl key pool name)"
  unfolding answers_def
proof (intro allI impI)
  fix st r st'
  assume run: "complete V b m qcl key pool name st = (Inr r, st')"
  obtain s z where st: "st = (s, z)" by force
  obtain admit s1 where adm: "admission (env_device V) (is_loaded m) s = (admit, s1)" by force
  obtain res pool1 z1 where cc: "create_completion (is_loaded m) admit (env_uuid V)
      (\<lambda>rid p d. enqueue (env_zset V) (env_dumps V) qcl key rid p d (env_time V)) b pool z = (res, pool1, z1)"
    by (metis prod_cases3)
  show "typed r"
  proof (cases res)
    case (Inr started)
    show ?thesis
    proof (cases started)
      case (Rejected x)
      then show ?thesis
        using run cc Inr create_completion_rejection by (auto simp: complete_def st adm)
    next
      case Streaming_response
      then have "r = \<lparr>status = 200, headers = streaming_headers, content = Stream_body\<rparr>"
        using run cc Inr by (simp add: complete_def st adm)
      then show ?thesis by (simp add: typed_def)
    next
      case (Awaiting rid f)
      obtain w s2 z2 where wait: "env_meanwhile V f (s1\<lparr>sv_pool := Some pool1\<rparr>, z1) = (w, s2, z2)"
        by (metis prod_cases3)
      then obtain p2 where "sv_pool s2 = Some p2"
        using run cc Inr Awaiting by (cases "sv_pool s2") (auto simp: complete_def st adm)
      then have "r = fst (finish_completion name (env_timeout_text V) rid w p2)"
        using run cc Inr Awaiting wait
        by (cases "finish_completion name (env_timeout_text V) rid w p2") (simp add: complete_def st adm)
      then show ?thesis by simp
    qed
  qed (use run cc in \<open>simp add: complete_def st adm\<close>)
qed

lemma completion_handler_typed: "answers typed (completion_handler V b)"
  unfolding completion_handler_def by (intro answer_intros complete_typed)

text \<open>The outcomes that a random program can have.\<close>

primrec possible :: "'a rnd \<Rightarrow> 'a result \<Rightarrow> bool" where
  "possible (Done a) r = (r = Inr a)"
| "possible (Fail e) r = (r = Inl e)"
| "possible (Flip p k) r = (0 < clip p \<and> possible (k True) r \<or> clip p < 1 \<and> possible (k False) r)"
| "possible (Choose w k) r = (\<exists>j<length w. w ! j \<noteq> 0 \<and> possible (k j) r)"

lemma always_possible: "always P m \<Longrightarrow> possible m (Inr a) \<Longrightarrow> P a"
  by (induction m) auto

lemma speculative_typed: "always typed (create_speculative_completion T m orch eos i name body)"
proof -
  have "always (\<lambda>_. True) x" for x :: "(nat list \<times> spec_metrics) rnd" by simp
  then show ?thesis
    by (cases orch; cases "mm_tokenizer m")
      (simp_all add: create_speculative_completion_def always_rbind Let_def ok_def
        typed_def [of "\<lparr>status = n, headers = hs, content = c\<rparr>" for n hs c] case_prod_unfold)
qed

lemma speculative_handler_typed:
  assumes "\<And>prog r. env_draws V prog = Inr r \<Longrightarrow> possible prog (Inr r)"
  shows "answers typed (speculative_handler V b)"
proof -
  have "typed r" if "env_draws V (create_speculative_completion T m orch eos i name b) = Inr r" for T m orch eos i name r
    using always_possible [OF speculative_typed assms [OF that]] .
  then show ?thesis
    unfolding speculative_handler_def by (intro answers_bind) (auto simp: answers_def)
qed

lemma route_typed:
  assumes "\<And>h p. typed (env_unrouted V h p)" and "typed (env_unprocessable V)"
    and "\<And>prog r. env_draws V prog = Inr r \<Longrightarrow> possible prog (Inr r)"
  shows "answers typed (route V h p body)"
  unfolding route_def
  by (intro answers_if answers_option answers_ret reading_handlers_typed completion_handler_typed
      speculative_handler_typed assms)

lemma answers_bind_ret:
  "answers P m \<Longrightarrow> (\<And>r. P r \<Longrightarrow> P (g r)) \<Longrightarrow> answers P (bind m (\<lambda>r. ret (g r)))"
  by (auto simp: answers_def bind_def ret_def split: prod.splits sum.splits)

lemma limited_typed: "answers typed nxt \<Longrightarrow> answers typed (rate_limit_middleware c auth nxt)"
  unfolding rate_limit_middleware_def
  by (rule answers_bind, rule answers_split, rule answers_if, rule answers_ret, simp add: typed_def,
      rule answers_bind_ret, assumption, simp)

lemma shed_typed: "answers typed nxt \<Longrightarrow> answers typed (load_shedder d n path nxt)"
  unfolding load_shedder_def
  by (intro answer_intros answers_if) (simp_all add: typed_def)

lemma app_typed:
  assumes "answers typed nxt" and "app d n c str_exn path auth nxt s = (Some r, s')"
  shows "typed r"
proof -
  have shed: "load_shedder d n path (rate_limit_middleware c auth nxt) s = (Inr r, s') \<Longrightarrow> typed r" for r
    using shed_typed [OF limited_typed [OF assms(1)]] unfolding answers_def by blast
  show ?thesis
    using assms(2) shed by (auto simp: app_def split: prod.splits sum.splits if_splits)
qed

section \<open>Requests as steps of the service\<close>

lemma pool_unchanged: "sv_pool s = Some p \<Longrightarrow> s\<lparr>sv_pool := Some p\<rparr> = s"
  by (cases s) simp

lemma handler_step:
  assumes "serving_reachable L s" and "sv_pool s = Some p" and "handler_event e" and "pool_step e p p'"
  shows "serving_reachable L (s\<lparr>sv_pool := Some p'\<rparr>)"
proof (cases "sv_scheduler s")
  case None
  have "e \<noteq> Stop" using assms(3) by (auto simp: handler_event_def)
  from serving_step.direct [OF this None assms(2,4)] show ?thesis
    by (rule serving_reachable.step [OF assms(1)])
next
  case (Some sc)
  let ?b = "\<lparr>bp_pool = p, bp_sched = sc, awaiting = sv_awaiting s\<rparr>"
  have "batched_step (Request e) ?b (?b\<lparr>bp_pool := p'\<rparr>)"
    by (rule batched_step.request [OF assms(3)]) (simp add: assms(4))
  moreover have "batched_side s = Some ?b" by (simp add: batched_side_def assms(2) Some)
  ultimately have "serving_step (Batched_traffic (Request e)) s (set_batched (?b\<lparr>bp_pool := p'\<rparr>) s)"
    by (intro serving_step.batched) simp_all
  moreover have "set_batched (?b\<lparr>bp_pool := p'\<rparr>) s = s\<lparr>sv_pool := Some p'\<rparr>"
    using Some by (simp add: set_batched_def)
  ultimately show ?thesis using serving_reachable.step [OF assms(1)] by simp
qed

lemma admission_reachable:
  assumes "serving_reachable L s" and "admission dev loaded s = (a, s')"
  shows "serving_reachable L s' \<and> sv_pool s' = sv_pool s"
  using assms serving_reachable.step [OF assms(1) serving_step.admission]
  by (auto simp: admission_def Let_def split: option.splits if_splits prod.splits) (metis snd_conv)

lemma consume_reachable:
  assumes "serving_reachable L s" and "consume V k (s, z) = (res, (s', z'))"
  shows "serving_reachable L s' \<and> sv_pool s' = sv_pool s"
proof (cases "sv_redis s = None \<or> sv_limiter s = None")
  case True
  then show ?thesis using assms by (auto simp: consume_def split: option.splits)
next
  case False
  then obtain cl rl where rl: "sv_redis s = Some cl" "sv_limiter s = Some rl" by auto
  obtain x rl' y where t: "try_consume cl (env_script_load V) (env_evalsha V) (env_time V) rl k z = (x, rl', y)"
    by (metis prod_cases3)
  have "rl' = rl\<lparr>script_sha := script_sha rl'\<rparr>"
    using t by (auto simp: try_consume_def ensure_script_loaded_def Let_def bind_def
        split: prod.splits sum.splits option.splits if_splits)
  then have "serving_step (Limited (script_sha rl')) s (s\<lparr>sv_limiter := Some rl'\<rparr>)"
    using serving_step.limited [OF rl(2), of "script_sha rl'"] by simp
  then show ?thesis
    using serving_reachable.step [OF assms(1)] assms(2) rl t by (auto simp: consume_def)
qed

lemma cancel_reachable:
  assumes "serving_reachable L s" and "sv_pool s = Some p" and "finish_completion n t i w p = (r, p')"
  shows "serving_reachable L (s\<lparr>sv_pool := Some p'\<rparr>)"
proof -
  have "p' = p \<or> p' = cancel_request i p"
    using assms(3) by (auto simp: finish_completion_def split: waited.splits if_splits)
  then show ?thesis
  proof
    assume "p' = p"
    then show ?thesis using assms(1,2) by (simp add: pool_unchanged)
  next
    assume "p' = cancel_request i p"
    then show ?thesis
      using handler_step [OF assms(1,2) _ pool_step.cancel [of i p]] by (simp add: handler_event_def)
  qed
qed

text \<open>
  What the requests rely on: whatever runs while one of them waits is traffic of the service.
\<close>

definition meanwhile_is_traffic :: "('g, 'kv) libs \<Rightarrow> ('g, 'kv, 'z, 'm) env \<Rightarrow> bool" where
  "meanwhile_is_traffic L V \<longleftrightarrow>
     (\<forall>f s z. serving_reachable L s \<longrightarrow> serving_reachable L (fst (snd (env_meanwhile V f (s, z)))))"

lemma complete_reachable:
  assumes reach: "serving_reachable L s" and pool: "sv_pool s = Some pool"
    and mean: "meanwhile_is_traffic L V"
    and run: "complete V b m qcl key pool name (s, z) = (res, (s', z'))"
  shows "serving_reachable L s'"
proof -
  obtain admit s1 where adm: "admission (env_device V) (is_loaded m) s = (admit, s1)" by force
  have s1: "serving_reachable L s1" "sv_pool s1 = Some pool"
    using admission_reachable [OF reach adm] pool by simp_all
  obtain st pool1 z1 where cc: "create_completion (is_loaded m) admit (env_uuid V)
      (\<lambda>rid p d. enqueue (env_zset V) (env_dumps V) qcl key rid p d (env_time V)) b pool z = (st, pool1, z1)"
    by (metis prod_cases3)
  have "pool1 = pool \<or> pool1 = snd (register_request (env_uuid V) pool)"
    using cc by (auto simp: create_completion_def Let_def split: if_splits prod.splits sum.splits)
  then have s2: "serving_reachable L (s1\<lparr>sv_pool := Some pool1\<rparr>)"
  proof
    assume "pool1 = snd (register_request (env_uuid V) pool)"
    then show ?thesis
      using handler_step [OF s1 _ pool_step.register [of "env_uuid V" pool]]
      by (simp add: handler_event_def)
  qed (use s1 in \<open>simp add: pool_unchanged\<close>)
  show ?thesis
  proof (cases "\<exists>rid f. st = Inr (Awaiting rid f)")
    case True
    then obtain rid f where st: "st = Inr (Awaiting rid f)" by blast
    obtain w s3 z3 where wait: "env_meanwhile V f (s1\<lparr>sv_pool := Some pool1\<rparr>, z1) = (w, s3, z3)"
      by (metis prod_cases3)
    have s3: "serving_reachable L s3"
      using mean s2 wait unfolding meanwhile_is_traffic_def by (metis fst_conv snd_conv)
    show ?thesis
    proof (cases "sv_pool s3")
      case None
      then show ?thesis using run adm cc st wait s3 by (simp add: complete_def)
    next
      case (Some p3)
      obtain r p4 where fin: "finish_completion name (env_timeout_text V) rid w p3 = (r, p4)" by force
      then have "s' = s3\<lparr>sv_pool := Some p4\<rparr>"
        using run adm cc st wait Some by (simp add: complete_def)
      then show ?thesis using cancel_reachable [OF s3 Some fin] by simp
    qed
  next
    case False
    then have "s' = s1\<lparr>sv_pool := Some pool1\<rparr>"
      using run adm cc by (auto simp: complete_def Let_def split: sum.splits started.splits)
    then show ?thesis using s2 by simp
  qed
qed

text \<open>The other handlers leave the service as it is.\<close>

definition keeps_service :: "('a, 'g, 'kv, 'z) handler \<Rightarrow> bool" where
  "keeps_service h \<longleftrightarrow> (\<forall>s z. fst (snd (h (s, z))) = s)"

lemma keeps_bind: "keeps_service h \<Longrightarrow> (\<And>a. keeps_service (k a)) \<Longrightarrow> keeps_service (bind h k)"
  by (auto simp: keeps_service_def bind_def split: prod.splits sum.splits) (metis fst_conv snd_conv)+

lemma keeps_basic:
  "keeps_service (depends f)" "keeps_service (ret a)" "keeps_service (on_redis act)"
  by (simp_all add: keeps_service_def depends_def ret_def on_redis_def split: prod.splits)

lemma keeps_split: "(\<And>a b. keeps_service (f a b)) \<Longrightarrow> keeps_service (case x of (a, b) \<Rightarrow> f a b)"
  by (cases x) simp

lemma keeps_if: "keeps_service a \<Longrightarrow> keeps_service b \<Longrightarrow> keeps_service (if c then a else b)"
  by simp

lemma keeps_option:
  "keeps_service n \<Longrightarrow> (\<And>a. keeps_service (f a)) \<Longrightarrow> keeps_service (case x of None \<Rightarrow> n | Some a \<Rightarrow> f a)"
  by (cases x) simp_all

lemmas keeps_intros = keeps_bind keeps_basic keeps_split

lemma keeps_health: "keeps_service depth \<Longrightarrow> keeps_service (\<lambda>st. health_check_route l (h st) cb depth name st)"
  by (auto simp: health_check_route_def keeps_service_def bind_def ret_def Let_def split: prod.splits sum.splits)
    (metis fst_conv snd_conv)+

lemma keeps_handlers:
  "keeps_service (health_handler V)" "keeps_service ready_handler" "keeps_service models_handler"
  "keeps_service cache_handler" "keeps_service (memory_stats_handler V)"
  "keeps_service (watermark_handler V)" "keeps_service (gc_handler V)" "keeps_service (speculative_handler V b)"
proof -
  show "keeps_service (health_handler V)"
    unfolding health_handler_def by (intro keeps_intros keeps_health)
  show "keeps_service ready_handler" "keeps_service models_handler" "keeps_service cache_handler"
    unfolding ready_handler_def models_handler_def cache_handler_def by (intro keeps_intros)+
  have "keeps_service (\<lambda>(s, z). (env_draws V (f s), (s, z)))" for f
    by (simp add: keeps_service_def)
  then show "keeps_service (speculative_handler V b)"
    unfolding speculative_handler_def by (intro keeps_intros)
qed (simp_all add: keeps_service_def memory_stats_handler_def watermark_handler_def gc_handler_def)

lemma completion_handler_run:
  assumes "completion_handler V b (s, z) = (res, (s', z'))"
  shows "s' = s \<or> (\<exists>m qcl key pool name. sv_pool s = Some pool \<and>
    complete V b m qcl key pool name (s, z) = (res, (s', z')))"
  using assms
  by (auto simp: completion_handler_def bind_def depends_def get_worker_pool_def get_attr_def
      split: prod.splits sum.splits option.splits)

lemma route_reachable:
  assumes reach: "serving_reachable L s" and mean: "meanwhile_is_traffic L V"
    and run: "route V h p body (s, z) = (res, (s', z'))"
  shows "serving_reachable L s'"
proof (cases "(h, p) = (''POST'', ''/v1/completions'') \<and> body \<noteq> None")
  case True
  then obtain b where "completion_handler V b (s, z) = (res, (s', z'))"
    using run by (auto simp: route_def)
  from completion_handler_run [OF this] show ?thesis
    using complete_reachable [OF reach _ mean] reach by metis
next
  case False
  have "keeps_service (route V h p body)"
  proof (cases "(h, p) = (''POST'', ''/v1/completions'')")
    case True
    then have "route V h p body = ret (env_unprocessable V)" using False by (simp add: route_def)
    then show ?thesis by (simp only: keeps_basic)
  next
    case other: False
    show ?thesis
      unfolding route_def if_not_P [OF other]
      by (intro keeps_if keeps_option keeps_handlers keeps_basic)
  qed
  then have "s' = s" using run unfolding keeps_service_def by (metis fst_conv snd_conv)
  then show ?thesis using reach by simp
qed

lemma limited_reachable:
  assumes reach: "serving_reachable L s" and mean: "meanwhile_is_traffic L V"
    and run: "rate_limit_middleware (consume V) auth (route V h p body) (s, z) = (res, (s', z'))"
  shows "serving_reachable L s'"
proof -
  obtain c s1 z1 where c: "consume V (extract_api_key auth) (s, z) = (c, (s1, z1))"
    by (metis prod_cases3)
  have s1: "serving_reachable L s1" using consume_reachable [OF reach c] by auto
  obtain r s2 z2 where rt: "route V h p body (s1, z1) = (r, (s2, z2))" by (metis prod_cases3)
  have s2: "serving_reachable L s2" by (rule route_reachable [OF s1 mean rt])
  have "s' = s1 \<or> s' = s2"
    using run c rt by (auto simp: rate_limit_middleware_def bind_def ret_def split: sum.splits if_splits)
  then show ?thesis using s1 s2 by blast
qed

lemma ready_serve:
  assumes ok: "objects_ok cfg s" and l: "sv_lifecycle s = Some l"
    and depth: "zcard (env_zset V) ''inference_queue'' z = (Inr depth, z1)"
    and limit: "consume V (extract_api_key auth) (s, z1) = (Inr (allowed, info), (s2, z2))"
  shows "\<exists>r st'. serve V ''GET'' ''/ready'' auth body (s, z) = (Some r, st') \<and>
    status r = (if cfg_max_queue_depth cfg \<le> int depth then 503 else if \<not> allowed then 429
      else if shutting_down l then 503 else 200)"
proof -
  obtain m where m: "sv_manager s = Some m" "is_loaded m"
    and cl: "sv_redis s = Some \<lparr>redis_url = cfg_redis_url cfg, redis_open = True\<rparr>"
    and cfg: "sv_settings s = Some cfg"
    using ok by (auto simp: objects_ok_def)
  have "sv_manager s2 = sv_manager s" "sv_lifecycle s2 = sv_lifecycle s"
    using limit by (auto simp: consume_def Let_def split: option.splits prod.splits)
  then have "ready_handler (s2, z2) = (Inr (readiness_check (shutting_down l) True), (s2, z2))"
    using m l by (simp add: ready_handler_def bind_def depends_def get_model_manager_def
        get_lifecycle_manager_def get_attr_def ret_def)
  then have "rate_limit_middleware (consume V) auth (route V ''GET'' ''/ready'' body) (s, z1) =
      (if \<not> allowed then (Inr \<lparr>status = 429,
           headers = [(''Retry-After'', str_int (py_int (info_retry_after info) + 1)),
             (''X-RateLimit-Remaining'', ''0''), (''X-RateLimit-Limit'', str_int (py_int (info_limit info)))],
           content = Error_body ''Rate limit exceeded'' ''rate_limit_error'' 429\<rparr>, (s2, z2))
       else (Inr (set_header ''X-RateLimit-Limit'' (str_int (py_int (info_limit info)))
           (set_header ''X-RateLimit-Remaining'' (str_int (py_int (info_remaining info)))
             (readiness_check (shutting_down l) True))), (s2, z2)))"
    using limit by (simp add: rate_limit_middleware_def bind_def route_def ret_def)
  moreover have "bind (depends get_priority_queue) (\<lambda>(qcl, key). on_redis (queue_depth (env_zset V) qcl key)) (s, z) =
      (Inr depth, (s, z1))"
    using cl depth by (simp add: bind_def depends_def get_priority_queue_def get_attr_def on_redis_def queue_depth_def)
  ultimately show ?thesis
    using cfg by (auto simp: serve_def app_def load_shedder_def bind_def [of "bind (depends get_priority_queue) f" for f]
        bypass_paths_def ret_def set_header_def readiness_check_def)
qed

section \<open>Properties\<close>

text \<open>C19: Every response is well typed: whatever the request, the state and the outcome of the
  inference, the status of the answer fits its body: an error body repeats an error status,
  unhealthy and not-ready reports come with 503, every other body of the program with 200, the
  health states are those of the schema, and the token total is the sum of its parts.  This
  covers the middlewares, the global handler and every route.\<close>

theorem responses_are_typed:
  assumes "\<And>h p. typed (env_unrouted V h p)" and "typed (env_unprocessable V)"
    and "\<And>prog r. env_draws V prog = Inr r \<Longrightarrow> possible prog (Inr r)"
    and "serve V http_method path auth body st = (Some r, st')"
  shows "typed r"
proof -
  have "answers typed (route V http_method path body)" by (rule route_typed) (use assms(1-3) in auto)
  then show ?thesis by (rule app_typed [OF _ assms(4) [unfolded serve_def]])
qed

text \<open>C10: Requests are steps of the service: a request, through both middlewares and its route, takes
  a reachable state of the running service to a reachable one, whatever its id, provided that what
  happens during its wait is traffic of the service.  So the invariant of the running service
  and the guarantees of its shutdown hold under any sequence of requests.\<close>

theorem requests_are_service_steps:
  assumes "serving_reachable L s" and "meanwhile_is_traffic L V"
    and "serve V http_method path auth body (s, z) = (r, s', z')"
  shows "serving_reachable L s'"
proof -
  let ?next = "rate_limit_middleware (consume V) auth (route V http_method path body)"
  let ?depth = "bind (depends get_priority_queue) (\<lambda>(qcl, key). on_redis (queue_depth (env_zset V) qcl key))"
  have keeps: "keeps_service ?depth" by (intro keeps_intros)
  obtain d z1 where d: "?depth (s, z) = (d, (s, z1))"
    using keeps unfolding keeps_service_def by (metis prod.collapse)
  obtain a s2 z2 where a: "?next (s, z) = (a, (s2, z2))" by (metis prod_cases3)
  obtain b s3 z3 where b: "?next (s, z1) = (b, (s3, z3))" by (metis prod_cases3)
  have "s' = s \<or> s' = s2 \<or> s' = s3"
    using assms(3) d a b
    by (auto simp: serve_def app_def load_shedder_def bind_def [of ?depth] ret_def
        split: prod.splits sum.splits if_splits)
  then show ?thesis
    using assms(1) limited_reachable [OF assms(1,2) a] limited_reachable [OF assms(1,2) b] by blast
qed

text \<open>C29: What \<^verbatim>\<open>/ready\<close> reports: on a running service whose Redis answers, 200 exactly when no signal
  came, the queue is below its limit and the caller's bucket has a token; 503 when the queue is at
  its limit, else 429 when the bucket is empty, else 503 after a signal.
  Unlike the health check, the readiness probe is subject to load shedding and to the rate
  limit, so an overloaded or rate-limited instance reads as not ready.\<close>

theorem ready_reports_signal_and_load:
  assumes "serving_reachable L s" and "lib_settings L = Inr cfg" and "sv_lifecycle s = Some l"
    and "zcard (env_zset V) ''inference_queue'' z = (Inr depth, z1)"
    and "consume V (extract_api_key auth) (s, z1) = (Inr (allowed, info), (s2, z2))"
  shows "\<exists>r st'. serve V ''GET'' ''/ready'' auth body (s, z) = (Some r, st') \<and>
    status r = (if cfg_max_queue_depth cfg \<le> int depth then 503 else if \<not> allowed then 429
      else if shutting_down l then 503 else 200)"
proof -
  have "objects_ok cfg s" using serving_reachable_ok [OF assms(1)] assms(2) by (auto simp: serving_ok_def)
  from ready_serve [OF this assms(3-5)] show ?thesis .
qed

primrec first_outcome :: "'a rnd \<Rightarrow> 'a result" where
  "first_outcome (Done a) = Inr a"
| "first_outcome (Fail e) = Inl e"
| "first_outcome (Flip p k) = (if 0 < clip p then first_outcome (k True) else first_outcome (k False))"
| "first_outcome (Choose w k) = (if w \<noteq> [] \<and> w ! 0 \<noteq> 0 then first_outcome (k 0) else Inl index_error)"

lemma first_outcome_possible: "first_outcome m = Inr r \<Longrightarrow> possible m (Inr r)"
  by (induction m) (auto split: if_splits)

definition demo_env :: "(unit, unit, nat, string) env" where
  "demo_env =
     \<lparr>env_zset = \<lparr>zadd = (\<lambda>k m sc z. (Inr (), z + 1)), zpopmin = (\<lambda>k n. ret []), zcard = (\<lambda>k z. (Inr z, z))\<rparr>,
      env_dumps = (\<lambda>d. ''item''), env_script_load = ret ''sha'',
      env_evalsha = (\<lambda>sha k n r t. ret (1, 9, 0)), env_ping = ret True, env_time = 5, env_monotonic = 5,
      env_device = None, env_collected = id, env_emptied = id, env_uuid = ''cmpl-1'',
      env_timeout_text = ''60.0'', env_str_exn = (\<lambda>e. ''error''),
      env_unrouted = (\<lambda>h p. \<lparr>status = 404, headers = [], content = Framework_body ''Not Found''\<rparr>),
      env_unprocessable = \<lparr>status = 422, headers = [], content = Framework_body ''invalid''\<rparr>,
      env_torch = exact_torch, env_eos = Some 2, env_draws = first_outcome,
      env_meanwhile = (\<lambda>f st. (Timed_out_waiting, st))\<rparr>"

lemma demo_served:
  "\<exists>s x s2. serving_reachable (demo_libs default_settings (Inl CancelledError)) s \<and>
     objects_ok default_settings s \<and> sv_lifecycle s = Some (signals_registered lifecycle_init) \<and>
     consume demo_env (extract_api_key None) (s, 0) = (Inr (True, x), (s2, 0))"
proof -
  let ?L = "demo_libs default_settings (Inl CancelledError)"
  obtain s where st: "startup ?L (serving_init demo_log) = (Inr (), s)" using demo_startup by blast
  have reach: "serving_reachable ?L s" by (rule serving_reachable.init [OF st])
  have ok: "objects_ok default_settings s"
    using serving_reachable_ok [OF reach] by (auto simp: serving_ok_def demo_libs_def)
  have life: "sv_lifecycle s = Some (signals_registered lifecycle_init)" using startup_Inr [OF st] by auto
  obtain sha where rl: "sv_redis s = Some \<lparr>redis_url = cfg_redis_url default_settings, redis_open = True\<rparr>"
    "sv_limiter s = Some ((limiter_init (cfg_rate_limit_bucket_size default_settings)
        (cfg_rate_limit_refill_rate default_settings) ''rate_limit'')\<lparr>script_sha := sha\<rparr>)"
    using ok by (auto simp: objects_ok_def)
  have "\<exists>x s2. consume demo_env k (s, 0) = (Inr (True, x), (s2, 0))" for k
    using rl by (cases sha) (simp_all add: consume_def demo_env_def try_consume_def ensure_script_loaded_def
        bind_def ret_def Let_def limiter_init_def)
  then show ?thesis using reach ok life by blast
qed

lemma demo_depth: "zcard (env_zset demo_env) k 0 = (Inr 0, 0)"
  by (simp add: demo_env_def)

lemma responses_are_typed_witness:
  "\<exists>s r st. serve demo_env ''GET'' ''/ready'' None None (s, 0) = (Some r, st) \<and> typed r"
proof -
  obtain s x s2 where s: "objects_ok default_settings s" "sv_lifecycle s = Some (signals_registered lifecycle_init)"
    "consume demo_env (extract_api_key None) (s, 0) = (Inr (True, x), (s2, 0))"
    using demo_served by blast
  obtain r st where r: "serve demo_env ''GET'' ''/ready'' None None (s, 0) = (Some r, st)"
    using ready_serve [OF s(1,2) demo_depth s(3), of None] by blast
  have "typed r"
    by (rule responses_are_typed [OF _ _ _ r]) (simp_all add: demo_env_def typed_def first_outcome_possible)
  then show ?thesis using r by blast
qed

lemma requests_are_service_steps_witness:
  "\<exists>s r s' z'. serve demo_env ''POST'' ''/v1/completions'' None (Some demo_body) (s, 0) = (r, s', z') \<and>
     serving_reachable (demo_libs default_settings (Inl CancelledError)) s'"
proof -
  obtain s where s: "serving_reachable (demo_libs default_settings (Inl CancelledError)) s"
    using demo_served by blast
  obtain r s' z' where run:
    "serve demo_env ''POST'' ''/v1/completions'' None (Some demo_body) (s, 0) = (r, s', z')" by (metis prod_cases3)
  have "serving_reachable (demo_libs default_settings (Inl CancelledError)) s'"
    by (rule requests_are_service_steps [OF s _ run]) (simp add: demo_env_def meanwhile_is_traffic_def)
  then show ?thesis using run by blast
qed

lemma ready_reports_signal_and_load_witness:
  "\<exists>s r st. serve demo_env ''GET'' ''/ready'' None None (s, 0) = (Some r, st) \<and> status r = 200"
proof -
  obtain s x s2 where s: "serving_reachable (demo_libs default_settings (Inl CancelledError)) s"
    "sv_lifecycle s = Some (signals_registered lifecycle_init)"
    "consume demo_env (extract_api_key None) (s, 0) = (Inr (True, x), (s2, 0))"
    using demo_served by blast
  have "lib_settings (demo_libs default_settings (Inl CancelledError)) = Inr default_settings"
    by (simp add: demo_libs_def)
  from ready_reports_signal_and_load [OF s(1) this s(2) demo_depth s(3), of None]
  obtain r st where r: "serve demo_env ''GET'' ''/ready'' None None (s, 0) = (Some r, st)"
    "status r = (if cfg_max_queue_depth default_settings \<le> int 0 then 503 else if \<not> True then 429
       else if shutting_down (signals_registered lifecycle_init) then 503 else 200)" by blast
  moreover have "status r = 200"
    using r(2) by (simp add: default_settings_def lifecycle_init_def)
  ultimately show ?thesis by blast
qed

end
