(* ===== verification/Report.thy ===== *)
theory Report
  imports Py_Str Float_Arith App_Config
begin

text \<open>
  \<^verbatim>\<open>scripts/generate_metrics_report.py\<close>: the report on a load test from the CSV files of its three
  phases.  A file is the list of rows that \<^verbatim>\<open>csv.DictReader\<close> yields, \<open>None\<close> where it does not
  exist; a column that a short row lacks has the value \<open>None\<close>.  Strings are UTF-8 bytes.
\<close>

section \<open>Numbers\<close>

text \<open>Python's \<^verbatim>\<open>float\<close> on a string: what is left of the text after each part of the grammar.\<close>

datatype parsed = Finite rat | Infinite | Not_a_number

definition is_digit :: "char \<Rightarrow> bool" where
  "is_digit c \<longleftrightarrow> (let n = of_char c :: nat in 48 \<le> n \<and> n \<le> 57)"

text \<open>An underscore must stand between two digits.\<close>

fun drop_underscores :: "bool \<Rightarrow> string \<Rightarrow> string option" where
  "drop_underscores after_digit [] = Some []"
| "drop_underscores after_digit (c # cs) =
     (if c = CHR ''_''
      then (if after_digit \<and> cs \<noteq> [] \<and> is_digit (hd cs) then drop_underscores False cs else None)
      else map_option ((#) c) (drop_underscores (is_digit c) cs))"

definition lower_char :: "char \<Rightarrow> char" where
  "lower_char c = (let n = of_char c :: nat in if 65 \<le> n \<and> n \<le> 90 then char_of (n + 32) else c)"

definition take_sign :: "string \<Rightarrow> bool \<times> string" where
  "take_sign cs =
     (case cs of
        c # r \<Rightarrow> (if c = CHR ''-'' then (True, r) else if c = CHR ''+'' then (False, r) else (False, cs))
      | [] \<Rightarrow> (False, []))"

definition take_digits :: "string \<Rightarrow> string \<times> string" where
  "take_digits cs = (takeWhile is_digit cs, dropWhile is_digit cs)"

definition take_fraction :: "string \<Rightarrow> string \<times> string" where
  "take_fraction cs =
     (case cs of c # r \<Rightarrow> (if c = CHR ''.'' then take_digits r else ([], cs)) | [] \<Rightarrow> ([], []))"

definition exponent :: "string \<Rightarrow> int option" where
  "exponent cs =
     (case cs of
        [] \<Rightarrow> Some 0
      | c # r \<Rightarrow>
          (if lower_char c \<noteq> CHR ''e'' then None
           else let (negative, r) = take_sign r; (ds, r) = take_digits r in
             if ds = [] \<or> r \<noteq> [] then None
             else Some (if negative then - int (nat_of_str ds) else int (nat_of_str ds))))"

definition parse_decimal :: "string \<Rightarrow> rat option" where
  "parse_decimal cs =
     (let (ip, r) = take_digits cs; (fp, r) = take_fraction r in
      if ip = [] \<and> fp = [] then None
      else case exponent r of
             None \<Rightarrow> None
           | Some e \<Rightarrow>
               (let k = e - int (length fp); m = of_nat (nat_of_str (ip @ fp)) :: rat
                in Some (if 0 \<le> k then m * 10 ^ nat k else m / 10 ^ nat (- k))))"

text \<open>The nearest double: infinite from the midpoint above the largest one, zero below the least.\<close>

definition to_double :: "rat \<Rightarrow> parsed" where
  "to_double x =
     (if 2 ^ 1024 - 2 ^ 970 \<le> \<bar>x\<bar> then Infinite
      else if \<bar>x\<bar> * 2 ^ 1075 \<le> 1 then Finite 0
      else Finite (fl64 x))"

definition parse_float :: "string \<Rightarrow> parsed option" where
  "parse_float s =
     (case drop_underscores False (strip s) of
        None \<Rightarrow> None
      | Some cs \<Rightarrow>
          (let (negative, r) = take_sign cs; word = map lower_char r in
           if word = ''inf'' \<or> word = ''infinity'' then Some Infinite
           else if word = ''nan'' then Some Not_a_number
           else map_option (\<lambda>x. to_double (if negative then - x else x)) (parse_decimal r)))"

text \<open>\<^verbatim>\<open>f"{num:.1f}"\<close>: the exact value to one decimal, ties to even.\<close>

definition fixed1 :: "rat \<Rightarrow> string" where
  "fixed1 x =
     (let n = nat (rhe (\<bar>x\<bar> * 10))
      in (if x < 0 then ''-'' else '''') @ str_nat (n div 10) @ ''.'' @ str_nat (n mod 10))"

definition em_dash :: string where
  "em_dash = map char_of [226, 128, 148 :: nat]"

text \<open>
  \<^verbatim>\<open>int\<close> of an infinity raises \<^verbatim>\<open>OverflowError\<close>, which is not a \<^verbatim>\<open>ValueError\<close>; \<^verbatim>\<open>int\<close> of NaN raises a
  \<^verbatim>\<open>ValueError\<close>, as \<^verbatim>\<open>float\<close> of other text does.
\<close>

definition format_number :: "string option \<Rightarrow> string result" where
  "format_number v =
     (case v of
        None \<Rightarrow> Inr em_dash
      | Some s \<Rightarrow>
          (if s = ''N/A'' \<or> s = '''' then Inr em_dash
           else case parse_float s of
             None \<Rightarrow> Inr s
           | Some Not_a_number \<Rightarrow> Inr s
           | Some Infinite \<Rightarrow> Inl (OtherException ''OverflowError'')
           | Some (Finite x) \<Rightarrow>
               (if x = of_int (py_int x) then Inr (str_int (py_int x)) else Inr (fixed1 x))))"

section \<open>Rows\<close>

type_synonym csv_row = "(string \<times> string option) list"

definition row_get :: "csv_row \<Rightarrow> string \<Rightarrow> string option \<Rightarrow> string option" where
  "row_get row k dflt = (case map_of row k of None \<Rightarrow> dflt | Some v \<Rightarrow> v)"

definition parse_stats_csv :: "csv_row list option \<Rightarrow> csv_row option" where
  "parse_stats_csv file =
     (case file of
        None \<Rightarrow> None
      | Some rows \<Rightarrow> List.find (\<lambda>row. row_get row ''Name'' None = Some ''Aggregated'') rows)"

definition parse_failures_csv :: "csv_row list option \<Rightarrow> csv_row list" where
  "parse_failures_csv file = (case file of None \<Rightarrow> [] | Some rows \<Rightarrow> rows)"

section \<open>The report\<close>

definition capitalize :: "string \<Rightarrow> string" where
  "capitalize s = (case s of [] \<Rightarrow> [] | c # cs \<Rightarrow> upper_char c # map lower_char cs)"

definition phases :: "string list" where
  "phases = [''warmup'', ''ramp'', ''stress'']"

definition report_header :: "string list" where
  "report_header =
     [''# Load Test Results'', '''',
      ''| Phase | Requests | RPS | p50 (ms) | p95 (ms) | p99 (ms) | Errors |'',
      ''|-------|----------|-----|----------|----------|----------|--------|'']"

text \<open>The columns of a phase, in the order in which they are formatted.\<close>

definition phase_values :: "csv_row \<Rightarrow> string option list" where
  "phase_values row =
     [row_get row ''Request Count'' (row_get row ''# Requests'' (Some '''')),
      row_get row ''Requests/s'' (row_get row ''RPS'' (Some '''')),
      row_get row ''50%'' (row_get row ''Median Response Time'' (Some '''')),
      row_get row ''95%'' (Some ''''),
      row_get row ''99%'' (Some ''''),
      row_get row ''Failure Count'' (row_get row ''# Failures'' (Some ''0''))]"

fun format_all :: "string option list \<Rightarrow> string list result" where
  "format_all [] = Inr []"
| "format_all (v # vs) =
     (case format_number v of
        Inl e \<Rightarrow> Inl e
      | Inr x \<Rightarrow> (case format_all vs of Inl e \<Rightarrow> Inl e | Inr xs \<Rightarrow> Inr (x # xs)))"

definition table_line :: "string list \<Rightarrow> string" where
  "table_line cells = ''| '' @ join '' | '' cells @ '' |''"

definition phase_line :: "csv_row list option \<Rightarrow> string \<Rightarrow> string result" where
  "phase_line file phase =
     (case parse_stats_csv file of
        None \<Rightarrow> Inr (table_line (capitalize phase # replicate 6 em_dash))
      | Some row \<Rightarrow>
          (case format_all (phase_values row) of
             Inl e \<Rightarrow> Inl e
           | Inr cells \<Rightarrow> Inr (table_line (capitalize phase # cells))))"

text \<open>The table printed so far, and how it ended.\<close>

fun phase_lines :: "(string \<Rightarrow> csv_row list option) \<Rightarrow> string list \<Rightarrow> string list \<times> exn option" where
  "phase_lines read [] = ([], None)"
| "phase_lines read (phase # rest) =
     (case phase_line (read (phase @ ''_stats.csv'')) phase of
        Inl e \<Rightarrow> ([], Some e)
      | Inr line \<Rightarrow> (let (out, e) = phase_lines read rest in (line # out, e)))"

definition show_value :: "string option \<Rightarrow> string" where
  "show_value v = (case v of None \<Rightarrow> ''None'' | Some s \<Rightarrow> s)"

definition failure_line :: "csv_row \<Rightarrow> string" where
  "failure_line f =
     (let http_method = show_value (row_get f ''Method'' (Some ''?''));
          name = show_value (row_get f ''Name'' (Some ''?''));
          count = show_value (row_get f ''Occurrences'' (row_get f ''# Occurrences'' (Some ''?'')));
          msg = show_value (row_get f ''Error'' (row_get f ''Message'' (Some ''?'')))
      in ''- `'' @ http_method @ '' '' @ name @ ''`: '' @ count @ map char_of [195, 151 :: nat] @ '' '' @
         em_dash @ '' '' @ msg)"

definition failure_lines :: "(string \<Rightarrow> csv_row list option) \<Rightarrow> string \<Rightarrow> string list" where
  "failure_lines read phase =
     (let failures = parse_failures_csv (read (phase @ ''_failures.csv'')) in
      if failures = [] then []
      else (''**'' @ capitalize phase @ '':**'') # map failure_line failures @ [''''])"

definition error_summary :: "(string \<Rightarrow> csv_row list option) \<Rightarrow> string list" where
  "error_summary read =
     (let lines = concat (map (failure_lines read) phases) in
      ['''', ''### Error Summary'', ''''] @ lines @
      (if lines = []
       then [''No errors recorded across all phases. '' @ map char_of [226, 156, 133 :: nat], '''']
       else []))"

datatype report_end = Finished | Exit int | Raised_error exn

text \<open>\<open>show_path\<close> is \<^verbatim>\<open>str(Path(..))\<close>.\<close>

definition report_main :: "string list \<Rightarrow> (string \<Rightarrow> string) \<Rightarrow> bool \<Rightarrow> (string \<Rightarrow> csv_row list option) \<Rightarrow> string list \<times> report_end" where
  "report_main argv show_path dir_exists read =
     (if length argv < 2 then ([''Usage: python generate_metrics_report.py <results_dir>''], Exit 1)
      else if \<not> dir_exists then ([''Error: '' @ show_path (argv ! 1) @ '' does not exist''], Exit 1)
      else case phase_lines read phases of
             (lines, Some e) \<Rightarrow> (report_header @ lines, Raised_error e)
           | (lines, None) \<Rightarrow> (report_header @ lines @ error_summary read, Finished))"

section \<open>Lemmas\<close>

lemma digits_of_str_nat: "c \<in> set (str_nat n) \<Longrightarrow> is_digit c"
  using set_str_nat [of n] by (auto simp: is_digit_def of_char_digit Let_def)

lemma digit_facts:
  "is_digit c \<Longrightarrow> \<not> is_space c" "is_digit c \<Longrightarrow> c \<noteq> CHR ''_''" "is_digit c \<Longrightarrow> c \<noteq> CHR ''-''"
  "is_digit c \<Longrightarrow> c \<noteq> CHR ''+''" "is_digit c \<Longrightarrow> lower_char c = c"
  by (auto simp: is_digit_def is_space_def lower_char_def Let_def)

lemma strip_id:
  assumes "\<And>c. c \<in> set s \<Longrightarrow> \<not> is_space c"
  shows "strip s = s"
proof -
  have "dropWhile is_space xs = xs" if "\<And>c. c \<in> set xs \<Longrightarrow> \<not> is_space c" for xs
    using that by (cases xs) simp_all
  from this [of s] this [of "rev s"] show ?thesis using assms by (simp add: strip_def)
qed

lemma drop_underscores_id: "CHR ''_'' \<notin> set s \<Longrightarrow> drop_underscores b s = Some s"
  by (induction s arbitrary: b) auto

lemma take_digits_str_nat: "take_digits (str_nat n) = (str_nat n, [])"
  using digits_of_str_nat [of _ n] by (simp add: take_digits_def)

lemma parse_decimal_str_nat: "parse_decimal (str_nat n) = Some (of_nat n)"
  by (simp add: parse_decimal_def take_digits_str_nat take_fraction_def exponent_def str_nat_nonempty
      nat_of_str_str_nat)

lemma map_lower_str_nat: "map lower_char (str_nat n) = str_nat n"
  using digits_of_str_nat [of _ n] by (simp add: map_idI digit_facts)

lemma not_digit: "\<not> is_digit CHR ''i''" "\<not> is_digit CHR ''n''" "\<not> is_digit CHR ''N''"
  by (simp_all add: is_digit_def)

lemma str_nat_not_word: "str_nat n \<noteq> ''inf''" "str_nat n \<noteq> ''infinity''" "str_nat n \<noteq> ''nan''"
  "str_nat n \<noteq> ''N/A''"
  using digits_of_str_nat [of "hd (str_nat n)" n] not_digit str_nat_nonempty [of n]
  by (metis hd_in_set list.sel(1))+

lemma take_sign_str_nat: "take_sign (str_nat n) = (False, str_nat n)"
  using digits_of_str_nat [of "hd (str_nat n)" n] digit_facts(3,4) [of "hd (str_nat n)"] str_nat_nonempty [of n]
  by (cases "str_nat n") (auto simp: take_sign_def)

lemma parse_float_str_int: "parse_float (str_int i) = Some (to_double (of_int i))"
proof -
  have chars: "is_digit c \<or> c = CHR ''-''" if "c \<in> set (str_int i)" for c
    using that digits_of_str_nat by (auto simp: str_int_def split: if_splits)
  have "\<not> is_space CHR ''-''" by (simp add: is_space_def)
  then have "strip (str_int i) = str_int i" by (intro strip_id) (use chars digit_facts in blast)
  moreover have "drop_underscores False (str_int i) = Some (str_int i)"
    by (rule drop_underscores_id) (use chars [of "CHR ''_''"] digit_facts(2) in auto)
  moreover have "of_nat (nat (- i)) = - (of_int i :: rat)" if "i < 0" using that by simp
  moreover have "of_nat (nat i) = (of_int i :: rat)" if "\<not> i < 0" using that by simp
  ultimately show ?thesis
    by (cases "i < 0") (simp_all add: parse_float_def str_int_def take_sign_str_nat map_lower_str_nat
        str_nat_not_word parse_decimal_str_nat take_sign_def [of "CHR ''-'' # r" for r] Let_def)
qed

lemma str_int_not_special: "str_int i \<noteq> ''N/A''" "str_int i \<noteq> []"
  using str_nat_not_word(4) by (simp_all add: str_int_def str_nat_nonempty)

section \<open>Properties\<close>

text \<open>Integer cells survive formatting: a number of at most 2^53 that Locust wrote in decimal is
  read as a float and printed back as the same digits.\<close>

theorem format_number_keeps_integers:
  assumes "\<bar>i\<bar> \<le> 2 ^ 53"
  shows "format_number (Some (str_int i)) = Inr (str_int i)"
proof -
  have exact: "fl64 (of_int i) = of_int i" by (rule f64.exact_int) (use assms in simp)
  have "\<not> (2 ^ 1024 - 2 ^ 970 :: rat) \<le> \<bar>of_int i\<bar>"
  proof -
    have "\<bar>of_int i\<bar> \<le> (2 ^ 53 :: rat)" using assms by (metis of_int_abs of_int_le_iff of_int_numeral of_int_power)
    also have "\<dots> < 2 ^ 1024 - 2 ^ 970" by simp
    finally show ?thesis by simp
  qed
  moreover have "\<not> \<bar>of_int i\<bar> * 2 ^ 1075 \<le> (1 :: rat)" if "i \<noteq> 0"
  proof -
    have "1 \<le> \<bar>i\<bar>" using that by simp
    then have "1 \<le> \<bar>of_int i :: rat\<bar>" by (metis of_int_1_le_iff of_int_abs)
    then have "1 * 2 ^ 1075 \<le> \<bar>of_int i :: rat\<bar> * 2 ^ 1075" by (rule mult_right_mono) simp
    moreover have "(1 :: rat) < 1 * 2 ^ 1075" by simp
    ultimately show ?thesis by linarith
  qed
  ultimately have "to_double (of_int i) = Finite (of_int i)"
    using exact by (cases "i = 0") (simp_all add: to_double_def)
  then show ?thesis
    by (simp add: format_number_def str_int_not_special parse_float_str_int py_int_def)
qed

lemma format_number_keeps_integers_witness: "format_number (Some (str_int (- 1500))) = Inr (str_int (- 1500))"
  by (rule format_number_keeps_integers) simp

text \<open>The report stops at an infinite cell: \<^verbatim>\<open>format_number\<close> handles text that is no number, but a
  cell that Python reads as an infinity raises, and the report ends in the middle of its table,
  without the lines of that phase and the later ones and without the error summary.\<close>

theorem infinite_cell_ends_report:
  assumes "2 \<le> length argv" and "parse_stats_csv (read ''warmup_stats.csv'') = Some row"
    and "hd (phase_values row) = Some s" and "s \<noteq> ''N/A''" and "s \<noteq> ''''" and "parse_float s = Some Infinite"
  shows "report_main argv show_path True read = (report_header, Raised_error (OtherException ''OverflowError''))"
  using assms
  by (simp add: report_main_def phases_def phase_line_def phase_values_def format_number_def)

lemma infinite_cell_ends_report_witness:
  "report_main [''report'', ''results''] id True
     (\<lambda>f. if f = ''warmup_stats.csv''
          then Some [[(''Name'', Some ''Aggregated''), (''Request Count'', Some ''inf'')]] else None) =
   (report_header, Raised_error (OtherException ''OverflowError''))"
proof -
  have inf: "parse_float ''inf'' = Some Infinite" by code_simp
  show ?thesis
    by (rule infinite_cell_ends_report [where row = "[(''Name'', Some ''Aggregated''), (''Request Count'', Some ''inf'')]"
          and s = "''inf''"])
      (simp_all add: parse_stats_csv_def row_get_def phase_values_def inf)
qed

end
