(* ===== verification/Inference_Executor.thy ===== *)
theory Inference_Executor
  imports Main
begin

text \<open>
  The thread pool that \<^verbatim>\<open>main.py\<close> creates for inference, and what uses it: workers and the batch
  scheduler (\<^verbatim>\<open>run_in_executor\<close>), the speculative route, and streams, whose producer
  (\<^verbatim>\<open>_produce_tokens\<close> in \<^verbatim>\<open>api/router.py\<close>) runs in the pool while the model runs in a thread that
  \<^verbatim>\<open>generate_stream\<close> (\<^verbatim>\<open>core/streaming.py\<close>) starts on its own.  A task is its number in the order of
  submission.  The pool is the standard library's: a queue served in order by at most
  \<^verbatim>\<open>max_workers\<close> threads.
\<close>

section \<open>State and operations\<close>

datatype task_kind = Direct | Batch_forward | Speculative | Stream

record exec =
  ex_max :: int
  ex_kinds :: "task_kind list"
  ex_waiting :: "nat list"
  ex_running :: "nat list"
  ex_threads :: "nat list"  \<comment> \<open>the streams whose generation thread is alive\<close>

definition exec_init :: "int \<Rightarrow> exec" where
  "exec_init n = \<lparr>ex_max = n, ex_kinds = [], ex_waiting = [], ex_running = [], ex_threads = []\<rparr>"

definition exec_submit :: "task_kind \<Rightarrow> exec \<Rightarrow> exec" where
  "exec_submit k s =
     s\<lparr>ex_kinds := ex_kinds s @ [k], ex_waiting := ex_waiting s @ [length (ex_kinds s)]\<rparr>"

text \<open>A free thread takes the next task; a stream starts its generation thread.\<close>

definition exec_start :: "exec \<Rightarrow> exec option" where
  "exec_start s =
     (case ex_waiting s of
        [] \<Rightarrow> None
      | i # q \<Rightarrow>
          (if int (length (ex_running s)) < ex_max s
           then Some (s\<lparr>ex_waiting := q, ex_running := ex_running s @ [i],
                        ex_threads := (if ex_kinds s ! i = Stream then ex_threads s @ [i] else ex_threads s)\<rparr>)
           else None))"

text \<open>A model call in the pool returns or raises.\<close>

definition task_ends :: "nat \<Rightarrow> exec \<Rightarrow> exec option" where
  "task_ends i s =
     (if i \<in> set (ex_running s) \<and> ex_kinds s ! i \<noteq> Stream
      then Some (s\<lparr>ex_running := removeAll i (ex_running s)\<rparr>) else None)"

text \<open>\<^verbatim>\<open>_generate_in_thread\<close> ends, with or without an exception.\<close>

definition thread_ends :: "nat \<Rightarrow> exec \<Rightarrow> exec option" where
  "thread_ends i s =
     (if i \<in> set (ex_threads s) then Some (s\<lparr>ex_threads := removeAll i (ex_threads s)\<rparr>) else None)"

text \<open>The producer ends after its thread.\<close>

definition producer_ends :: "nat \<Rightarrow> exec \<Rightarrow> exec option" where
  "producer_ends i s =
     (if i \<in> set (ex_running s) \<and> ex_kinds s ! i = Stream \<and> i \<notin> set (ex_threads s)
      then Some (s\<lparr>ex_running := removeAll i (ex_running s)\<rparr>) else None)"

text \<open>
  The streamer waited longer than \<^verbatim>\<open>generation_timeout_s\<close> for a token, or \<^verbatim>\<open>join\<close> longer than its 5
  seconds: the producer ends and the thread, which nothing stops, goes on.
\<close>

definition producer_leaves :: "nat \<Rightarrow> exec \<Rightarrow> exec option" where
  "producer_leaves i s =
     (if i \<in> set (ex_running s) \<and> i \<in> set (ex_threads s)
      then Some (s\<lparr>ex_running := removeAll i (ex_running s)\<rparr>) else None)"

text \<open>
  Cancelling a task that waits for \<^verbatim>\<open>run_in_executor\<close> withdraws its call if it has not started;
  a stream is submitted without keeping its future, so nothing withdraws it.
\<close>

definition withdraw :: "nat \<Rightarrow> exec \<Rightarrow> exec option" where
  "withdraw i s =
     (if i \<in> set (ex_waiting s) \<and> ex_kinds s ! i \<noteq> Stream
      then Some (s\<lparr>ex_waiting := removeAll i (ex_waiting s)\<rparr>) else None)"

datatype exec_event =
    Submit_task task_kind
  | Start_task
  | Task_ends nat
  | Thread_ends nat
  | Producer_ends nat
  | Producer_leaves nat
  | Withdraw nat

fun exec_step :: "exec_event \<Rightarrow> exec \<Rightarrow> exec option" where
  "exec_step (Submit_task k) s = Some (exec_submit k s)"
| "exec_step Start_task s = exec_start s"
| "exec_step (Task_ends i) s = task_ends i s"
| "exec_step (Thread_ends i) s = thread_ends i s"
| "exec_step (Producer_ends i) s = producer_ends i s"
| "exec_step (Producer_leaves i) s = producer_leaves i s"
| "exec_step (Withdraw i) s = withdraw i s"

fun exec_run :: "exec_event list \<Rightarrow> exec \<Rightarrow> exec option" where
  "exec_run [] s = Some s"
| "exec_run (e # es) s = (case exec_step e s of None \<Rightarrow> None | Some s' \<Rightarrow> exec_run es s')"

text \<open>How many calls of the model are going on.\<close>

definition model_calls :: "exec \<Rightarrow> nat" where
  "model_calls s = length (filter (\<lambda>i. ex_kinds s ! i \<noteq> Stream) (ex_running s)) + length (ex_threads s)"

definition leaves :: "exec_event \<Rightarrow> bool" where
  "leaves e \<longleftrightarrow> (case e of Producer_leaves i \<Rightarrow> True | _ \<Rightarrow> False)"

section \<open>The invariant\<close>

definition orphans :: "exec \<Rightarrow> nat list" where
  "orphans s = filter (\<lambda>i. i \<notin> set (ex_running s)) (ex_threads s)"

text \<open>
  Numbers grow along the running tasks and the queue; only streams have threads; \<open>k\<close> producers
  left their threads behind.
\<close>

definition exec_inv :: "int \<Rightarrow> nat \<Rightarrow> exec \<Rightarrow> bool" where
  "exec_inv n k s \<longleftrightarrow>
     ex_max s = n \<and> length (ex_running s) \<le> nat n \<and>
     sorted_wrt (<) (ex_running s @ ex_waiting s) \<and>
     (\<forall>i\<in>set (ex_running s @ ex_waiting s @ ex_threads s). i < length (ex_kinds s)) \<and>
     distinct (ex_threads s) \<and> (\<forall>i\<in>set (ex_threads s). ex_kinds s ! i = Stream \<and> i \<notin> set (ex_waiting s)) \<and>
     length (orphans s) \<le> k"

lemma sorted_removeAll: "sorted_wrt (<) (xs @ ys) \<Longrightarrow> sorted_wrt (<) (removeAll i xs @ ys) \<and>
    sorted_wrt (<) (xs @ removeAll i ys)" for xs :: "nat list"
  by (auto simp: sorted_wrt_append removeAll_filter_not_eq sorted_wrt_filter)

lemma length_removeAll_bound: "length xs \<le> n \<Longrightarrow> length (removeAll i xs) \<le> n"
  by (rule order_trans [OF length_removeAll_less_eq])

lemma model_calls_bound:
  assumes "exec_inv n k s"
  shows "model_calls s \<le> nat n + k"
proof -
  have d: "distinct (ex_running s)"
    using assms by (auto simp: exec_inv_def sorted_wrt_append strict_sorted_iff)
  let ?in = "filter (\<lambda>i. i \<in> set (ex_running s)) (ex_threads s)"
  have "set ?in \<subseteq> set (filter (\<lambda>i. ex_kinds s ! i = Stream) (ex_running s))"
    using assms by (auto simp: exec_inv_def)
  moreover have "distinct ?in" using assms by (simp add: exec_inv_def)
  ultimately have "length ?in \<le> length (filter (\<lambda>i. ex_kinds s ! i = Stream) (ex_running s))"
    using d by (metis card_mono distinct_card distinct_filter finite_set)
  moreover have "length (ex_threads s) = length ?in + length (orphans s)"
    by (simp add: orphans_def sum_length_filter_compl)
  moreover have "length (filter (\<lambda>i. ex_kinds s ! i = Stream) (ex_running s)) +
      length (filter (\<lambda>i. ex_kinds s ! i \<noteq> Stream) (ex_running s)) = length (ex_running s)"
    by (rule sum_length_filter_compl)
  ultimately show ?thesis using assms by (simp add: model_calls_def exec_inv_def)
qed

text \<open>A producer that ends leaves at most its own thread behind.\<close>

lemma orphans_after:
  assumes "distinct (ex_threads s)"
  shows "length (orphans (s\<lparr>ex_running := removeAll i (ex_running s)\<rparr>)) \<le>
    length (orphans s) + (if i \<in> set (ex_threads s) then 1 else 0)"
proof -
  have "set (orphans (s\<lparr>ex_running := removeAll i (ex_running s)\<rparr>)) \<subseteq>
      set (orphans s) \<union> (if i \<in> set (ex_threads s) then {i} else {})"
    by (auto simp: orphans_def)
  moreover have d: "distinct (orphans t)" if "distinct (ex_threads t)" for t using that by (simp add: orphans_def)
  ultimately have "card (set (orphans (s\<lparr>ex_running := removeAll i (ex_running s)\<rparr>))) \<le>
      card (set (orphans s) \<union> (if i \<in> set (ex_threads s) then {i} else {}))"
    by (intro card_mono) auto
  also have "\<dots> \<le> card (set (orphans s)) + (if i \<in> set (ex_threads s) then 1 else 0)"
    by (rule order_trans [OF card_Un_le]) simp
  finally show ?thesis
    using d [of s] d [of "s\<lparr>ex_running := removeAll i (ex_running s)\<rparr>"] assms by (simp add: distinct_card)
qed

lemma inv_running_removed:
  assumes "exec_inv n k s"
  shows "exec_inv n (k + (if i \<in> set (ex_threads s) then 1 else 0)) (s\<lparr>ex_running := removeAll i (ex_running s)\<rparr>)"
proof -
  have "distinct (ex_threads s)" "length (orphans s) \<le> k" using assms by (simp_all add: exec_inv_def)
  then have "length (orphans (s\<lparr>ex_running := removeAll i (ex_running s)\<rparr>)) \<le>
      k + (if i \<in> set (ex_threads s) then 1 else 0)"
    using orphans_after [of s i] by linarith
  moreover have "length (removeAll i (ex_running s)) \<le> nat n"
    using assms by (simp add: exec_inv_def length_removeAll_bound)
  ultimately show ?thesis using assms sorted_removeAll by (auto simp: exec_inv_def)
qed

lemma inv_submit: "exec_inv n k s \<Longrightarrow> exec_inv n k (exec_submit x s)"
  by (auto simp: exec_inv_def exec_submit_def orphans_def nth_append sorted_wrt_append less_SucI)

lemma inv_start:
  assumes "exec_start s = Some s'" and inv: "exec_inv n k s"
  shows "exec_inv n k s'"
proof -
  obtain i q where q: "ex_waiting s = i # q" "int (length (ex_running s)) < ex_max s"
    and s': "s' = s\<lparr>ex_waiting := q, ex_running := ex_running s @ [i],
      ex_threads := (if ex_kinds s ! i = Stream then ex_threads s @ [i] else ex_threads s)\<rparr>"
    using assms(1) by (auto simp: exec_start_def split: list.splits if_splits)
  have new: "i \<notin> set (ex_threads s)" using inv q(1) by (auto simp: exec_inv_def)
  have "i \<notin> set q" using inv q(1) by (auto simp: exec_inv_def sorted_wrt_append)
  moreover have "orphans s' = orphans s"
    using new by (auto simp: orphans_def s' intro!: filter_cong)
  moreover have "length (ex_running s @ [i]) \<le> nat n" using inv q(2) by (simp add: exec_inv_def)
  ultimately show ?thesis using inv q(1) new by (auto simp: exec_inv_def s')
qed

lemma inv_thread_ends:
  "exec_inv n k s \<Longrightarrow> exec_inv n k (s\<lparr>ex_threads := removeAll i (ex_threads s)\<rparr>)"
proof -
  assume inv: "exec_inv n k s"
  have "orphans (s\<lparr>ex_threads := removeAll i (ex_threads s)\<rparr>) = removeAll i (orphans s)"
    by (auto simp: orphans_def removeAll_filter_not_eq intro: filter_cong)
  then show ?thesis
    using inv by (auto simp: exec_inv_def distinct_removeAll length_removeAll_bound)
qed

lemma inv_withdraw:
  "exec_inv n k s \<Longrightarrow> exec_inv n k (s\<lparr>ex_waiting := removeAll i (ex_waiting s)\<rparr>)"
  using sorted_removeAll [of "ex_running s" "ex_waiting s" i] by (auto simp: exec_inv_def orphans_def)

lemma exec_step_inv:
  assumes "exec_step e s = Some s'" and inv: "exec_inv n k s"
  shows "exec_inv n (k + (if leaves e then 1 else 0)) s'"
proof (cases e)
  case (Task_ends i)
  moreover have "i \<notin> set (ex_threads s)" if "ex_kinds s ! i \<noteq> Stream" using inv that by (auto simp: exec_inv_def)
  ultimately show ?thesis
    using assms(1) inv_running_removed [OF inv, of i] by (auto simp: task_ends_def leaves_def split: if_splits)
next
  case (Producer_ends i)
  then show ?thesis
    using assms(1) inv_running_removed [OF inv, of i] by (auto simp: producer_ends_def leaves_def split: if_splits)
next
  case (Producer_leaves i)
  then show ?thesis
    using assms(1) inv_running_removed [OF inv, of i] by (auto simp: producer_leaves_def leaves_def split: if_splits)
qed (use assms(1) inv inv_submit inv_start inv_thread_ends inv_withdraw in
    \<open>auto simp: thread_ends_def withdraw_def leaves_def split: if_splits\<close>)

lemma exec_run_inv:
  "exec_run es s = Some s' \<Longrightarrow> exec_inv n k s \<Longrightarrow> exec_inv n (k + length (filter leaves es)) s'"
proof (induction es arbitrary: s k)
  case (Cons e es)
  then obtain t where t: "exec_step e s = Some t" "exec_run es t = Some s'" by (auto split: option.splits)
  from Cons.IH [OF t(2) exec_step_inv [OF t(1) Cons.prems(2)]] show ?case by (auto split: if_splits)
qed simp

lemma exec_init_inv: "exec_inv n 0 (exec_init n)"
  by (simp add: exec_inv_def exec_init_def orphans_def)

section \<open>Properties\<close>

text \<open>C26: The pool bounds the concurrent model calls only as long as no stream times out: after any
  run at most \<^verbatim>\<open>max_concurrent_requests\<close> tasks are in the pool, tasks start in the order of their
  submission, and the calls of the model that are going on exceed the limit by at most the
  number of producers that gave up on their generation thread.\<close>

theorem inference_concurrency_bound:
  assumes "exec_run es (exec_init n) = Some s"
  shows "length (ex_running s) \<le> nat n \<and> sorted_wrt (<) (ex_running s @ ex_waiting s) \<and>
    model_calls s \<le> nat n + length (filter leaves es)"
  using exec_run_inv [OF assms exec_init_inv] model_calls_bound [of n _ s] by (simp add: exec_inv_def)

lemma inference_concurrency_bound_witness:
  "\<exists>s. exec_run [Submit_task Direct, Submit_task Stream, Start_task] (exec_init 1) = Some s \<and>
     ex_running s = [0] \<and> ex_waiting s = [1] \<and> model_calls s \<le> 1"
proof -
  obtain s where s: "exec_run [Submit_task Direct, Submit_task Stream, Start_task] (exec_init 1) = Some s"
    "ex_running s = [0]" "ex_waiting s = [1]"
    by (simp add: exec_init_def exec_submit_def exec_start_def)
  from inference_concurrency_bound [OF s(1)] s show ?thesis by (simp add: leaves_def)
qed

definition abandon_stream :: "nat \<Rightarrow> exec_event list" where
  "abandon_stream i = [Submit_task Stream, Start_task, Producer_leaves i]"

lemma exec_run_append: "exec_run (es @ fs) s = (case exec_run es s of None \<Rightarrow> None | Some t \<Rightarrow> exec_run fs t)"
  by (induction es arbitrary: s) (simp_all split: option.split)

lemma nth_last_replicate: "(x # replicate k x) ! k = x"
  by (metis lessI nth_replicate replicate_Suc)

lemma abandoned_run:
  assumes "1 \<le> n"
  shows "exec_run (concat (map abandon_stream [0..<k])) (exec_init n) =
    Some \<lparr>ex_max = n, ex_kinds = replicate k Stream, ex_waiting = [], ex_running = [], ex_threads = [0..<k]\<rparr>"
proof (induction k)
  case (Suc k)
  then show ?case
    using assms by (simp add: exec_run_append abandon_stream_def exec_submit_def exec_start_def producer_leaves_def
        nth_append replicate_append_same nth_last_replicate)
qed (simp add: exec_init_def)

text \<open>Nobody takes a stream back: once submitted it waits or runs until its producer ends or gives
  up, also when the client has disconnected or timed out long before it starts.\<close>

theorem streams_are_never_withdrawn:
  assumes "exec_step e s = Some s'" and "i \<in> set (ex_waiting s)" and "ex_kinds s ! i = Stream"
  shows "i \<in> set (ex_waiting s') \<or> i \<in> set (ex_running s')"
  using assms
  by (cases e) (auto simp: exec_submit_def exec_start_def task_ends_def thread_ends_def producer_ends_def
      producer_leaves_def withdraw_def split: list.splits if_splits)

lemma streams_are_never_withdrawn_witness:
  "0 \<in> set (ex_waiting (exec_submit Direct (exec_submit Stream (exec_init 1)))) \<or>
   0 \<in> set (ex_running (exec_submit Direct (exec_submit Stream (exec_init 1))))"
  by (rule streams_are_never_withdrawn [of "Submit_task Direct" "exec_submit Stream (exec_init 1)"])
    (simp_all add: exec_submit_def exec_init_def)

text \<open>C28: Abandoned generations exceed the limit: whatever limit \<open>n\<close> the pool has, \<open>k\<close> streams whose
  producers give up leave \<open>k\<close> generation threads running, and the pool, which counts none of
  them, goes on to start \<open>n\<close> more model calls: the bound of the concurrency theorem is attained.\<close>

theorem abandoned_generations_exceed_limit:
  assumes "1 \<le> n"
  shows "\<exists>es s. exec_run es (exec_init n) = Some s \<and> length (filter leaves es) = k \<and>
    model_calls s = nat n + k"
proof -
  let ?es = "concat (map abandon_stream [0..<k])"
  have "length (filter leaves ?es) = k"
    by (induction k) (simp_all add: abandon_stream_def leaves_def)
  have direct: "exec_run (concat (replicate m [Submit_task Direct, Start_task]))
      \<lparr>ex_max = n, ex_kinds = replicate k Stream, ex_waiting = [], ex_running = [], ex_threads = [0..<k]\<rparr> =
      Some \<lparr>ex_max = n, ex_kinds = replicate k Stream @ replicate m Direct, ex_waiting = [],
        ex_running = [k..<k + m], ex_threads = [0..<k]\<rparr>" if "m \<le> nat n" for m
    using that
  proof (induction m)
    case (Suc m)
    have "int m < n" using Suc.prems by linarith
    then show ?case
      using Suc by (simp add: replicate_append_same [symmetric] exec_run_append exec_submit_def exec_start_def
          nth_append)
  qed simp
  let ?fs = "concat (replicate (nat n) [Submit_task Direct, Start_task])"
  let ?s = "\<lparr>ex_max = n, ex_kinds = replicate k Stream @ replicate (nat n) Direct, ex_waiting = [],
      ex_running = [k..<k + nat n], ex_threads = [0..<k]\<rparr>"
  have "exec_run (?es @ ?fs) (exec_init n) = Some ?s"
    using abandoned_run [OF assms] direct [of "nat n"] by (simp add: exec_run_append)
  moreover have "filter leaves ?fs = []"
    by (auto simp: filter_empty_conv leaves_def)
  moreover have "filter (\<lambda>i. (replicate k Stream @ replicate (nat n) Direct) ! i \<noteq> Stream) [k..<k + nat n] =
      [k..<k + nat n]"
    by (auto simp: filter_id_conv nth_append less_diff_conv2)
  then have "model_calls ?s = nat n + k" by (simp add: model_calls_def)
  ultimately show ?thesis
    using \<open>length (filter leaves ?es) = k\<close> by (intro exI [of _ "?es @ ?fs"] exI [of _ ?s]) simp
qed

lemma abandoned_generations_exceed_limit_witness:
  "\<exists>es s. exec_run es (exec_init 1) = Some s \<and> length (filter leaves es) = 3 \<and> model_calls s = 4"
  using abandoned_generations_exceed_limit [of 1 3] by simp

end
