(* ===== verification/Rate_Limit_Guarantees.thy ===== *)
theory Rate_Limit_Guarantees
  imports Api
begin

text \<open>
  What the token bucket guarantees in the script's own arithmetic: an upper bound on what a
  window of calls admits, and that a client which waits as the \<^verbatim>\<open>Retry-After\<close> header says is
  admitted.  The error of an operation is added to its exact value (\<open>fl64_error\<close>, \<open>stored_error\<close>);
  the largest one is that of the stored time, of which \<^verbatim>\<open>tostring\<close> keeps 14 digits, a tenth of a
  millisecond at today's dates.
\<close>

section \<open>The balance of one call\<close>

text \<open>The refill that a span of time gives; the span is negative when the clock went back.\<close>

lemma lua_refill_lower:
  assumes "0 \<le> x" and "0 \<le> r"
  shows "x * r * (1 - 2 / 2 ^ 53) \<le> fl64 (fl64 x * r)"
proof -
  have "x * r * (1 - 2 / 2 ^ 53) \<le> x * r * ((1 - 1 / 2 ^ 53) * (1 - 1 / 2 ^ 53))"
    using assms by (intro mult_left_mono) auto
  also have "\<dots> = x * (1 - 1 / 2 ^ 53) * r * (1 - 1 / 2 ^ 53)" by simp
  also have "\<dots> \<le> fl64 x * r * (1 - 1 / 2 ^ 53)"
    using assms by (intro mult_right_mono fl64_lower) auto
  also have "\<dots> \<le> fl64 (fl64 x * r)"
    using assms by (intro fl64_lower) (simp add: f64.nonneg)
  finally show ?thesis .
qed

lemma lua_refill_error:
  assumes "0 \<le> r"
  shows "\<bar>fl64 (fl64 x * r) - x * r\<bar> \<le> \<bar>x * r\<bar> * (3 / 2 ^ 53)"
proof -
  let ?u = "1 / 2 ^ 53 :: rat"
  have "\<bar>fl64 x * r - x * r\<bar> = \<bar>fl64 x - x\<bar> * r"
    using assms by (simp add: abs_mult flip: left_diff_distrib)
  also have "\<dots> \<le> \<bar>x\<bar> * ?u * r" using fl64_error [of x] assms by (intro mult_right_mono) auto
  also have "\<dots> = \<bar>x * r\<bar> * ?u" using assms by (simp add: abs_mult)
  finally have 1: "\<bar>fl64 x * r - x * r\<bar> \<le> \<bar>x * r\<bar> * ?u" .
  then have "\<bar>fl64 x * r\<bar> \<le> \<bar>x * r\<bar> + \<bar>x * r\<bar> * ?u" by linarith
  then have "\<bar>fl64 x * r\<bar> * ?u \<le> \<bar>x * r\<bar> * (2 * ?u)" by simp
  then have 2: "\<bar>fl64 (fl64 x * r) - fl64 x * r\<bar> \<le> \<bar>x * r\<bar> * (2 * ?u)"
    using fl64_error [of "fl64 x * r"] by simp
  have "\<bar>fl64 (fl64 x * r) - x * r\<bar> \<le> \<bar>fl64 (fl64 x * r) - fl64 x * r\<bar> + \<bar>fl64 x * r - x * r\<bar>"
    by linarith
  also have "\<dots> \<le> \<bar>x * r\<bar> * (2 * ?u) + \<bar>x * r\<bar> * ?u" by (rule add_mono [OF 2 1])
  finally have "\<bar>fl64 (fl64 x * r) - x * r\<bar> \<le> \<bar>x * r\<bar> * (2 * ?u) + \<bar>x * r\<bar> * ?u" .
  then show ?thesis by simp
qed

lemma lua_refilled_upper:
  assumes r: "0 \<le> r" and c: "\<bar>tk\<bar> \<le> c" "n \<le> c" "- c \<le> x * r"
    and b: "tokens b \<le> tk" and x: "now - last_refill b \<le> x"
  shows "refilled fl64 n r now (Some b) \<le> tk + x * r + c * 12 / 2 ^ 53"
proof (cases "tk + x * r \<le> n")
  case False
  moreover have "refilled fl64 n r now (Some b) \<le> n" by (rule refilled_le)
  moreover have "0 \<le> c * 12 / 2 ^ 53" using c(1) by simp
  ultimately show ?thesis by linarith
next
  case True
  let ?f = "fl64 (fl64 (now - last_refill b) * r)" and ?g = "fl64 (fl64 x * r)"
  have "\<bar>x * r\<bar> \<le> 2 * c" using True c by (simp add: abs_le_iff)
  then have "\<bar>x * r\<bar> * (3 / 2 ^ 53) \<le> 2 * c * (3 / 2 ^ 53)" by (intro mult_right_mono) auto
  with lua_refill_error [OF r, of x] have "\<bar>?g - x * r\<bar> \<le> c * 6 / 2 ^ 53" by simp
  then have g: "?g \<le> x * r + c * 6 / 2 ^ 53" "x * r - c * 6 / 2 ^ 53 \<le> ?g" by linarith+
  have "0 \<le> c" "tk \<le> c" "- c \<le> tk" using c(1) by linarith+
  then have "\<bar>tk + ?g\<bar> \<le> 4 * c" using g c(2,3) True by (simp add: abs_le_iff)
  then have "fl64 (tk + ?g) - (tk + ?g) \<le> 4 * c / 2 ^ 53"
    using order_trans [OF abs_ge_self fl64_error [of "tk + ?g"]] by simp
  then have h: "fl64 (tk + ?g) \<le> tk + ?g + 4 * c / 2 ^ 53" by simp
  have "?f \<le> ?g" using x r by (intro f64.mono mult_right_mono) auto
  then have "fl64 (tokens b + ?f) \<le> fl64 (tk + ?g)" using b by (rule f64.mono [OF add_mono, rotated])
  also have "\<dots> \<le> tk + x * r + c * 12 / 2 ^ 53" using g(1) h \<open>0 \<le> c\<close> by simp
  finally show ?thesis by (simp add: refilled_def min_le_iff_disj)
qed

text \<open>
  What one call lets through and leaves, against the balance it found; \<open>s\<close> is what will flow in
  until the latest time seen.
\<close>

lemma lua_call_balance:
  fixes n r now :: rat and d :: "bucket option"
  assumes n: "0 \<le> n" "2 * n \<le> c" and s: "0 \<le> s" "s \<le> c"
  defines "tk \<equiv> refilled fl64 n r now d" and "b \<equiv> stored (lua_script n r now d)"
  shows "(if 1 \<le> tk then 1 else 0) + max 0 (tokens b + s) \<le> max 0 (tk + s) + c * 2 / 10 ^ 13"
    and "tokens b \<le> 2 * n"
proof -
  have tk: "tk \<le> n" unfolding tk_def by (rule refilled_le)
  have b: "tokens b = fl64 (fmt14 (if 1 \<le> tk then fl64 (tk - 1) else tk))"
    by (simp add: tk_def b_def Let_def)
  have "((if 1 \<le> tk then 1 else 0) + max 0 (tokens b + s) \<le> max 0 (tk + s) + c * 2 / 10 ^ 13) \<and> tokens b \<le> 2 * n"
  proof (cases "1 \<le> tk")
    case True
    then have "0 \<le> tk - 1" by simp
    note le = fl64_upper [OF this] f64.nonneg [OF this]
    have "tokens b \<le> fl64 (tk - 1) * (1 + 1 / 10 ^ 13)" using stored_upper [OF le(2)] True by (simp add: b)
    also have "\<dots> \<le> (tk - 1) * (1 + 1 / 2 ^ 53) * (1 + 1 / 10 ^ 13)"
      using le by (intro mult_right_mono) auto
    also have "\<dots> = (tk - 1) + (tk - 1) * ((1 + 1 / 2 ^ 53) * (1 + 1 / 10 ^ 13) - 1)"
      unfolding right_diff_distrib mult.assoc by simp
    also have "\<dots> \<le> (tk - 1) + n * (2 / 10 ^ 13)"
      using True n tk by (intro add_left_mono mult_mono) auto
    finally have up: "tokens b \<le> tk - 1 + n * (2 / 10 ^ 13)" .
    moreover have "0 \<le> tokens b" using stored_nonneg [OF le(2)] True by (simp add: b)
    ultimately show ?thesis using True n s tk by (simp add: max_def)
  next
    case False
    have "tokens b - tk \<le> \<bar>tk\<bar> / 10 ^ 13"
      using order_trans [OF abs_ge_self stored_error [of tk]] False by (simp add: b)
    then have err: "tokens b \<le> tk + \<bar>tk\<bar> / 10 ^ 13" by simp
    have "tokens b \<le> 2 * n"
    proof (cases "0 \<le> tk")
      case True
      then show ?thesis using err tk n by simp
    next
      case neg: False
      then have "tokens b \<le> 0" using False by (simp add: b f64.nonpos g14.nonpos)
      then show ?thesis using n by simp
    qed
    moreover have "max 0 (tokens b + s) \<le> max 0 (tk + s) + c * 2 / 10 ^ 13"
    proof (cases "- c \<le> tk")
      case True
      then have "\<bar>tk\<bar> \<le> c" using tk n by (simp add: abs_le_iff)
      then have "tokens b + s \<le> tk + s + c * 2 / 10 ^ 13" using err n by simp
      moreover have "0 \<le> c" using n by simp
      ultimately show ?thesis by (simp add: max_def)
    next
      case low: False
      then have "tokens b \<le> tk * (1 - 1 / 10 ^ 13)" using err n by (simp add: right_diff_distrib)
      also have "\<dots> \<le> - c * (1 - 1 / 10 ^ 13)" using low by (intro mult_right_mono) auto
      finally have "tokens b + s \<le> c * 2 / 10 ^ 13" using s n by simp
      moreover have "0 \<le> c * 2 / 10 ^ 13" using n by simp
      ultimately show ?thesis by (simp add: max_def)
    qed
    ultimately show ?thesis using False by simp
  qed
  then show "(if 1 \<le> tk then 1 else 0) + max 0 (tokens b + s) \<le> max 0 (tk + s) + c * 2 / 10 ^ 13"
    and "tokens b \<le> 2 * n" by blast+
qed

section \<open>A window of calls\<close>

text \<open>
  The slack of one call: what the stored time and the stored balance can lose.  \<open>T\<close> is the latest
  time, and no clock reading is more than \<open>W\<close> behind an earlier one.
\<close>

definition call_slack :: "rat \<Rightarrow> rat \<Rightarrow> rat \<Rightarrow> rat \<Rightarrow> rat" where
  "call_slack n r W T = (r * T + 3 * (2 * n + r * W)) / 10 ^ 13"

text \<open>The balance at the time \<open>M\<close>, the latest so far; the last call was at \<open>p\<close>.\<close>

definition balance_at :: "rat \<Rightarrow> rat \<Rightarrow> rat \<Rightarrow> bucket \<Rightarrow> rat" where
  "balance_at r M p b = max 0 (tokens b + r * (M - p))"

lemma lua_call_window:
  fixes n r t :: rat and b :: bucket
  assumes n: "0 \<le> n" and r: "0 \<le> r" and W: "0 \<le> W"
    and p: "0 \<le> p" "p \<le> M" "M \<le> p + W" "M \<le> T" and t: "M \<le> t + W"
    and b: "last_refill b = fl64 (fmt14 p)" "tokens b \<le> 2 * n"
  defines "M' \<equiv> max M t" and "b' \<equiv> stored (lua_script n r t (Some b))"
  shows "(if 1 \<le> refilled fl64 n r t (Some b) then 1 else 0) + balance_at r M' t b' \<le>
    balance_at r M p b + r * (M' - M) + call_slack n r W T" and "tokens b' \<le> 2 * n"
proof -
  let ?c = "2 * n + r * W" and ?tk = "refilled fl64 n r t (Some b)"
  let ?f = "balance_at r M p b" and ?x = "t - p + p / 10 ^ 13"
  have rW: "0 \<le> r * W" using r W by simp
  have "\<bar>last_refill b - p\<bar> \<le> p / 10 ^ 13" using stored_error [of p] p(1) by (simp add: b)
  then have x: "t - last_refill b \<le> ?x" by linarith
  have behind: "r * (M - p) \<le> r * W" "0 \<le> r * (M - p)" using p r by (auto intro: mult_left_mono)
  have f: "0 \<le> ?f" "?f \<le> ?c" "tokens b \<le> ?f - r * (M - p)"
    using behind b(2) n rW by (auto simp: balance_at_def max_def)
  have "- W \<le> t - p" using p(2) t by simp
  then have "r * (- W) \<le> r * (t - p)" using r by (rule mult_left_mono)
  moreover have "0 \<le> p / 10 ^ 13 * r" using p r by simp
  moreover have "?x * r = r * (t - p) + p / 10 ^ 13 * r" by (simp only: distrib_right mult.commute [of r])
  ultimately have low: "- ?c \<le> ?x * r" using n by simp
  have "?tk \<le> ?f - r * (M - p) + ?x * r + ?c * 12 / 2 ^ 53"
    by (rule lua_refilled_upper [OF r _ _ low f(3) x]) (use f behind n rW in \<open>auto simp: abs_le_iff\<close>)
  moreover have "r * p / 10 ^ 13 \<le> r * T / 10 ^ 13" using p r by (intro divide_right_mono mult_left_mono) auto
  moreover have eps: "x * 12 / 2 ^ 53 \<le> x / 10 ^ 13" if "0 \<le> x" for x :: rat using that by simp
  have "?c * 12 / 2 ^ 53 \<le> ?c / 10 ^ 13" by (rule eps) (use n rW in simp)
  ultimately have tk: "?tk + r * (M' - t) \<le> ?f + r * (M' - M) + (r * T + ?c) / 10 ^ 13"
    by (simp add: algebra_simps add_divide_distrib)
  have room: "0 \<le> r * (M' - M)" "0 \<le> r * (M' - t)" using r by (auto simp: M'_def)
  moreover note room
  moreover have "0 \<le> r * T" using p r by simp
  ultimately have "max 0 (?tk + r * (M' - t)) \<le> ?f + r * (M' - M) + (r * T + ?c) / 10 ^ 13"
    using tk f(1) n rW by simp
  moreover have "M' - t \<le> W" using t W by (simp add: M'_def)
  then have "r * (M' - t) \<le> ?c" using mult_left_mono [OF _ r, of "M' - t" W] n by simp
  note call = lua_call_balance [OF n _ room(2) this, of r t "Some b"]
  moreover have "?c * 2 / 10 ^ 13 + (r * T + ?c) / 10 ^ 13 = call_slack n r W T"
    unfolding call_slack_def add_divide_distrib [symmetric] by simp
  ultimately show "(if 1 \<le> ?tk then 1 else 0) + balance_at r M' t b' \<le> ?f + r * (M' - M) + call_slack n r W T"
    using n rW unfolding balance_at_def b'_def by linarith
  show "tokens b' \<le> 2 * n" unfolding b'_def using call(2) rW by simp
qed

lemma lua_run_le:
  assumes n: "0 \<le> n" and r: "0 \<le> r" and W: "0 \<le> W"
    and "sorted_wrt (\<lambda>x y. x \<le> y + W) ts" and "\<forall>t\<in>set ts. M \<le> t + W \<and> 0 \<le> t \<and> t \<le> T"
    and "0 \<le> p" "p \<le> M" "M \<le> p + W" "M \<le> T"
    and "last_refill b = fl64 (fmt14 p)" "tokens b \<le> 2 * n"
  shows "of_nat (fst (lua_run n r ts (Some b))) \<le>
    balance_at r M p b + r * (T - M) + of_nat (length ts) * call_slack n r W T"
  using assms(4-)
proof (induction ts arbitrary: p b M)
  case Nil
  then show ?case using r by (simp add: balance_at_def)
next
  case (Cons t ts)
  let ?M = "max M t" and ?b = "stored (lua_script n r t (Some b))" and ?s = "call_slack n r W T"
  note call = lua_call_window [OF n r W Cons.prems(3-6) _ Cons.prems(7,8), of t]
  have "of_nat (fst (lua_run n r ts (Some ?b))) \<le> balance_at r ?M t ?b + r * (T - ?M) + of_nat (length ts) * ?s"
    using Cons.prems call(2) W by (intro Cons.IH) auto
  moreover have "(if 1 \<le> refilled fl64 n r t (Some b) then 1 else 0) + balance_at r ?M t ?b \<le>
      balance_at r M p b + r * (?M - M) + ?s"
    using call(1) Cons.prems(2) by simp
  ultimately show ?case
    unfolding bucket_run_Cons of_nat_add length_Cons of_nat_Suc
    by (simp del: script_parts add: algebra_simps split: if_splits)
qed

section \<open>The waiting time\<close>

text \<open>The waiting time of a denial, from below and from above.\<close>

lemma lua_wait_bounds:
  assumes r: "0 < r" and tk: "tk \<le> 1"
  defines "w \<equiv> fl64 (fl64 (fl64 (1 - tk) / r) * 1000)"
  shows "(1 - tk) / r * 1000 * (1 - 3 / 2 ^ 53) \<le> w" and "w \<le> (1 - tk) / r * 1000 * 2" and "0 \<le> w"
proof -
  let ?u = "1 / 2 ^ 53 :: rat"
  have x: "0 \<le> 1 - tk" using tk by simp
  have y: "0 \<le> fl64 (1 - tk) / r" using f64.nonneg [OF x] r by simp
  have z: "0 \<le> fl64 (fl64 (1 - tk) / r) * 1000" using f64.nonneg [OF y] by simp
  show "0 \<le> w" unfolding w_def by (rule f64.nonneg [OF z])
  have "(1 - tk) / r * 1000 * (1 - 3 / 2 ^ 53) \<le> (1 - tk) / r * 1000 * ((1 - ?u) * (1 - ?u) * (1 - ?u))"
    using x r by (intro mult_left_mono) auto
  also have "\<dots> = (1 - tk) * (1 - ?u) / r * (1 - ?u) * 1000 * (1 - ?u)" by simp
  also have "\<dots> \<le> fl64 (1 - tk) / r * (1 - ?u) * 1000 * (1 - ?u)"
    using fl64_lower [OF x] r by (intro mult_right_mono divide_right_mono) auto
  also have "\<dots> \<le> fl64 (fl64 (1 - tk) / r) * 1000 * (1 - ?u)"
    using fl64_lower [OF y] by (intro mult_right_mono) auto
  also have "\<dots> \<le> w" unfolding w_def by (rule fl64_lower [OF z])
  finally show "(1 - tk) / r * 1000 * (1 - 3 / 2 ^ 53) \<le> w" .
  have "w \<le> fl64 (fl64 (1 - tk) / r) * 1000 * (1 + ?u)" unfolding w_def by (rule fl64_upper [OF z])
  also have "\<dots> \<le> fl64 (1 - tk) / r * (1 + ?u) * 1000 * (1 + ?u)"
    using fl64_upper [OF y] by (intro mult_right_mono) auto
  also have "\<dots> \<le> (1 - tk) * (1 + ?u) / r * (1 + ?u) * 1000 * (1 + ?u)"
    using fl64_upper [OF x] r by (intro mult_right_mono divide_right_mono) auto
  also have "\<dots> = (1 - tk) / r * 1000 * ((1 + ?u) * (1 + ?u) * (1 + ?u))" by simp
  also have "\<dots> \<le> (1 - tk) / r * 1000 * 2"
    using x r by (intro mult_left_mono) auto
  finally show "w \<le> (1 - tk) / r * 1000 * 2" .
qed

lemma lua_refill_suffices:
  assumes r: "1 / 10 ^ 6 \<le> r" and tk: "- 1000 \<le> tk" "tk \<le> 1"
    and A: "(1 - tk) / r * (1 - 3 / 2 ^ 53) + 1 / 2000 \<le> A"
  shows "1 \<le> fl64 (fl64 (fmt14 tk) + fl64 (fl64 A * r))"
proof -
  let ?A = "(1 - tk) / r * (1 - 3 / 2 ^ 53) + 1 / 2000"
  have r0: "0 < r" using r by (rule less_le_trans [rotated]) simp
  have A0: "0 \<le> ?A" using r0 tk by simp
  have "?A * r = (1 - tk) * (1 - 3 / 2 ^ 53) + r / 2000"
    using r0 by (simp add: distrib_right)
  moreover have "(1 - tk) * (1 - 3 / 2 ^ 53) \<le> 1001" using tk by simp
  moreover have "B + r / 2000 - 1001 * 2 / 2 ^ 53 - r * 2 / 2 ^ 53 \<le> C * (1 - 2 / 2 ^ 53)"
    if "C = B + r / 2000" "B \<le> 1001" for B C :: rat
    using that r0 by simp
  ultimately have "(1 - tk) * (1 - 3 / 2 ^ 53) + r / 2000 - 1001 * 2 / 2 ^ 53 - r * 2 / 2 ^ 53
      \<le> ?A * r * (1 - 2 / 2 ^ 53)"
    by blast
  also have "\<dots> \<le> fl64 (fl64 ?A * r)" using lua_refill_lower [OF A0] r0 by simp
  also have "\<dots> \<le> fl64 (fl64 A * r)" using A r0 by (intro f64.mono mult_right_mono) auto
  finally have 1: "(1 - tk) * (1 - 3 / 2 ^ 53) + r / 2000 - 1001 * 2 / 2 ^ 53 - r * 2 / 2 ^ 53
      \<le> fl64 (fl64 A * r)" .
  have "\<bar>fl64 (fmt14 tk) - tk\<bar> \<le> \<bar>tk\<bar> / 10 ^ 13" by (rule stored_error)
  also have "\<dots> \<le> 1000 / 10 ^ 13" using tk by (intro divide_right_mono) auto
  finally have 2: "tk - 1000 / 10 ^ 13 \<le> fl64 (fmt14 tk)" by linarith
  have "1 \<le> fl64 (fmt14 tk) + fl64 (fl64 A * r)"
  proof -
    have "1 - tk - 3003 / 2 ^ 53 \<le> (1 - tk) * (1 - 3 / 2 ^ 53)" using tk by simp
    with 1 have "1 - tk - 3003 / 2 ^ 53 + r / 2000 - 1001 * 2 / 2 ^ 53 - r * 2 / 2 ^ 53 \<le> fl64 (fl64 A * r)"
      by linarith
    then show ?thesis using 2 r by simp
  qed
  from f64.mono [OF this] show ?thesis by simp
qed

text \<open>
  A later call on the bucket that a denial left, or on none, when it has expired: after one
  whole number of seconds more than the waiting time the balance reaches one token.
\<close>

lemma lua_retry:
  assumes r: "1 / 10 ^ 6 \<le> r" and n: "1 \<le> n" and now: "0 \<le> now" "now \<le> 5 * 10 ^ 9"
    and tk: "- 1000 \<le> refilled fl64 n r now d"
    and denied: "\<not> is_allowed (lua_script n r now d)"
    and secs: "of_int (retry_ms (lua_script n r now d)) / 1000 < (of_int secs :: rat)"
    and later: "now + of_int secs \<le> now'"
    and d': "d' = Some (stored (lua_script n r now d)) \<or> d' = None"
  shows "is_allowed (lua_script n r now' d')"
  using d'
proof
  assume "d' = None"
  moreover have "1 \<le> fl64 n" using f64.mono [OF n] by simp
  ultimately show ?thesis using n by (simp add: refilled_def)
next
  let ?tk = "refilled fl64 n r now d"
  let ?b = "stored (lua_script n r now d)"
  assume d': "d' = Some ?b"
  have tk1: "?tk < 1" using denied by simp
  have r0: "0 < r" using r by (rule less_le_trans [rotated]) simp
  have b: "tokens ?b = fl64 (fmt14 ?tk)" "last_refill ?b = fl64 (fmt14 now)"
    using tk1 by (simp_all add: Let_def)
  have ms: "retry_ms (lua_script n r now d) = \<lceil>fl64 (fl64 (fl64 (1 - ?tk) / r) * 1000)\<rceil>"
    using tk1 by (simp add: Let_def)
  have "(1 - ?tk) / r * 1000 * (1 - 3 / 2 ^ 53) \<le> of_int (retry_ms (lua_script n r now d))"
    using lua_wait_bounds(1) [OF r0 less_imp_le [OF tk1]] unfolding ms by (meson le_of_int_ceiling order_trans)
  moreover have "retry_ms (lua_script n r now d) + 1 \<le> 1000 * secs"
  proof -
    have "of_int (retry_ms (lua_script n r now d)) < (of_int (1000 * secs) :: rat)"
      using secs by (simp del: script_parts)
    then show ?thesis by (simp only: of_int_less_iff)
  qed
  then have "of_int (retry_ms (lua_script n r now d)) + 1 \<le> (1000 * of_int secs :: rat)"
    unfolding of_int_le_iff [where 'a = rat, symmetric] by (simp del: script_parts)
  moreover have "fl64 (fmt14 now) \<le> now + 1 / 2000"
    using stored_upper [OF now(1)] now(2) by (simp add: distrib_left)
  moreover have "W * (1 - 3 / 2 ^ 53) + 1 / 2000 \<le> now' - L"
    if "W * 1000 * (1 - 3 / 2 ^ 53) \<le> M" "M + 1 \<le> 1000 * of_int secs" "L \<le> now + 1 / 2000" for W M L :: rat
    using that later by simp
  ultimately have "(1 - ?tk) / r * (1 - 3 / 2 ^ 53) + 1 / 2000 \<le> now' - last_refill ?b"
    unfolding b by blast
  from lua_refill_suffices [OF r tk less_imp_le [OF tk1] this]
  have "1 \<le> refilled fl64 n r now' (Some ?b)"
    using n by (simp add: refilled_def b del: script_parts)
  then show ?thesis by (simp add: d' del: script_parts(2-))
qed

lemma lua_wait_small:
  assumes r: "1 / 10 ^ 6 \<le> r" and tk: "- 1000 \<le> refilled fl64 n r now d"
  shows "0 \<le> retry_ms (lua_script n r now d) \<and> retry_ms (lua_script n r now d) < 2 ^ 53"
proof (cases "1 \<le> refilled fl64 n r now d")
  case True
  then show ?thesis by (simp add: Let_def)
next
  case False
  let ?tk = "refilled fl64 n r now d"
  have r0: "0 < r" using r by (rule less_le_trans [rotated]) simp
  have le: "?tk \<le> 1" using False by simp
  have "(1 - ?tk) / r \<le> 1001 / (1 / 10 ^ 6)"
    using tk le r by (intro frac_le) auto
  moreover have "x * 1000 * 2 \<le> 2002 * 10 ^ 9" if "x \<le> 1001 / (1 / 10 ^ 6)" for x :: rat
    using that by simp
  ultimately have "(1 - ?tk) / r * 1000 * 2 \<le> 2002 * 10 ^ 9" by blast
  with lua_wait_bounds(2) [OF r0 le] have "fl64 (fl64 (fl64 (1 - ?tk) / r) * 1000) \<le> of_int (2002 * 10 ^ 9)"
    by simp
  then have "\<lceil>fl64 (fl64 (fl64 (1 - ?tk) / r) * 1000)\<rceil> \<le> 2002 * 10 ^ 9" by (simp only: ceiling_le_iff)
  moreover have "0 \<le> \<lceil>fl64 (fl64 (fl64 (1 - ?tk) / r) * 1000)\<rceil>"
    using lua_wait_bounds(3) [OF r0 le] by (simp add: le_ceiling_iff)
  ultimately show ?thesis using False by (simp add: Let_def)
qed


text \<open>The call of the middleware with the limiter as part of the state.\<close>

definition limiter_call :: "redis_client \<Rightarrow> (string, 'z) action \<Rightarrow> 'z evalsha \<Rightarrow> float \<Rightarrow> string \<Rightarrow>
    (bool \<times> rate_info, limiter \<times> 'z) action" where
  "limiter_call cl script_load evalsha now api_key = (\<lambda>(rl, z).
     let (res, rl, z) = try_consume cl script_load evalsha now rl api_key z in (res, (rl, z)))"

section \<open>Properties\<close>

text \<open>C21: In the script's own arithmetic, from any state of the bucket and for calls in any order of
  their clock readings, a window of calls admits at most the bucket size plus the refill rate times
  the time from the first reading to the latest one, up to a slack per call that comes from the
  fourteen digits kept of the clock and, far smaller, from rounding; \<open>W\<close> bounds how far
  a reading is behind an earlier one (0 when they are in order).  At today's dates and the default
  settings the slack is below one request in two thousand calls.\<close>

theorem rate_limit_window_bound:
  assumes "0 < r" and "0 \<le> n" and "ts \<noteq> []" and "\<forall>t\<in>set ts. 0 \<le> t"
    and "0 \<le> W" and "sorted_wrt (\<lambda>x y. x \<le> y + W) ts"
  shows "of_nat (fst (bucket_run fl64 fmt14 n r ts d)) \<le>
    n + r * (Max (set ts) - hd ts) +
    of_nat (length ts) * ((r * Max (set ts) + 3 * (2 * n + r * W)) / 10 ^ 13)"
proof -
  obtain t us where ts: "ts = t # us" using assms(3) by (cases ts) auto
  let ?T = "Max (set ts)" and ?b = "stored (lua_script n r t d)" and ?tk = "refilled fl64 n r t d"
  let ?s = "call_slack n r W ?T"
  have T: "\<forall>x\<in>set ts. x \<le> ?T" by simp
  have "0 \<le> ?T" using order_trans [of 0 t ?T] assms(4) T by (simp add: ts)
  then have rW: "0 \<le> r * W" "0 \<le> r * ?T" using assms(1,5) by simp_all
  note call = lua_call_balance [where n = n and c = "2 * n + r * W" and s = 0 and r = r and now = t and d = d]
  have "of_nat (fst (lua_run n r us (Some ?b))) \<le>
      balance_at r t t ?b + r * (?T - t) + of_nat (length us) * ?s"
    using assms T rW call(2) by (intro lua_run_le [OF assms(2) less_imp_le [OF assms(1)] assms(5)]) (simp_all add: ts)
  moreover have "(if 1 \<le> ?tk then 1 else 0) + balance_at r t t ?b \<le> n + ?s"
  proof -
    have "max 0 ?tk \<le> n" using assms(2) refilled_le [of fl64 n r t d] by simp
    moreover have "(2 * n + r * W) * 2 / 10 ^ 13 \<le> ?s"
      unfolding call_slack_def using add_nonneg_nonneg [OF add_nonneg_nonneg [OF rW] assms(2)] assms(2)
      by (intro divide_right_mono) (auto simp: algebra_simps)
    moreover have "balance_at r t t ?b = max 0 (tokens ?b + 0)" "max 0 (?tk + 0) = max 0 ?tk"
      by (simp_all add: balance_at_def del: script_parts)
    moreover have c: "0 \<le> 2 * n + r * W" "2 * n \<le> 2 * n + r * W" using assms(2) rW by simp_all
    note call(1) [OF assms(2) c(2) order.refl c(1)]
    ultimately show ?thesis by linarith
  qed
  ultimately have "of_nat (fst (lua_run n r ts d)) \<le> n + r * (?T - hd ts) + of_nat (length ts) * ?s"
    unfolding ts bucket_run_Cons of_nat_add length_Cons of_nat_Suc
    by (simp del: script_parts add: distrib_right split: if_splits)
  then show ?thesis by (simp only: call_slack_def)
qed

text \<open>Five calls, the last but one with a clock a second behind.\<close>

lemma rate_limit_window_bound_witness:
  "of_nat (fst (bucket_run fl64 fmt14 2 1 [10, 10, 12, 11, 13] None)) \<le>
    (2 + 1 * (13 - 10) + of_nat 5 * ((1 * 13 + 3 * (2 * 2 + 1 * 1)) / 10 ^ 13) :: rat)"
  using rate_limit_window_bound [of 1 2 "[10, 10, 12, 11, 13]" 1 None] by simp

text \<open>C13: A denied client that waits as many seconds as the \<^verbatim>\<open>Retry-After\<close> header says is admitted,
  roundings included: whatever other keys do in the meantime, and whether the bucket of this key
  is still as the denial left it or has expired.  The rate is at least one token in a million
  seconds, the clock below five thousand million seconds, and the balance not below -1000 (it is
  negative only when the clock ran backwards).\<close>

theorem obedient_client_is_admitted:
  assumes store: "script_store script_load evalsha sha loaded bucket_at" and cl: "redis_open cl"
    and st: "script_sha rl = None \<or> script_sha rl = Some sha \<and> loaded z"
    and n: "1 \<le> lim_bucket_size rl" and r: "1 / 10 ^ 6 \<le> lim_refill_rate rl"
    and now: "0 \<le> now" "now \<le> 5 * 10 ^ 9"
    and tk: "- 1000 \<le> refilled fl64 (of_int (lim_bucket_size rl)) (lim_refill_rate rl) now
      (bucket_at z (bucket_key rl (extract_api_key auth)))"
    and denied: "limiter_call cl script_load evalsha now (extract_api_key auth) (rl, z) =
      (Inr (False, info), (rl', z'))"
  shows "\<exists>resp secs. rate_limit_middleware (limiter_call cl script_load evalsha now) auth route (rl, z) =
      (Inr resp, (rl', z')) \<and> status resp = 429 \<and>
    map_of (headers resp) ''Retry-After'' = Some (str_int secs) \<and>
    (\<forall>now' y. now + of_int secs \<le> now' \<and> loaded y \<and>
      (bucket_at y (bucket_key rl (extract_api_key auth)) = bucket_at z' (bucket_key rl (extract_api_key auth)) \<or>
       bucket_at y (bucket_key rl (extract_api_key auth)) = None) \<longrightarrow>
      (\<exists>info' x. limiter_call cl script_load evalsha now' (extract_api_key auth) (rl', y) = (Inr (True, info'), x)))"
proof -
  let ?key = "extract_api_key auth"
  let ?n = "of_int (lim_bucket_size rl) :: rat" and ?r = "lim_refill_rate rl"
  let ?res = "lua_script ?n ?r now (bucket_at z (bucket_key rl ?key))"
  let ?secs = "py_int (fdiv (of_int (retry_ms ?res)) 1000) + 1"
  have r0: "0 < ?r" using r by (rule less_le_trans [rotated]) simp
  have n1: "1 \<le> ?n" using n by simp
  obtain info1 where first: "try_consume cl script_load evalsha now rl ?key z = (Inr (is_allowed ?res, info1), rl', z')"
    "info_retry_after info1 = fdiv (of_int (retry_ms ?res)) 1000"
    "rl' = rl\<lparr>script_sha := Some sha\<rparr>" "loaded z'"
    "bucket_at z' = (bucket_at z)(bucket_key rl ?key := Some (stored ?res))"
    "info = info1" "\<not> is_allowed ?res"
    using script_store.try_consume_answers [OF store cl st n r0, of now ?key] denied
    by (auto simp: limiter_call_def simp del: script_parts)
  have "of_int (retry_ms ?res) / 1000 < (of_int ?secs :: rat)"
    by (rule retry_after_header_covers) (use lua_wait_small [OF r tk] in blast)+
  note retry = lua_retry [OF r n1 now tk first(7) this]
  have admitted: "\<exists>info' x. limiter_call cl script_load evalsha now' ?key (rl', y) = (Inr (True, info'), x)"
    if "now + of_int ?secs \<le> now'" "loaded y"
      "bucket_at y (bucket_key rl ?key) = bucket_at z' (bucket_key rl ?key) \<or>
       bucket_at y (bucket_key rl ?key) = None" for now' y
  proof -
    have key: "bucket_key rl' k = bucket_key rl k" for k by (simp add: first(3) bucket_key_def)
    have "is_allowed (lua_script ?n ?r now' (bucket_at y (bucket_key rl' ?key)))"
      unfolding key by (rule retry [OF that(1)]) (use that(3) in \<open>auto simp: first(5)\<close>)
    then show ?thesis
      using script_store.try_consume_answers [OF store cl, of rl' y now' ?key] that(2) n r0
      by (auto simp: limiter_call_def first(3) simp del: script_parts)
  qed
  show ?thesis
  proof (intro exI conjI)
    show "rate_limit_middleware (limiter_call cl script_load evalsha now) auth route (rl, z) =
      (Inr \<lparr>status = 429, headers = [(''Retry-After'', str_int ?secs), (''X-RateLimit-Remaining'', ''0''),
        (''X-RateLimit-Limit'', str_int (py_int (info_limit info)))],
        content = Error_body ''Rate limit exceeded'' ''rate_limit_error'' 429\<rparr>, (rl', z'))"
      using denied first(2,6) by (simp add: rate_limit_middleware_def bind_def ret_def del: script_parts)
  qed (use admitted in \<open>auto simp del: script_parts\<close>)
qed

lemma obedient_client_is_admitted_witness:
  "\<exists>rl' z' resp secs. rate_limit_middleware
      (limiter_call \<lparr>redis_url = '''', redis_open = True\<rparr> sr_script_load sr_evalsha 10) None (ret (ok Stream_body))
      (limiter_init 10 2 ''rate_limit'',
       \<lparr>sr_loaded = True, sr_buckets = [(''rate_limit:default'', \<lparr>tokens = 0, last_refill = 10\<rparr>)]\<rparr>) =
      (Inr resp, (rl', z')) \<and> status resp = 429 \<and>
    map_of (headers resp) ''Retry-After'' = Some (str_int secs) \<and>
    (\<exists>info x. limiter_call \<lparr>redis_url = '''', redis_open = True\<rparr> sr_script_load sr_evalsha (10 + of_int secs)
      (extract_api_key None) (rl', z') = (Inr (True, info), x))"
proof -
  let ?cl = "\<lparr>redis_url = '''', redis_open = True\<rparr>" and ?rl = "limiter_init 10 2 ''rate_limit''"
  let ?z = "\<lparr>sr_loaded = True, sr_buckets = [(''rate_limit:default'', \<lparr>tokens = 0, last_refill = 10 :: rat\<rparr>)]\<rparr>"
  have key: "bucket_key ?rl (extract_api_key None) = ''rate_limit:default''"
    by (simp add: bucket_key_def limiter_init_def extract_api_key_def)
  have tk: "refilled fl64 10 2 10 (Some \<lparr>tokens = 0, last_refill = 10\<rparr>) = 0" by (simp add: refilled_def)
  obtain info rl' z' where "limiter_call ?cl sr_script_load sr_evalsha 10 (extract_api_key None) (?rl, ?z) =
      (Inr (False, info), (rl', z'))" "sr_loaded z'"
    using sr.try_consume_answers [of ?cl ?rl ?z 10 "extract_api_key None"] tk
    by (auto simp: limiter_call_def key) (auto simp: limiter_init_def)
  note run = this
  have "\<exists>resp secs. rate_limit_middleware (limiter_call ?cl sr_script_load sr_evalsha 10) None
      (ret (ok Stream_body)) (?rl, ?z) = (Inr resp, (rl', z')) \<and> status resp = 429 \<and>
    map_of (headers resp) ''Retry-After'' = Some (str_int secs) \<and>
    (\<forall>now' y. 10 + of_int secs \<le> now' \<and> sr_loaded y \<and>
      (map_of (sr_buckets y) (bucket_key ?rl (extract_api_key None)) =
         map_of (sr_buckets z') (bucket_key ?rl (extract_api_key None)) \<or>
       map_of (sr_buckets y) (bucket_key ?rl (extract_api_key None)) = None) \<longrightarrow>
      (\<exists>info' x. limiter_call ?cl sr_script_load sr_evalsha now' (extract_api_key None) (rl', y) = (Inr (True, info'), x)))"
    by (rule obedient_client_is_admitted [OF sr.script_store_axioms _ _ _ _ _ _ _ run(1)])
      (simp_all only: key, simp_all add: limiter_init_def tk)
  with run(2) show ?thesis by (elim exE conjE) blast
qed

end
