(* ===== verification/Executed_Service.thy ===== *)
theory Executed_Service
  imports Serving Inference_Executor
begin

text \<open>
  The running service with the threads of its executor.  In \<open>Serving\<close> an inference takes no thread:
  a busy worker may finish at any time.  Here the calls go through the pool of
  \<open>Inference_Executor\<close>: a worker that gets to its inference (\<^verbatim>\<open>core/worker.py\<close>, batching off) and a
  collector that has closed a batch (\<^verbatim>\<open>core/batcher.py\<close>) submit a task and go on when it has ended;
  the routes for streams and for speculative decoding put their own tasks into the same pool.
\<close>

section \<open>Systems that only delay\<close>

text \<open>
  A detailed system whose steps are steps of an abstract one or change nothing there, and which
  after some steps of its own can do whatever the abstract one can.
\<close>

locale delaying =
  fixes cinit :: "'c \<Rightarrow> bool" and cstep :: "'c \<Rightarrow> 'c \<Rightarrow> bool"
    and ainit :: "'a \<Rightarrow> bool" and astep :: "'a \<Rightarrow> 'a \<Rightarrow> bool"
    and view :: "'c \<Rightarrow> 'a" and good :: "'c \<Rightarrow> bool"
  assumes good_init: "cinit c \<Longrightarrow> good c"
    and good_step: "good c \<Longrightarrow> cstep c c' \<Longrightarrow> good c'"
    and abs_init: "cinit c \<Longrightarrow> ainit (view c)"
    and abs_step: "cstep c c' \<Longrightarrow> view c' = view c \<or> astep (view c) (view c')"
    and conc_init: "ainit a \<Longrightarrow> \<exists>c. cinit c \<and> view c = a"
    and conc_step: "good c \<Longrightarrow> astep (view c) a \<Longrightarrow> \<exists>c'. cstep\<^sup>*\<^sup>* c c' \<and> view c' = a"
begin

lemma good_steps: "cstep\<^sup>*\<^sup>* c c' \<Longrightarrow> good c \<Longrightarrow> good c'"
  by (induction rule: rtranclp_induct) (auto intro: good_step)

lemma abs_steps: "cstep\<^sup>*\<^sup>* c c' \<Longrightarrow> astep\<^sup>*\<^sup>* (view c) (view c')"
proof (induction rule: rtranclp_induct)
  case (step c' c'')
  then show ?case using abs_step [OF step.hyps(2)] rtranclp.rtrancl_into_rtrancl by fastforce
qed simp

lemma conc_steps:
  assumes "astep\<^sup>*\<^sup>* (view c) a" and "good c"
  shows "\<exists>c'. cstep\<^sup>*\<^sup>* c c' \<and> view c' = a"
  using assms(1)
proof (induction rule: rtranclp_induct)
  case (step a a')
  then obtain c' where c': "cstep\<^sup>*\<^sup>* c c'" "view c' = a" by blast
  then obtain c'' where "cstep\<^sup>*\<^sup>* c' c''" "view c'' = a'"
    using conc_step [OF good_steps [OF c'(1) assms(2)]] step.hyps(2) by blast
  with rtranclp_trans [OF c'(1)] show ?case by blast
qed auto

text \<open>The two reach the same states.\<close>

lemma same_states:
  "(\<exists>c0 c. cinit c0 \<and> cstep\<^sup>*\<^sup>* c0 c \<and> view c = a) \<longleftrightarrow> (\<exists>a0. ainit a0 \<and> astep\<^sup>*\<^sup>* a0 a)"
  using abs_init abs_steps conc_init conc_steps good_init by metis

end

section \<open>State and steps\<close>

datatype caller = By_worker nat | By_collector

fun kind_of :: "caller \<Rightarrow> task_kind" where
  "kind_of (By_worker w) = Direct"
| "kind_of By_collector = Batch_forward"

text \<open>Who waits for a call of the model: the workers without batching, the collector with it.\<close>

fun is_busy :: "worker \<Rightarrow> bool" where
  "is_busy (Busy r j) = True"
| "is_busy _ = False"

fun is_forwarding :: "phase \<Rightarrow> bool" where
  "is_forwarding (Forwarding b) = True"
| "is_forwarding _ = False"

fun calling :: "('g, 'kv) serving \<Rightarrow> caller \<Rightarrow> bool" where
  "calling s (By_worker w) =
     (case (sv_scheduler s, sv_pool s) of
        (None, Some p) \<Rightarrow> w < length (workers p) \<and> is_busy (workers p ! w)
      | _ \<Rightarrow> False)"
| "calling s By_collector =
     (case sv_scheduler s of None \<Rightarrow> False | Some sc \<Rightarrow> is_forwarding (bs_phase sc))"

record ('g, 'kv) executed =
  xs_serving :: "('g, 'kv) serving"
  xs_exec :: exec
  xs_call :: "caller \<Rightarrow> nat option"

definition executed_start :: "('g, 'kv) serving \<Rightarrow> ('g, 'kv) executed" where
  "executed_start s =
     \<lparr>xs_serving = s, xs_exec = exec_init (max_workers (the (sv_executor s))), xs_call = (\<lambda>_. None)\<rparr>"

definition task_done :: "nat \<Rightarrow> exec \<Rightarrow> bool" where
  "task_done i x \<longleftrightarrow> i \<notin> set (ex_waiting x) \<and> i \<notin> set (ex_running x)"

text \<open>What happens in the executor besides the calls of workers and collector.\<close>

definition thread_event :: "exec \<Rightarrow> exec_event \<Rightarrow> bool" where
  "thread_event x e \<longleftrightarrow> (case e of Submit_task k \<Rightarrow> k = Speculative \<or> k = Stream
     | Withdraw i \<Rightarrow> ex_kinds x ! i = Speculative | _ \<Rightarrow> True)"

datatype executed_event = Traffic traffic | Thread exec_event

inductive executed_step :: "executed_event \<Rightarrow> ('g, 'kv) executed \<Rightarrow> ('g, 'kv) executed \<Rightarrow> bool" where
  quiet: "serving_step t (xs_serving X) s \<Longrightarrow> calling s = calling (xs_serving X) \<Longrightarrow>
     executed_step (Traffic t) X (X\<lparr>xs_serving := s\<rparr>)"
| calls: "serving_step t (xs_serving X) s \<Longrightarrow> calling s c \<Longrightarrow> \<not> calling (xs_serving X) c \<Longrightarrow>
     executed_step (Traffic t) X
       (X\<lparr>xs_serving := s, xs_exec := exec_submit (kind_of c) (xs_exec X),
          xs_call := (xs_call X)(c := Some (length (ex_kinds (xs_exec X))))\<rparr>)"
| returns: "serving_step t (xs_serving X) s \<Longrightarrow> calling (xs_serving X) c \<Longrightarrow> \<not> calling s c \<Longrightarrow>
     xs_call X c = Some i \<Longrightarrow> task_done i (xs_exec X) \<Longrightarrow>
     executed_step (Traffic t) X (X\<lparr>xs_serving := s, xs_call := (xs_call X)(c := None)\<rparr>)"
| thread: "exec_step e (xs_exec X) = Some x \<Longrightarrow> thread_event (xs_exec X) e \<Longrightarrow>
     executed_step (Thread e) X (X\<lparr>xs_exec := x\<rparr>)"

inductive_cases executed_step_cases: "executed_step e X X'"

abbreviation executed_steps :: "('g, 'kv) executed \<Rightarrow> ('g, 'kv) executed \<Rightarrow> bool" where
  "executed_steps \<equiv> (\<lambda>X X'. \<exists>e. executed_step e X X')\<^sup>*\<^sup>*"

inductive executed_reachable :: "('g, 'kv) libs \<Rightarrow> ('g, 'kv) executed \<Rightarrow> bool" for L where
  init: "startup L (serving_init lg) = (Inr (), s) \<Longrightarrow> executed_reachable L (executed_start s)"
| step: "executed_reachable L X \<Longrightarrow> executed_step e X X' \<Longrightarrow> executed_reachable L X'"

lemma executed_steps_reachable:
  "executed_steps X X' \<Longrightarrow> executed_reachable L X \<Longrightarrow> executed_reachable L X'"
  by (induction rule: rtranclp_induct) (auto intro: executed_reachable.step)

section \<open>One caller at a time\<close>

lemma pool_step_workers:
  assumes "pool_step e p p'" and "e \<noteq> Stop"
  shows "length (workers p') = length (workers p) \<and> (\<exists>w. \<forall>v. v \<noteq> w \<longrightarrow> workers p' ! v = workers p ! v)"
  using assms(1)
proof cases
  case (poll w now res)
  then show ?thesis using poll_running_workers [OF poll(3)] by metis
next
  case (finish w r j now res)
  then show ?thesis using finish_workers by metis
qed (use assms(2) in \<open>auto simp: register_request_def cancel_request_def case_prod_unfold Let_def\<close>)

lemma serving_step_caller:
  assumes "serving_step t s s'"
  shows "\<exists>c. \<forall>d. d \<noteq> c \<longrightarrow> calling s' d = calling s d"
  using assms
proof cases
  case (batched e b b')
  have "calling s' d = calling s d" if "d \<noteq> By_collector" for d
    using that batched(2,4) by (cases d) (auto simp: set_batched_def batched_side_def split: option.splits)
  then show ?thesis by blast
next
  case (direct e p p')
  obtain w where w: "\<And>v. v \<noteq> w \<Longrightarrow> workers p' ! v = workers p ! v" "length (workers p') = length (workers p)"
    using pool_step_workers [OF direct(6,3)] by blast
  have "calling s' d = calling s d" if "d \<noteq> By_worker w" for d
    using that w direct(2,4,5) by (cases d) auto
  then show ?thesis by blast
next
  case (admission tr p dev)
  then have "calling s' d = calling s d" for d by (cases d) auto
  then show ?thesis by blast
next
  case (limited rl sha)
  then have "calling s' d = calling s d" for d by (cases d) auto
  then show ?thesis by blast
next
  case (signalled l)
  then have "calling s' d = calling s d" for d by (cases d) auto
  then show ?thesis by blast
qed

text \<open>A step of the service is one of three kinds.\<close>

lemma serving_step_kinds:
  assumes "serving_step t s s'"
  obtains (quiet) "calling s' = calling s"
  | (calls) c where "calling s' c" "\<not> calling s c" "\<And>d. d \<noteq> c \<Longrightarrow> calling s' d = calling s d"
  | (returns) c where "calling s c" "\<not> calling s' c" "\<And>d. d \<noteq> c \<Longrightarrow> calling s' d = calling s d"
proof -
  obtain c where c: "\<And>d. d \<noteq> c \<Longrightarrow> calling s' d = calling s d"
    using serving_step_caller [OF assms] by blast
  show thesis
  proof (cases "calling s' c = calling s c")
    case True
    then have "calling s' d = calling s d" for d using c by (cases "d = c") auto
    then show thesis using quiet by blast
  next
    case False
    then show thesis using calls [of c] returns [of c] c by blast
  qed
qed

section \<open>The executor alone\<close>

lemma exec_step_fields:
  assumes "exec_step e x = Some x'"
  shows "(\<exists>ks. ex_kinds x' = ex_kinds x @ ks \<and> (\<forall>k\<in>set ks. e = Submit_task k))"
    "set (ex_waiting x' @ ex_running x') \<subseteq>
      set (ex_waiting x @ ex_running x) \<union> {i. i = length (ex_kinds x) \<and> ex_kinds x' \<noteq> ex_kinds x}"
  using assms
  by (cases e; auto simp: exec_submit_def exec_start_def task_ends_def thread_ends_def producer_ends_def
      producer_leaves_def withdraw_def split: list.splits if_splits)+

text \<open>Whatever is in the pool can end, without anything new and without a thread left behind.\<close>

definition winding_down :: "exec_event \<Rightarrow> bool" where
  "winding_down e \<longleftrightarrow> (case e of Submit_task k \<Rightarrow> False | Withdraw i \<Rightarrow> False | Producer_leaves i \<Rightarrow> False | _ \<Rightarrow> True)"

lemma exec_progress:
  assumes "1 \<le> ex_max x" and "ex_waiting x \<noteq> [] \<or> ex_running x \<noteq> []"
  shows "\<exists>e x'. winding_down e \<and> exec_step e x = Some x' \<and> ex_max x' = ex_max x \<and>
    4 * length (ex_waiting x') + 2 * length (ex_running x') + length (ex_threads x') <
    4 * length (ex_waiting x) + 2 * length (ex_running x) + length (ex_threads x)"
proof -
  have less: "i \<in> set xs \<Longrightarrow> length (removeAll i xs) < length xs" for i :: nat and xs
    by (rule length_removeAll_less)
  show ?thesis
  proof (cases "ex_running x")
    case Nil
    then obtain i q where q: "ex_waiting x = i # q" using assms(2) by (cases "ex_waiting x") auto
    then have "exec_step Start_task x = Some (x\<lparr>ex_waiting := q, ex_running := [i],
        ex_threads := (if ex_kinds x ! i = Stream then ex_threads x @ [i] else ex_threads x)\<rparr>)"
      using Nil assms(1) by (simp add: exec_start_def)
    then show ?thesis using q Nil by (intro exI [of _ Start_task]) (auto simp: winding_down_def)
  next
    case (Cons i q)
    then have i: "i \<in> set (ex_running x)" by simp
    consider "ex_kinds x ! i \<noteq> Stream" | "ex_kinds x ! i = Stream" "i \<in> set (ex_threads x)"
      | "ex_kinds x ! i = Stream" "i \<notin> set (ex_threads x)" by blast
    then show ?thesis
    proof cases
      case 1
      then show ?thesis
        using i less [OF i] by (intro exI [of _ "Task_ends i"]) (auto simp: winding_down_def task_ends_def)
    next
      case 2
      then show ?thesis
        using less [OF 2(2)] by (intro exI [of _ "Thread_ends i"]) (auto simp: winding_down_def thread_ends_def)
    next
      case 3
      then show ?thesis
        using i less [OF i] by (intro exI [of _ "Producer_ends i"]) (auto simp: winding_down_def producer_ends_def)
    qed
  qed
qed

lemma exec_winds_down:
  assumes "1 \<le> ex_max x"
  shows "\<exists>es x'. exec_run es x = Some x' \<and> (\<forall>e\<in>set es. winding_down e) \<and> ex_waiting x' = [] \<and> ex_running x' = []"
  using assms
proof (induction "4 * length (ex_waiting x) + 2 * length (ex_running x) + length (ex_threads x)"
    arbitrary: x rule: less_induct)
  case less
  show ?case
  proof (cases "ex_waiting x = [] \<and> ex_running x = []")
    case True
    then show ?thesis by (intro exI [of _ "[]"]) simp
  next
    case False
    then obtain e y where e: "winding_down e" "exec_step e x = Some y" "ex_max y = ex_max x"
      "4 * length (ex_waiting y) + 2 * length (ex_running y) + length (ex_threads y) <
       4 * length (ex_waiting x) + 2 * length (ex_running x) + length (ex_threads x)"
      using exec_progress [OF less.prems] by blast
    then obtain es x' where "exec_run es y = Some x'" "\<forall>e\<in>set es. winding_down e" "ex_waiting x' = []" "ex_running x' = []"
      using less.hyps [OF e(4)] less.prems by auto
    then show ?thesis using e(1,2) by (intro exI [of _ "e # es"]) auto
  qed
qed

text \<open>Steps of the executor alone: tasks start and end, nothing is submitted, withdrawn or left behind.\<close>

definition winds_down :: "('g, 'kv) executed \<Rightarrow> ('g, 'kv) executed \<Rightarrow> bool" where
  "winds_down = (\<lambda>X X'. \<exists>e. winding_down e \<and> executed_step (Thread e) X X')\<^sup>*\<^sup>*"

lemma winds_down_steps: "winds_down X X' \<Longrightarrow> executed_steps X X'"
  unfolding winds_down_def by (erule rtranclp_mono [THEN predicate2D, rotated]) blast

lemma winding_down_steps:
  "exec_run es (xs_exec X) = Some x \<Longrightarrow> \<forall>e\<in>set es. winding_down e \<Longrightarrow> winds_down X (X\<lparr>xs_exec := x\<rparr>)"
  unfolding winds_down_def
proof (induction es arbitrary: X)
  case (Cons e es)
  then obtain y where y: "exec_step e (xs_exec X) = Some y" "exec_run es y = Some x" by (auto split: option.splits)
  have "thread_event (xs_exec X) e" using Cons.prems(2) by (cases e) (auto simp: thread_event_def winding_down_def)
  then have "executed_step (Thread e) X (X\<lparr>xs_exec := y\<rparr>)" by (rule executed_step.thread [OF y(1)])
  moreover have "winding_down e" using Cons.prems(2) by simp
  moreover have "(\<lambda>X X'. \<exists>e. winding_down e \<and> executed_step (Thread e) X X')\<^sup>*\<^sup>* (X\<lparr>xs_exec := y\<rparr>) (X\<lparr>xs_exec := x\<rparr>)"
    using Cons.IH [of "X\<lparr>xs_exec := y\<rparr>"] Cons.prems(2) y(2) by simp
  ultimately show ?case
    using converse_rtranclp_into_rtranclp [of "\<lambda>X X'. \<exists>e. winding_down e \<and> executed_step (Thread e) X X'"] by blast
next
  case Nil
  then have "X\<lparr>xs_exec := x\<rparr> = X" by (cases X) simp
  then show ?case by simp
qed

section \<open>The invariant\<close>

text \<open>
  Whoever calls waits for a task of its own, of its kind; every task of a worker or of the
  collector in the pool has its caller waiting.
\<close>

definition own_task :: "exec \<Rightarrow> nat \<Rightarrow> bool" where
  "own_task x i \<longleftrightarrow> ex_kinds x ! i = Direct \<or> ex_kinds x ! i = Batch_forward"

lemma own_kind: "kind_of c = Direct \<or> kind_of c = Batch_forward"
  by (cases c) auto

definition in_pool :: "exec \<Rightarrow> nat list" where
  "in_pool x = ex_running x @ ex_waiting x"

definition calls_ok :: "int \<Rightarrow> ('g, 'kv) serving \<Rightarrow> exec \<Rightarrow> (caller \<Rightarrow> nat option) \<Rightarrow> bool" where
  "calls_ok n s x call \<longleftrightarrow>
     (\<exists>k. exec_inv n k x) \<and> (\<forall>c. calling s c \<longleftrightarrow> call c \<noteq> None) \<and>
     (\<forall>c i. call c = Some i \<longrightarrow> i < length (ex_kinds x) \<and> (\<forall>d. call d = Some i \<longrightarrow> d = c)) \<and>
     (\<forall>i\<in>set (in_pool x). own_task x i \<longrightarrow> (\<exists>c. call c = Some i))"

definition executed_inv :: "int \<Rightarrow> ('g, 'kv) executed \<Rightarrow> bool" where
  "executed_inv n X \<longleftrightarrow> calls_ok n (xs_serving X) (xs_exec X) (xs_call X)"

lemma calls_okI:
  assumes "exec_inv n k x" and "\<And>c. calling s c \<longleftrightarrow> call c \<noteq> None"
    and "\<And>c i. call c = Some i \<Longrightarrow> i < length (ex_kinds x) \<and> (\<forall>d. call d = Some i \<longrightarrow> d = c)"
    and "\<And>i. i \<in> set (in_pool x) \<Longrightarrow> own_task x i \<Longrightarrow> \<exists>c. call c = Some i"
  shows "calls_ok n s x call"
  unfolding calls_ok_def using assms by blast

lemmas executed_inv_defs = executed_inv_def calls_ok_def

lemma executed_inv_exec: "executed_inv n X \<Longrightarrow> \<exists>k. exec_inv n k (xs_exec X)"
  by (simp add: executed_inv_defs)

lemma inv_pool_numbers: "exec_inv n k x \<Longrightarrow> i \<in> set (in_pool x) \<Longrightarrow> i < length (ex_kinds x)"
  by (auto simp: exec_inv_def in_pool_def)

lemma executed_step_inv:
  assumes "executed_step e X X'" and inv: "executed_inv n X"
  shows "executed_inv n X'"
proof -
  obtain k where k: "exec_inv n k (xs_exec X)" using executed_inv_exec [OF inv] by blast
  note below = inv_pool_numbers [OF k]
  show ?thesis
    using assms(1)
  proof cases
    case (quiet t s)
    then show ?thesis using inv by (simp add: executed_inv_defs)
  next
    case (calls t s c)
    let ?N = "length (ex_kinds (xs_exec X))"
    have only: "calling s d = calling (xs_serving X) d" if "d \<noteq> c" for d
      using that serving_step_caller [OF calls(3)] calls(4,5) by metis
    have pool: "set (in_pool (exec_submit (kind_of c) (xs_exec X))) = insert ?N (set (in_pool (xs_exec X)))"
      by (auto simp: in_pool_def exec_submit_def)
    have own: "own_task (exec_submit (kind_of c) (xs_exec X)) i = own_task (xs_exec X) i" if "i < ?N" for i
      using that by (simp add: own_task_def exec_submit_def nth_append)
    have unique: "i < ?N \<and> (\<forall>d'. xs_call X d' = Some i \<longrightarrow> d' = d)" if "xs_call X d = Some i" for d i
      using that inv by (simp add: executed_inv_defs)
    have fresh: "xs_call X d \<noteq> Some ?N" for d using unique [of d ?N] by auto
    have B: "calling s d \<longleftrightarrow> ((xs_call X)(c := Some ?N)) d \<noteq> None" for d
      using only [of d] calls(4) inv by (auto simp: executed_inv_defs)
    have len: "length (ex_kinds (exec_submit (kind_of c) (xs_exec X))) = Suc ?N" by (simp add: exec_submit_def)
    have C: "i < length (ex_kinds (exec_submit (kind_of c) (xs_exec X))) \<and> (\<forall>d'. ((xs_call X)(c := Some ?N)) d' = Some i \<longrightarrow> d' = d)"
      if "((xs_call X)(c := Some ?N)) d = Some i" for d i
    proof (cases "d = c")
      case True
      then show ?thesis using that fresh len by (auto split: if_splits)
    next
      case False
      then have "xs_call X d = Some i" using that by simp
      note u = unique [OF this]
      show ?thesis
      proof (intro conjI allI impI)
        show "i < length (ex_kinds (exec_submit (kind_of c) (xs_exec X)))" using u len by simp
        fix d' assume "((xs_call X)(c := Some ?N)) d' = Some i"
        with u have "xs_call X d' = Some i" by (cases "d' = c") auto
        with u show "d' = d" by blast
      qed
    qed
    have D: "\<exists>d. ((xs_call X)(c := Some ?N)) d = Some i"
      if i: "i \<in> set (in_pool (exec_submit (kind_of c) (xs_exec X)))"
        "own_task (exec_submit (kind_of c) (xs_exec X)) i" for i
    proof (cases "i = ?N")
      case False
      then have "i \<in> set (in_pool (xs_exec X))" using i pool by blast
      then obtain d where d: "xs_call X d = Some i" using inv own [OF below] i(2) by (auto simp: executed_inv_defs)
      have "xs_call X c = None" using calls(5) inv by (auto simp: executed_inv_defs)
      with d have "d \<noteq> c" by auto
      then show ?thesis using d by auto
    qed auto
    have "calls_ok n s (exec_submit (kind_of c) (xs_exec X)) ((xs_call X)(c := Some ?N))"
      by (rule calls_okI [OF inv_submit [OF k] B C D])
    then show ?thesis by (simp add: executed_inv_def calls(2))
  next
    case (returns t s c i)
    have only: "calling s d = calling (xs_serving X) d" if "d \<noteq> c" for d
      using that serving_step_caller [OF returns(3)] returns(4,5) by metis
    have "calling s d \<longleftrightarrow> ((xs_call X)(c := None)) d \<noteq> None" for d
      using only [of d] returns(5) inv by (auto simp: executed_inv_defs)
    moreover have "\<exists>d. ((xs_call X)(c := None)) d = Some j"
      if j: "j \<in> set (in_pool (xs_exec X))" "own_task (xs_exec X) j" for j
    proof -
      obtain d where d: "xs_call X d = Some j" using j inv by (auto simp: executed_inv_defs)
      have "j \<noteq> i" using j(1) returns(7) by (auto simp: task_done_def in_pool_def)
      then have "d \<noteq> c" using d returns(6) by auto
      then show ?thesis using d by auto
    qed
    ultimately show ?thesis
      using inv unfolding returns(2) executed_inv_defs by (auto split: if_splits)
  next
    case (thread e x)
    note f = exec_step_fields [OF thread(3)]
    obtain ks where ks: "ex_kinds x = ex_kinds (xs_exec X) @ ks" "\<And>k. k \<in> set ks \<Longrightarrow> e = Submit_task k"
      using f(1) by blast
    have new: "\<not> own_task x i" if i: "i = length (ex_kinds (xs_exec X))" "ex_kinds x \<noteq> ex_kinds (xs_exec X)" for i
    proof -
      obtain k' ks' where "ks = k' # ks'" using ks(1) i(2) by (cases ks) auto
      moreover from this have "k' = Speculative \<or> k' = Stream"
        using ks(2) [of k'] thread(4) by (auto simp: thread_event_def)
      ultimately show ?thesis using ks(1) i(1) by (auto simp: own_task_def)
    qed
    have old: "own_task x i = own_task (xs_exec X) i" if "i < length (ex_kinds (xs_exec X))" for i
      using that by (simp add: own_task_def ks(1) nth_append)
    have D: "\<exists>c. xs_call X c = Some i" if i: "i \<in> set (in_pool x)" "own_task x i" for i
    proof -
      have "i \<in> set (in_pool (xs_exec X))" using f(2) i new [of i] by (auto simp: in_pool_def)
      then show ?thesis using inv old [OF below] i(2) by (auto simp: executed_inv_defs)
    qed
    have "length (ex_kinds (xs_exec X)) \<le> length (ex_kinds x)" by (simp add: ks(1))
    then have C: "i < length (ex_kinds x) \<and> (\<forall>d. xs_call X d = Some i \<longrightarrow> d = c)" if "xs_call X c = Some i" for c i
      using inv that unfolding executed_inv_defs by (meson less_le_trans)
    have B: "calling (xs_serving X) c \<longleftrightarrow> xs_call X c \<noteq> None" for c
      using inv unfolding executed_inv_defs by blast
    have "calls_ok n (xs_serving X) x (xs_call X)"
      by (rule calls_okI [OF exec_step_inv [OF thread(3) k] B C D])
    then show ?thesis by (simp add: executed_inv_def thread(2))
  qed
qed

section \<open>The bound on the calls of the service\<close>

lemma pool_reachable_workers:
  "pool_reachable cb n p \<Longrightarrow> length (workers p) \<le> nat n"
proof (induction rule: pool_reachable.induct)
  case init
  show ?case by (simp add: pool_start_def pool_init_def)
next
  case (step p e p')
  then show ?case
    using pool_step_workers [OF step.hyps(2)]
    by (cases "e = Stop") (auto simp: pool_stop_def elim: pool_step_cases)
qed

text \<open>The callers of a state: the workers, or the one collector.\<close>

lemma callers_bounded:
  assumes "worker_side_ok cfg s"
  shows "finite {c. calling s c} \<and>
    card {c. calling s c} \<le> (if cfg_batching_enabled cfg then 1 else nat (cfg_max_concurrent_requests cfg))"
proof -
  obtain p where p: "sv_pool s = Some p"
    "case sv_scheduler s of
          None \<Rightarrow> \<not> cfg_batching_enabled cfg \<and>
            pool_reachable (Some (make_breaker cfg)) (cfg_max_concurrent_requests cfg) p
        | Some sc \<Rightarrow> cfg_batching_enabled cfg"
    using assms by (auto simp: worker_side_ok_def split: option.splits)
  show ?thesis
  proof (cases "sv_scheduler s")
    case None
    let ?W = "By_worker ` {..<length (workers p)}"
    have "{c. calling s c} \<subseteq> ?W"
    proof
      fix c assume "c \<in> {c. calling s c}"
      then show "c \<in> ?W" using None p(1) by (cases c) auto
    qed
    moreover have "card ?W \<le> length (workers p)" using card_image_le [of "{..<length (workers p)}" By_worker] by simp
    moreover have "length (workers p) \<le> nat (cfg_max_concurrent_requests cfg)" "\<not> cfg_batching_enabled cfg"
      using None p(2) pool_reachable_workers by auto
    ultimately show ?thesis
      using card_mono [of ?W "{c. calling s c}"] finite_subset [of _ ?W] by auto
  next
    case (Some sc)
    have "{c. calling s c} \<subseteq> {By_collector}"
    proof
      fix c assume "c \<in> {c. calling s c}"
      then show "c \<in> {By_collector}" using Some by (cases c) auto
    qed
    then show ?thesis using Some p(2) card_mono [of "{By_collector}" "{c. calling s c}"] finite_subset by auto
  qed
qed

lemma own_tasks_bounded:
  assumes inv: "executed_inv n X" and "worker_side_ok cfg (xs_serving X)"
  shows "length (filter (own_task (xs_exec X)) (in_pool (xs_exec X))) \<le>
    (if cfg_batching_enabled cfg then 1 else nat (cfg_max_concurrent_requests cfg))"
proof -
  let ?T = "filter (own_task (xs_exec X)) (in_pool (xs_exec X))"
  note callers = callers_bounded [OF assms(2)]
  obtain k where "exec_inv n k (xs_exec X)" using executed_inv_exec [OF inv] by blast
  then have "distinct ?T"
    by (auto simp: exec_inv_def in_pool_def strict_sorted_iff intro: distinct_filter)
  then have "length ?T = card (set ?T)" by (rule distinct_card [symmetric])
  also have "set ?T \<subseteq> (\<lambda>c. the (xs_call X c)) ` {c. calling (xs_serving X) c}"
  proof
    fix i assume "i \<in> set ?T"
    then obtain c where "xs_call X c = Some i" using inv by (auto simp: executed_inv_defs)
    then show "i \<in> (\<lambda>c. the (xs_call X c)) ` {c. calling (xs_serving X) c}"
      using inv by (force simp: executed_inv_defs)
  qed
  then have "card (set ?T) \<le> card {c. calling (xs_serving X) c}"
    using callers by (meson card_image_le card_mono finite_imageI order_trans)
  finally show ?thesis using callers by linarith
qed

section \<open>The two systems together\<close>

text \<open>The states of the composition that the proofs rest on.\<close>

definition executed_ok :: "('g, 'kv) libs \<Rightarrow> ('g, 'kv) executed \<Rightarrow> bool" where
  "executed_ok L X \<longleftrightarrow> serving_reachable L (xs_serving X) \<and>
     (\<exists>cfg. lib_settings L = Inr cfg \<and> executed_inv (cfg_max_concurrent_requests cfg) X)"

lemma executed_init_ok:
  assumes st: "startup L (serving_init lg) = (Inr (), s)"
  shows "executed_ok L (executed_start s)"
proof -
  obtain cfg where cfg: "lib_settings L = Inr cfg"
    "sv_executor s = Some \<lparr>max_workers = cfg_max_concurrent_requests cfg, accepting = True\<rparr>"
    "sv_scheduler s = (if cfg_batching_enabled cfg
      then Some (scheduler_start (scheduler_init (cfg_max_batch_size cfg))) else None)"
    "sv_pool s = Some (pool_start (cfg_max_concurrent_requests cfg) (pool_init (Some (make_breaker cfg))))"
    using startup_Inr [OF st] by blast
  have "\<not> calling s c" for c
    by (cases c) (auto simp: cfg pool_start_def pool_init_def scheduler_start_def scheduler_init_def)
  then have "executed_inv (cfg_max_concurrent_requests cfg) (executed_start s)"
    using exec_init_inv by (auto simp: executed_inv_defs executed_start_def cfg in_pool_def exec_init_def)
  then show ?thesis using cfg(1) serving_reachable.init [OF st] by (simp add: executed_ok_def executed_start_def)
qed

lemma executed_step_serving:
  "executed_step e X X' \<Longrightarrow> xs_serving X' = xs_serving X \<or> (\<exists>t. serving_step t (xs_serving X) (xs_serving X'))"
  by (auto elim!: executed_step_cases)

lemma executed_step_ok:
  assumes "executed_ok L X" and "executed_step e X X'"
  shows "executed_ok L X'"
  using assms(1) executed_step_inv [OF assms(2)] executed_step_serving [OF assms(2)]
  unfolding executed_ok_def by (metis serving_reachable.step)

lemma executed_reachable_ok: "executed_reachable L X \<Longrightarrow> executed_ok L X"
  by (induction rule: executed_reachable.induct) (auto intro: executed_init_ok executed_step_ok)

text \<open>What the service can do, it can do after the executor has wound down.\<close>

lemma executed_simulates:
  assumes ok: "executed_ok L X" and step: "serving_step t (xs_serving X) s"
  shows "\<exists>Y X'. winds_down X Y \<and> xs_serving Y = xs_serving X \<and> executed_step (Traffic t) Y X' \<and> xs_serving X' = s"
proof (cases rule: serving_step_kinds [OF step])
  case 1
  then have "executed_step (Traffic t) X (X\<lparr>xs_serving := s\<rparr>)" by (rule executed_step.quiet [OF step])
  then show ?thesis by (intro exI [of _ X] exI [of _ "X\<lparr>xs_serving := s\<rparr>"]) (simp add: winds_down_def)
next
  case (2 c)
  let ?Y = "X\<lparr>xs_serving := s, xs_exec := exec_submit (kind_of c) (xs_exec X),
    xs_call := (xs_call X)(c := Some (length (ex_kinds (xs_exec X))))\<rparr>"
  have "executed_step (Traffic t) X ?Y" by (rule executed_step.calls [OF step 2(1,2)])
  then show ?thesis by (intro exI [of _ X] exI [of _ ?Y]) (simp add: winds_down_def)
next
  case (3 c)
  obtain cfg where inv: "executed_inv (cfg_max_concurrent_requests cfg) X" and "lib_settings L = Inr cfg"
    and "serving_reachable L (xs_serving X)" using ok by (auto simp: executed_ok_def)
  then have "0 < cfg_max_concurrent_requests cfg"
    using serving_reachable_ok by (fastforce simp: serving_ok_def objects_ok_def)
  moreover obtain k where "exec_inv (cfg_max_concurrent_requests cfg) k (xs_exec X)"
    using executed_inv_exec [OF inv] by blast
  ultimately have "1 \<le> ex_max (xs_exec X)" by (simp add: exec_inv_def)
  then obtain es x where x: "exec_run es (xs_exec X) = Some x" "\<forall>e\<in>set es. winding_down e"
    "ex_waiting x = []" "ex_running x = []" using exec_winds_down by blast
  let ?Y = "X\<lparr>xs_exec := x\<rparr>"
  obtain i where "xs_call X c = Some i" using inv 3(1) by (auto simp: executed_inv_defs)
  then have "executed_step (Traffic t) ?Y (?Y\<lparr>xs_serving := s, xs_call := (xs_call ?Y)(c := None)\<rparr>)"
    using step 3 x(3,4) by (intro executed_step.returns [of _ _ _ c i]) (auto simp: task_done_def)
  moreover have "winds_down X ?Y" by (rule winding_down_steps [OF x(1,2)])
  ultimately show ?thesis
    by (intro exI [of _ ?Y] exI [of _ "?Y\<lparr>xs_serving := s, xs_call := (xs_call ?Y)(c := None)\<rparr>"]) simp
qed

lemma executed_catches_up:
  assumes "executed_ok L X" and "serving_step t (xs_serving X) s"
  shows "\<exists>X'. executed_steps X X' \<and> xs_serving X' = s"
proof -
  obtain Y X' where Y: "winds_down X Y" "executed_step (Traffic t) Y X'" "xs_serving X' = s"
    using executed_simulates [OF assms] by blast
  then have "executed_steps X X'"
    using rtranclp.rtrancl_into_rtrancl [of "\<lambda>X X'. \<exists>e. executed_step e X X'" X Y] winds_down_steps by blast
  then show ?thesis using Y(3) by blast
qed

text \<open>The composition is a delaying system over the service.\<close>

definition launched :: "('g, 'kv) libs \<Rightarrow> ('g, 'kv) serving \<Rightarrow> bool" where
  "launched L s \<longleftrightarrow> (\<exists>lg. startup L (serving_init lg) = (Inr (), s))"

interpretation executed: delaying "\<lambda>X. \<exists>s. launched L s \<and> X = executed_start s"
  "\<lambda>X X'. \<exists>e. executed_step e X X'" "launched L" "\<lambda>s s'. \<exists>t. serving_step t s s'" xs_serving "executed_ok L" for L
proof (unfold_locales, goal_cases)
  case (1 X)
  then show ?case using executed_init_ok by (auto simp: launched_def)
next
  case (2 X X')
  then show ?case using executed_step_ok by blast
next
  case (3 X)
  then show ?case by (auto simp: executed_start_def)
next
  case (4 X X')
  then show ?case using executed_step_serving by blast
next
  case (5 s)
  then show ?case by (auto simp: executed_start_def)
next
  case (6 X s)
  then show ?case using executed_catches_up by blast
qed

lemma reachable_as_steps:
  "serving_reachable L s \<longleftrightarrow> (\<exists>s0. launched L s0 \<and> (\<lambda>s s'. \<exists>t. serving_step t s s')\<^sup>*\<^sup>* s0 s)"
  "executed_reachable L X \<longleftrightarrow> (\<exists>X0. (\<exists>s. launched L s \<and> X0 = executed_start s) \<and> executed_steps X0 X)"
proof -
  have "serving_reachable L s'" if "(\<lambda>s s'. \<exists>t. serving_step t s s')\<^sup>*\<^sup>* s0 s'" "launched L s0" for s0 s'
    using that by (induction rule: rtranclp_induct) (auto simp: launched_def intro: serving_reachable.intros)
  moreover have "serving_reachable L s \<Longrightarrow> \<exists>s0. launched L s0 \<and> (\<lambda>s s'. \<exists>t. serving_step t s s')\<^sup>*\<^sup>* s0 s"
  proof (induction rule: serving_reachable.induct)
    case (init lg s)
    then show ?case unfolding launched_def by blast
  next
    case (step s t s')
    then obtain s0 where "launched L s0" "(\<lambda>s s'. \<exists>t. serving_step t s s')\<^sup>*\<^sup>* s0 s" by blast
    then show ?case using step.hyps(2) rtranclp.rtrancl_into_rtrancl [of "\<lambda>s s'. \<exists>t. serving_step t s s'" s0 s] by blast
  qed
  ultimately show "serving_reachable L s \<longleftrightarrow> (\<exists>s0. launched L s0 \<and> (\<lambda>s s'. \<exists>t. serving_step t s s')\<^sup>*\<^sup>* s0 s)"
    by blast
  have "executed_reachable L X \<Longrightarrow> \<exists>X0. (\<exists>s. launched L s \<and> X0 = executed_start s) \<and> executed_steps X0 X"
  proof (induction rule: executed_reachable.induct)
    case (init lg s)
    then show ?case unfolding launched_def by blast
  next
    case (step X e X')
    then obtain X0 where "\<exists>s. launched L s \<and> X0 = executed_start s" "executed_steps X0 X" by blast
    then show ?case using step.hyps(2) rtranclp.rtrancl_into_rtrancl [of "\<lambda>X X'. \<exists>e. executed_step e X X'" X0 X] by blast
  qed
  then show "executed_reachable L X \<longleftrightarrow> (\<exists>X0. (\<exists>s. launched L s \<and> X0 = executed_start s) \<and> executed_steps X0 X)"
    using executed_steps_reachable by (auto simp: launched_def intro: executed_reachable.init)
qed

section \<open>Properties\<close>

text \<open>C15: The executor delays the service and does nothing else: with the calls of workers and
  collector going through the thread pool, in competition with streams and speculative decoding, the
  service reaches exactly the states that it reaches when calls take no thread; and from every
  reachable state, whatever occupies the threads, each single step that the service could take
  without the executor it can take after a number of steps in which the tasks in the pool merely
  start and end: nothing is submitted or withdrawn, no stream leaves its thread behind, and the
  service itself stays where it is.  So the executor adds no state in which the service is stuck.\<close>

theorem executor_only_delays:
  "((\<exists>X. executed_reachable L X \<and> xs_serving X = s) \<longleftrightarrow> serving_reachable L s) \<and>
   (\<forall>X t s'. executed_reachable L X \<and> serving_step t (xs_serving X) s' \<longrightarrow>
      (\<exists>Y X'. winds_down X Y \<and> xs_serving Y = xs_serving X \<and>
         executed_step (Traffic t) Y X' \<and> xs_serving X' = s'))"
proof
  show "(\<exists>X. executed_reachable L X \<and> xs_serving X = s) \<longleftrightarrow> serving_reachable L s"
    using executed.same_states [of L s] by (simp only: reachable_as_steps) blast
qed (use executed_reachable_ok executed_simulates in blast)

lemma executor_only_delays_witness:
  "\<exists>X Y X'. executed_reachable (demo_libs default_settings (Inl CancelledError)) X \<and>
     winds_down X Y \<and> executed_step (Traffic Signalled) Y X'"
proof -
  let ?L = "demo_libs default_settings (Inl CancelledError)"
  obtain s where st: "startup ?L (serving_init demo_log) = (Inr (), s)" using demo_startup by blast
  have reach: "executed_reachable ?L (executed_start s)" by (rule executed_reachable.init [OF st])
  have "sv_lifecycle s = Some (signals_registered lifecycle_init)" using startup_Inr [OF st] by blast
  then have "serving_step Signalled (xs_serving (executed_start s))
      (s\<lparr>sv_lifecycle := Some (handle_signal (signals_registered lifecycle_init))\<rparr>)"
    using serving_step.signalled [of s] by (simp add: executed_start_def)
  then show ?thesis using executor_only_delays [of ?L s] reach by blast
qed

text \<open>C16: Workers never queue for each other: of the tasks in the pool at most as many as there are
  workers come from the workers, at most one when batching is on; so when no stream and no
  speculative request uses the pool, a call that waits finds a free thread.\<close>

theorem workers_never_queue_for_each_other:
  assumes "executed_reachable L X" and "lib_settings L = Inr cfg"
  shows "length (filter (own_task (xs_exec X)) (in_pool (xs_exec X))) \<le>
      (if cfg_batching_enabled cfg then 1 else nat (cfg_max_concurrent_requests cfg)) \<and>
    ((\<forall>i\<in>set (in_pool (xs_exec X)). own_task (xs_exec X) i) \<and> ex_waiting (xs_exec X) \<noteq> [] \<longrightarrow>
      exec_start (xs_exec X) \<noteq> None)"
proof -
  have ok: "serving_reachable L (xs_serving X)" "executed_inv (cfg_max_concurrent_requests cfg) X"
    using executed_reachable_ok [OF assms(1)] assms(2) by (auto simp: executed_ok_def)
  then have side: "worker_side_ok cfg (xs_serving X)" and pos: "0 < cfg_max_concurrent_requests cfg"
    using serving_reachable_ok assms(2) by (fastforce simp: serving_ok_def objects_ok_def)+
  note bound = own_tasks_bounded [OF ok(2) side]
  obtain k where k: "exec_inv (cfg_max_concurrent_requests cfg) k (xs_exec X)"
    using executed_inv_exec [OF ok(2)] by blast
  have "exec_start (xs_exec X) \<noteq> None"
    if own: "\<forall>i\<in>set (in_pool (xs_exec X)). own_task (xs_exec X) i" and wait: "ex_waiting (xs_exec X) \<noteq> []"
  proof -
    have "filter (own_task (xs_exec X)) (in_pool (xs_exec X)) = in_pool (xs_exec X)"
      using own by (simp add: filter_id_conv)
    then have "length (in_pool (xs_exec X)) \<le> nat (cfg_max_concurrent_requests cfg)"
      using bound pos by (simp split: if_splits)
    moreover have "0 < length (ex_waiting (xs_exec X))" using wait by simp
    moreover have "ex_max (xs_exec X) = cfg_max_concurrent_requests cfg" using k by (simp add: exec_inv_def)
    ultimately have "int (length (ex_running (xs_exec X))) < ex_max (xs_exec X)"
      using pos unfolding in_pool_def length_append by linarith
    then show ?thesis using wait by (auto simp: exec_start_def split: list.split)
  qed
  then show ?thesis using bound by blast
qed

lemma workers_never_queue_for_each_other_witness:
  "\<exists>X. executed_reachable (demo_libs default_settings (Inl CancelledError)) X \<and>
     length (filter (own_task (xs_exec X)) (in_pool (xs_exec X))) \<le> 1"
proof -
  obtain X where X: "executed_reachable (demo_libs default_settings (Inl CancelledError)) X"
    using demo_startup executed_reachable.init by blast
  have "lib_settings (demo_libs default_settings (Inl CancelledError)) = Inr default_settings"
    by (simp add: demo_libs_def)
  from workers_never_queue_for_each_other [OF X this] X show ?thesis
    by (auto simp: default_settings_def split: if_splits)
qed

end
