(* ===== verification/Progress.thy ===== *)
theory Progress
  imports Executed_Service
begin

text \<open>
  No request is stuck: whatever the state of the running service, a request in a worker's hands can
  be answered by steps of the collector, the executor and the worker alone.  With batching the proof
  follows the batch item: as long as its future is not done the item is in the queue or in the
  current batch, and the collector has a step that brings it closer to its result.
\<close>

section \<open>The collector is alive\<close>

definition good_outcome :: "'r outcome \<Rightarrow> bool" where
  "good_outcome out \<longleftrightarrow> out \<noteq> Cancelled \<and> (\<forall>e. out = Failed e \<longrightarrow> is_Exception e)"

definition good_futures :: "'r futures \<Rightarrow> bool" where
  "good_futures fs \<longleftrightarrow> (\<forall>x\<in>set fs. good_outcome x)"

definition sched_alive :: "scheduler \<Rightarrow> bool" where
  "sched_alive s \<longleftrightarrow> bs_running s \<and> bs_phase s \<noteq> Ended \<and> good_futures (bs_futures s)"

lemma good_settle: "good_futures fs \<Longrightarrow> good_outcome out \<Longrightarrow> good_futures (settle i out fs)"
  using set_update_subset_insert [of fs i out] by (auto simp: good_futures_def settle_eq)

lemma good_fold: "good_futures fs \<Longrightarrow> good_outcome out \<Longrightarrow> good_futures (fold (\<lambda>i. settle i out) is fs)"
  by (induction "is" arbitrary: fs) (simp_all add: good_settle)

lemma good_resolve: "good_futures fs \<Longrightarrow> good_futures (fst (resolve_all batch results fs))"
  by (induction batch results fs rule: resolve_all.induct) (simp_all add: good_settle good_outcome_def)

lemma good_fail: "good_futures fs \<Longrightarrow> is_Exception e \<Longrightarrow> good_futures (fail_all e batch fs)"
  by (simp add: fail_all_def good_fold good_outcome_def)

lemma alive_collector:
  assumes "collector_event e" and "sched_step e s = Some s'" and "sched_alive s"
  shows "sched_alive s'"
proof (cases e)
  case (Process res)
  then show ?thesis
    using assms good_resolve [of "bs_futures s"]
    by (auto simp: process_batch_def sched_alive_def collector_event_def cancels_def good_fail is_Exception_def
        case_prod_unfold Let_def split: phase.splits sum.splits)
qed (use assms in \<open>auto simp: collect_first_def collect_more_def close_batch_def sched_alive_def collector_event_def
      case_prod_unfold Let_def split: phase.splits list.splits bool.splits if_splits\<close>)

lemma alive_batched:
  assumes "batched_step e s s'" and "e \<noteq> Shutdown" and "sched_alive (bp_sched s)"
  shows "sched_alive (bp_sched s')"
  using assms(1)
proof (cases rule: batched_step.cases)
  case (work w res now)
  show ?thesis
  proof (cases rule: batched_poll_cases [OF work(4)])
    case 1
    then show ?thesis using assms(3) by simp
  next
    case (2 p r j item)
    then show ?thesis
      using assms(3) by (simp add: submit_live(2) sched_alive_def good_futures_def good_outcome_def)
        (simp add: submit_def create_future_def)
  qed
next
  case (deliver now w)
  then have "bp_sched s' = bp_sched s" by (auto simp: batched_finish_def split: option.splits)
  then show ?thesis using assms(3) by simp
next
  case (collect e sc)
  then show ?thesis using alive_collector assms(3) by simp
qed (use assms in auto)

lemma alive_serving:
  "serving_reachable L s \<Longrightarrow> sv_scheduler s = Some sc \<Longrightarrow> sched_alive sc"
proof (induction arbitrary: sc rule: serving_reachable.induct)
  case (init lg s)
  from startup_Inr [OF init(1)] init(2) show ?case
    by (auto simp: sched_alive_def scheduler_start_def scheduler_init_def good_futures_def split: if_splits)
next
  case (step s t s')
  from step.hyps(2) show ?case
  proof cases
    case (batched e b b')
    then have "sched_alive (bp_sched b)"
      using step.IH by (auto simp: batched_side_def split: option.splits)
    from alive_batched [OF batched(5) batched(3) this] show ?thesis
      using step.prems batched(2) by (simp add: set_batched_def)
  qed (use step in auto)
qed

section \<open>The collector makes progress\<close>

definition distance :: "scheduler \<Rightarrow> nat" where
  "distance s = 3 * length (live s) +
     (case bs_phase s of Waiting \<Rightarrow> 2 | Collecting b \<Rightarrow> 1 | _ \<Rightarrow> 0)"

lemma resolve_all_same:
  "j < length fs \<Longrightarrow> fst (resolve_all batch (replicate (length batch) ans) fs) ! j \<in> {fs ! j, Resolved ans}"
proof (induction batch arbitrary: fs)
  case (Cons x batch)
  obtain item f where x: "x = (item, f)" by (cases x)
  have "fst (resolve_all batch (replicate (length batch) ans) (settle f (Resolved ans) fs)) ! j
      \<in> {settle f (Resolved ans) fs ! j, Resolved ans}"
    by (rule Cons.IH) (use Cons.prems in simp)
  then show ?case using Cons.prems by (auto simp: x settle_nth split: if_splits)
qed simp

lemma collector_progress:
  assumes alive: "sched_alive s" and inv: "sched_inv m subs batches s" and live: "live s \<noteq> []"
  shows "\<exists>e s'. collector_event e \<and> sched_step e s = Some s' \<and> distance s' < distance s \<and>
    (\<forall>i<length (bs_futures s). bs_futures s' ! i \<in> {bs_futures s ! i, Resolved ans})"
proof (cases "bs_phase s")
  case Waiting
  then obtain x q where "bs_queue s = x # q" using live by (cases "bs_queue s") (auto simp: live_def in_hand_def)
  then show ?thesis
    using Waiting alive by (intro exI [of _ First])
      (auto simp: collect_first_def sched_alive_def collector_event_def distance_def live_def in_hand_def)
next
  case (Collecting b)
  then show ?thesis
    by (intro exI [of _ Close])
      (auto simp: close_batch_def drain_eq collector_event_def distance_def live_def in_hand_def)
next
  case (Forwarding b)
  then have b: "b \<noteq> []" using inv by (simp add: sched_inv_def)
  let ?fs = "fst (resolve_all b (replicate (length b) ans) (bs_futures s))"
  have "snd (resolve_all b (replicate (length b) ans) (bs_futures s))" by (simp add: resolve_all_flag)
  then have "sched_step (Process (Inr (replicate (length b) ans))) s = Some (s\<lparr>bs_phase := Waiting, bs_futures := ?fs\<rparr>)"
    using Forwarding by (simp add: process_batch_def case_prod_unfold)
  then show ?thesis
    using Forwarding b resolve_all_same [of _ "bs_futures s" b ans]
    by (intro exI [of _ "Process (Inr (replicate (length b) ans))"] exI [of _ "s\<lparr>bs_phase := Waiting, bs_futures := ?fs\<rparr>"])
      (auto simp: collector_event_def cancels_def distance_def live_def in_hand_def Suc_le_eq neq_Nil_conv)
next
  case Ended
  then show ?thesis using alive by (simp add: sched_alive_def)
qed

lemma pending_is_live:
  assumes "sched_inv m subs batches s" and "i < length (bs_futures s)" and "bs_futures s ! i = Pending"
  shows "live s \<noteq> []"
proof
  assume "live s = []"
  then have "map snd (concat batches) = [0..<length (bs_futures s)]"
    using assms(1) by (simp add: sched_inv_def live_def)
  then have "i \<in> set (map snd (concat batches))" using assms(2) by simp
  then obtain b where "b \<in> set batches" "i \<in> set (map snd b)" by auto
  then have "future_done (bs_futures s) i" using assms(1) by (auto simp: sched_inv_def settled_def)
  then show False using assms(3) by (simp add: future_done_def)
qed

section \<open>From a worker's wait to its answer\<close>

abbreviation running_steps :: "batched \<Rightarrow> batched \<Rightarrow> bool" where
  "running_steps \<equiv> (\<lambda>s s'. \<exists>e. e \<noteq> Shutdown \<and> batched_step e s s')\<^sup>*\<^sup>*"

text \<open>The future a worker waits for gets done, with any answer when it was not done yet.\<close>

lemma batch_future_settles:
  assumes "batched_reachable cb n m s" and "sched_alive (bp_sched s)" and "awaiting s w = Some i"
  shows "\<exists>s'. running_steps s s' \<and> bp_pool s' = bp_pool s \<and> awaiting s' = awaiting s \<and>
    sched_alive (bp_sched s') \<and> future_done (bs_futures (bp_sched s')) i \<and>
    evolves (bs_futures (bp_sched s)) (bs_futures (bp_sched s')) \<and>
    (bs_futures (bp_sched s) ! i = Pending \<longrightarrow> bs_futures (bp_sched s') ! i = Resolved ans)"
  using assms
proof (induction "distance (bp_sched s)" arbitrary: s rule: less_induct)
  case less
  note parts = batched_reachable_inv [OF less.prems(1)]
  obtain subs batches where sched: "sched_reachable m subs batches (bp_sched s)" using parts by blast
  note inv = sched_reachable_inv [OF sched]
  have i: "i < length (bs_futures (bp_sched s))" using parts less.prems(3) waits_busy by blast
  show ?case
  proof (cases "bs_futures (bp_sched s) ! i = Pending")
    case False
    then show ?thesis using less.prems(2) i by (intro exI [of _ s]) (simp add: future_done_def)
  next
    case True
    obtain e sc where e: "collector_event e" "sched_step e (bp_sched s) = Some sc"
      "distance sc < distance (bp_sched s)"
      "\<And>k. k < length (bs_futures (bp_sched s)) \<Longrightarrow> bs_futures sc ! k \<in> {bs_futures (bp_sched s) ! k, Resolved ans}"
      using collector_progress [OF less.prems(2) inv pending_is_live [OF inv i True]] by blast
    let ?t = "s\<lparr>bp_sched := sc\<rparr>"
    have step: "batched_step (Collect e) s ?t" by (rule batched_step.collect [OF e(1,2)])
    have "batched_reachable cb n m ?t" by (rule batched_reachable.step [OF less.prems(1) step])
    moreover have "sched_alive (bp_sched ?t)" using alive_collector [OF e(1,2) less.prems(2)] by simp
    ultimately obtain s' where s': "running_steps ?t s'" "bp_pool s' = bp_pool ?t" "awaiting s' = awaiting ?t"
      "sched_alive (bp_sched s')" "future_done (bs_futures (bp_sched s')) i"
      "evolves (bs_futures (bp_sched ?t)) (bs_futures (bp_sched s'))"
      "bs_futures (bp_sched ?t) ! i = Pending \<longrightarrow> bs_futures (bp_sched s') ! i = Resolved ans"
      using less.hyps [of ?t] e(3) less.prems(3) by auto
    note post = collector_step_live [OF e(1,2) sched_live_distinct(1) [OF sched]]
    have "running_steps s s'"
      using converse_rtranclp_into_rtranclp [of "\<lambda>s s'. \<exists>e. e \<noteq> Shutdown \<and> batched_step e s s'", OF _ s'(1)] step
      by blast
    moreover have "bs_futures (bp_sched s') ! i = Resolved ans"
    proof (cases "bs_futures sc ! i = Pending")
      case False
      then have "bs_futures sc ! i = Resolved ans" "future_done (bs_futures sc) i"
        using e(4) [OF i] True i post(1) by (auto simp: future_done_def)
      then show ?thesis using evolves_done [of "bs_futures sc" "bs_futures (bp_sched s')" i] s'(6) by simp
    qed (use s'(7) in simp)
    moreover have "evolves (bs_futures (bp_sched s)) (bs_futures (bp_sched s'))"
      using evolves_trans [OF post(2)] s'(6) by simp
    ultimately show ?thesis using s'(2-5) by (intro exI [of _ s']) simp
  qed
qed

text \<open>A delivered result settles the request's future and frees the worker.\<close>

lemma finish_frees:
  assumes "w < length (workers p)" and "workers p ! w = Busy r j" and "\<And>e. res = Inl e \<Longrightarrow> is_Exception e"
  shows "workers (worker_finish res now w p) ! w = Idle \<and> map_of (pending (worker_finish res now w p)) r = None \<and>
    (\<forall>f. map_of (pending p) r = Some f \<longrightarrow> f < length (futures p) \<longrightarrow> future_done (futures (worker_finish res now w p)) f \<and>
      (futures p ! f = Pending \<longrightarrow> futures (worker_finish res now w p) ! f =
        (case res of Inr ans \<Rightarrow> Resolved ans | Inl e \<Rightarrow> Failed e)))"
  using assms
  by (cases res) (auto simp: worker_finish_def answer_def settle_nth settle_settles delete_conv' split: option.split)

text \<open>What is true of a worker's request once it has been answered.\<close>

definition answered :: "completion pool \<Rightarrow> nat \<Rightarrow> string \<Rightarrow> completion pool \<Rightarrow> bool" where
  "answered p w r p' \<longleftrightarrow> workers p' ! w = Idle \<and> map_of (pending p') r = None \<and>
     (\<forall>f. map_of (pending p) r = Some f \<longrightarrow> future_done (futures p') f)"

definition answered_with :: "completion \<Rightarrow> completion pool \<Rightarrow> string \<Rightarrow> completion pool \<Rightarrow> bool" where
  "answered_with ans p r p' \<longleftrightarrow>
     (\<forall>f. map_of (pending p) r = Some f \<longrightarrow> futures p ! f = Pending \<longrightarrow> futures p' ! f = Resolved ans)"

lemma batched_answers:
  assumes reach: "batched_reachable cb n m s" and alive: "sched_alive (bp_sched s)"
    and w: "w < length (workers (bp_pool s))" "workers (bp_pool s) ! w = Busy r j"
  shows "\<exists>s' i. running_steps s s' \<and> awaiting s w = Some i \<and> answered (bp_pool s) w r (bp_pool s') \<and>
    (bs_futures (bp_sched s) ! i = Pending \<longrightarrow> answered_with ans (bp_pool s) r (bp_pool s'))"
proof -
  note parts = batched_reachable_inv [OF reach]
  obtain i where i: "awaiting s w = Some i" using parts w by (auto simp: waits_inv_def busy_waits_def)
  obtain t where t: "running_steps s t" "bp_pool t = bp_pool s" "awaiting t = awaiting s" "sched_alive (bp_sched t)"
    "future_done (bs_futures (bp_sched t)) i"
    "bs_futures (bp_sched s) ! i = Pending \<longrightarrow> bs_futures (bp_sched t) ! i = Resolved ans"
    using batch_future_settles [OF reach alive i] by blast
  let ?out = "bs_futures (bp_sched t) ! i"
  have "good_outcome ?out" using t(4,5) by (simp add: sched_alive_def good_futures_def future_done_def)
  then obtain res where res: "awaited ?out = Some res" "\<And>e. res = Inl e \<Longrightarrow> is_Exception e"
    "?out = Resolved ans \<Longrightarrow> res = Inr ans"
    using t(5) by (cases ?out) (auto simp: awaited_def future_done_def good_outcome_def)
  let ?s' = "t\<lparr>bp_pool := worker_finish res 0 w (bp_pool t), awaiting := (awaiting t)(w := None)\<rparr>"
  have "batched_finish 0 w t = Some ?s'" using i t(3) res(1) by (simp add: batched_finish_def)
  then have "batched_step (Deliver w 0) t ?s'" by (rule batched_step.deliver)
  then have "running_steps s ?s'"
    using rtranclp.rtrancl_into_rtrancl [of "\<lambda>s s'. \<exists>e. e \<noteq> Shutdown \<and> batched_step e s s'" s t ?s'] t(1) by blast
  moreover have "f < length (futures (bp_pool s))" if "map_of (pending (bp_pool s)) r = Some f" for f
    using parts that pool_reachable_inv map_of_SomeD by (fastforce simp: pool_inv_def)
  ultimately show ?thesis
    using i t(2,6) finish_frees [OF w res(2), where now = 0] res(3)
    by (intro exI [of _ ?s'] exI [of _ i]) (auto simp: answered_def answered_with_def)
qed

section \<open>The same for the service and its executor\<close>

lemma batched_side_set [simp]:
  "batched_side (set_batched b s) = Some b" "set_batched b' (set_batched b s) = set_batched b' s"
  by (simp_all add: batched_side_def set_batched_def)

lemma set_batched_side: "batched_side s = Some b \<Longrightarrow> set_batched b s = s"
  by (auto simp: batched_side_def set_batched_def split: option.splits)

lemma lift_batched:
  assumes "running_steps b b'" and "batched_side s = Some b"
  shows "(\<lambda>s s'. \<exists>t. serving_step t s s')\<^sup>*\<^sup>* s (set_batched b' s)"
  using assms(1)
proof (induction rule: rtranclp_induct)
  case base
  then show ?case by (simp add: set_batched_side [OF assms(2)])
next
  case (step c c')
  then obtain e where "e \<noteq> Shutdown" "batched_step e c c'" by blast
  then have "serving_step (Batched_traffic e) (set_batched c s) (set_batched c' (set_batched c s))"
    by (intro serving_step.batched) simp_all
  then have "\<exists>t. serving_step t (set_batched c s) (set_batched c' s)" by auto
  then show ?case
    using rtranclp.rtrancl_into_rtrancl [of "\<lambda>s s'. \<exists>t. serving_step t s s'" s "set_batched c s" "set_batched c' s"]
      step.IH by blast
qed

text \<open>The inference of a busy worker is still open: no batch result waits to be delivered.\<close>

definition inference_open :: "('g, 'kv) serving \<Rightarrow> nat \<Rightarrow> bool" where
  "inference_open s w \<longleftrightarrow>
     (case sv_scheduler s of
        None \<Rightarrow> True
      | Some sc \<Rightarrow> (case sv_awaiting s w of None \<Rightarrow> False | Some i \<Rightarrow> bs_futures sc ! i = Pending))"

lemma serving_answers:
  assumes reach: "serving_reachable L s" and p: "sv_pool s = Some p"
    and w: "w < length (workers p)" "workers p ! w = Busy r j"
  shows "\<exists>s' p'. (\<lambda>s s'. \<exists>t. serving_step t s s')\<^sup>*\<^sup>* s s' \<and> sv_pool s' = Some p' \<and> answered p w r p' \<and>
    (inference_open s w \<longrightarrow> answered_with ans p r p')"
proof -
  obtain cfg where side: "worker_side_ok cfg s" using serving_reachable_ok [OF reach] by (auto simp: serving_ok_def)
  show ?thesis
  proof (cases "sv_scheduler s")
    case None
    have pool: "pool_reachable (Some (make_breaker cfg)) (cfg_max_concurrent_requests cfg) p"
      using side p None by (simp add: worker_side_ok_def)
    let ?p' = "worker_finish (Inr ans) 0 w p"
    have "serving_step (Pool_traffic (Finish w 0 (Inr ans))) s (s\<lparr>sv_pool := Some ?p'\<rparr>)"
      by (rule serving_step.direct [OF _ None p pool_step.finish [OF w]]) simp
    moreover have "f < length (futures p)" if "map_of (pending p) r = Some f" for f
      using pool_reachable_inv [OF pool] that map_of_SomeD by (fastforce simp: pool_inv_def)
    then have "answered p w r ?p'" "answered_with ans p r ?p'"
      using finish_frees [OF w, where res = "Inr ans" and now = 0]
      by (simp_all add: answered_def answered_with_def del: split_paired_All)
    ultimately show ?thesis by (intro exI [of _ "s\<lparr>sv_pool := Some ?p'\<rparr>"] exI [of _ ?p']) auto
  next
    case (Some sc)
    let ?b = "\<lparr>bp_pool = p, bp_sched = sc, awaiting = sv_awaiting s\<rparr>"
    have b: "batched_side s = Some ?b" using p Some by (simp add: batched_side_def)
    have "batched_reachable (Some (make_breaker cfg)) (cfg_max_concurrent_requests cfg) (cfg_max_batch_size cfg) ?b"
      using side p Some by (simp add: worker_side_ok_def)
    from batched_answers [OF this _ _, of w r j ans] obtain b' i where b': "running_steps ?b b'" "sv_awaiting s w = Some i" "answered p w r (bp_pool b')"
      "bs_futures sc ! i = Pending \<longrightarrow> answered_with ans p r (bp_pool b')"
      using alive_serving [OF reach Some] w by fastforce
    have "(\<lambda>s s'. \<exists>t. serving_step t s s')\<^sup>*\<^sup>* s (set_batched b' s)" by (rule lift_batched [OF b'(1) b])
    then show ?thesis
      using b'(2-4) Some
      by (intro exI [of _ "set_batched b' s"] exI [of _ "bp_pool b'"]) (simp add: set_batched_def inference_open_def)
  qed
qed

section \<open>Properties\<close>

text \<open>C14: No request is stuck: from every state of the running service with its executor, with or
  without batching and whatever streams occupy the threads, a request in a worker's hands can be
  answered: some steps later its future is done, it is out of the registry and the worker is
  idle; and as long as no batch result waits for it, any answer of the model can be the one that
  its future gets.\<close>

theorem request_in_work_can_be_answered:
  assumes "executed_reachable L X" and "sv_pool (xs_serving X) = Some p"
    and "w < length (workers p)" and "workers p ! w = Busy r j"
  shows "\<exists>X' p'. executed_steps X X' \<and> sv_pool (xs_serving X') = Some p' \<and>
    workers p' ! w = Idle \<and> map_of (pending p') r = None \<and>
    (\<forall>f. map_of (pending p) r = Some f \<longrightarrow> future_done (futures p') f \<and>
      (inference_open (xs_serving X) w \<and> futures p ! f = Pending \<longrightarrow> futures p' ! f = Resolved ans))"
proof -
  note ok = executed_reachable_ok [OF assms(1)]
  then have "serving_reachable L (xs_serving X)" by (simp add: executed_ok_def)
  from serving_answers [OF this assms(2-4), of ans] obtain s' p' where s':
    "(\<lambda>s s'. \<exists>t. serving_step t s s')\<^sup>*\<^sup>* (xs_serving X) s'" "sv_pool s' = Some p'" "answered p w r p'"
    "inference_open (xs_serving X) w \<longrightarrow> answered_with ans p r p'" by blast
  obtain X' where "executed_steps X X'" "xs_serving X' = s'" using executed.conc_steps [OF s'(1) ok] by blast
  then show ?thesis using s'(2-4) by (intro exI [of _ X'] exI [of _ p']) (auto simp: answered_def answered_with_def)
qed

text \<open>A service without batching whose only worker has taken a request.\<close>

abbreviation "lone_cfg \<equiv> default_settings\<lparr>cfg_batching_enabled := False\<rparr>"
abbreviation "lone_libs \<equiv> demo_libs lone_cfg (Inl CancelledError)"

lemma busy_service:
  "\<exists>X p j. executed_reachable lone_libs X \<and> sv_pool (xs_serving X) = Some p \<and>
     0 < length (workers p) \<and> workers p ! 0 = Busy ''r1'' j"
proof -
  have "\<exists>s. startup lone_libs (serving_init demo_log) = (Inr (), s)"
    by (simp add: start_defs demo_libs_def default_settings_def serving_init_def bind_def Let_def
        get_settings_def setup_logging_def log_level_of_info load_model_def manager_init_def connect_def
        redis_client_init_def tracker_init_def default_mem_config_def visible_device_def register_signals_def)
  then obtain s where st: "startup lone_libs (serving_init demo_log) = (Inr (), s)" by blast
  let ?p0 = "pool_start 1 (pool_init (Some (make_breaker lone_cfg))) :: completion pool"
  have s: "sv_scheduler s = None" "sv_pool s = Some ?p0"
    using startup_Inr [OF st] by (auto simp: demo_libs_def default_settings_def)
  let ?p1 = "snd (register_request ''r1'' ?p0)"
  let ?item = "[(''request_id'', JStr ''r1'')]"
  let ?p2 = "fst (worker_poll (\<lambda>z. (Inr (Some ?item), z)) 0 0 ?p1 ())"
  have "serving_step (Pool_traffic (Register ''r1'')) s (s\<lparr>sv_pool := Some ?p1\<rparr>)"
    by (rule serving_step.direct [OF _ s pool_step.register]) simp
  moreover have "serving_step (Pool_traffic (Poll 0 0 (Inr (Some ?item)))) (s\<lparr>sv_pool := Some ?p1\<rparr>)
      (s\<lparr>sv_pool := Some ?p1, sv_pool := Some ?p2\<rparr>)"
    by (rule serving_step.direct [OF _ _ _ pool_step.poll])
      (simp_all add: s register_request_def create_future_def pool_start_def pool_init_def)
  ultimately have "serving_reachable lone_libs (s\<lparr>sv_pool := Some ?p1, sv_pool := Some ?p2\<rparr>)"
    by (blast intro: serving_reachable.step serving_reachable.init [OF st])
  then have "serving_reachable lone_libs (s\<lparr>sv_pool := Some ?p2\<rparr>)" by simp
  then obtain X where "executed_reachable lone_libs X" "xs_serving X = s\<lparr>sv_pool := Some ?p2\<rparr>"
    unfolding reachable_as_steps using executed.same_states [of lone_libs "s\<lparr>sv_pool := Some ?p2\<rparr>"] by blast
  moreover have "0 < length (workers ?p2) \<and> (\<exists>j. workers ?p2 ! 0 = Busy ''r1'' j)"
    by (simp add: worker_poll_def known_request_def item_get_def register_request_def create_future_def
        pool_start_def pool_init_def make_breaker_def breaker_init_def allow_request_def state_property_def Let_def)
  ultimately show ?thesis by (intro exI [of _ X] exI [of _ ?p2]) auto
qed

lemma request_in_work_can_be_answered_witness:
  "\<exists>X X' p'. executed_reachable lone_libs X \<and> executed_steps X X' \<and> sv_pool (xs_serving X') = Some p' \<and>
     workers p' ! 0 = Idle"
proof -
  obtain X p j where X: "executed_reachable lone_libs X" "sv_pool (xs_serving X) = Some p"
    "0 < length (workers p)" "workers p ! 0 = Busy ''r1'' j" using busy_service by blast
  from request_in_work_can_be_answered [OF X] X(1) show ?thesis by blast
qed

end
