(* ===== verification/Completion.thy ===== *)
theory Completion
  imports Service Progress
begin

text \<open>
  One completion through the parts: what the route enqueues is what the worker reads, what the
  inference returns is what the client gets.  The wait of the route is a parameter of \<open>Service\<close>;
  here it is filled with what happens in the meantime, \<open>worker_answers\<close> without batching and
  \<open>batch_answers\<close> with it.
\<close>

section \<open>A completion from request to response\<close>

lemma enqueued_item:
  assumes env: "queue_env ops key view dumps loads" and cl: "redis_open cl" and z: "view z = Map.empty"
  shows "\<exists>z1 z2. enqueue ops dumps cl key r p payload now z = (Inr 1, z1) \<and>
    dequeue ops loads cl key z1 = (Inr (Some (make_item r p now payload)), z2) \<and> view z2 = Map.empty"
proof -
  let ?d = "make_item r p now payload"
  obtain z1 where z1: "enqueue ops dumps cl key r p payload now z =
      (Inr (card (dom (view z1))), z1)" "view z1 = [dumps ?d \<mapsto> compute_score p now]"
    using redis_zset.enqueue_view [OF queue_env.axioms(1) [OF env] cl] z by metis
  then show ?thesis using queue_env.dequeue_only [OF env cl z1(2)] by auto
qed

text \<open>The worker reads from the item what the router put in.\<close>

lemma job_of_request:
  "job_of (make_item r p now (request_payload body)) =
    \<lparr>job_prompt = JStr (cr_prompt body), job_max_tokens = JInt (cr_max_tokens body),
     job_temperature = JFloat (cr_temperature body),
     job_seed = (case cr_seed body of None \<Rightarrow> JNull | Some s \<Rightarrow> JInt s)\<rparr>"
  "map_of (make_item r p now (request_payload body)) ''request_id'' = Some (JStr r)"
  by (simp_all add: job_of_def item_get_def make_item_def request_payload_def)

text \<open>With batching on the worker finds the values typed, and submits exactly them.\<close>

lemma routed_item_typed:
  "batch_item_of r (job_of (make_item r p now (request_payload body))) =
    Some \<lparr>bi_request_id = r, bi_prompt = cr_prompt body, bi_max_tokens = cr_max_tokens body,
          bi_temperature = cr_temperature body, bi_seed = cr_seed body\<rparr>"
  by (simp add: batch_item_of_def job_of_request split: option.split)

lemma completion_run:
  assumes "queue_env ops key view dumps loads" and "redis_open cl" and "view z = Map.empty"
    and "running pool" and "w < length (workers pool)"
    and "r \<noteq> ''''" and "r \<notin> set (keys (pending pool))"
    and "\<And>b. circuit_breaker pool = Some b \<Longrightarrow> state_property now' b = circuit_state.CLOSED"
    and "\<not> cr_stream body" and "admit \<noteq> Some False"
    and "create_completion True admit r (\<lambda>rid p d. enqueue ops dumps cl key rid p d now) body pool z =
      (started, pool1, z1)"
    and "worker_poll (dequeue ops loads cl key) now' w pool1 z1 = (pool2, z2)"
    and "worker_finish (Inr (text, prompt_tokens, completion_tokens)) now'' w pool2 = pool3"
  shows "\<exists>f. started = Inr (Awaiting r f) \<and>
    workers pool2 ! w = Busy r \<lparr>job_prompt = JStr (cr_prompt body), job_max_tokens = JInt (cr_max_tokens body),
      job_temperature = JFloat (cr_temperature body),
      job_seed = (case cr_seed body of None \<Rightarrow> JNull | Some s \<Rightarrow> JInt s)\<rparr> \<and>
    view z2 = Map.empty \<and> r \<notin> set (keys (pending pool3)) \<and>
    fst (finish_completion model timeout_s r (waited_of (futures pool3 ! f)) pool3) =
      ok (Completion_body r model text prompt_tokens completion_tokens (prompt_tokens + completion_tokens))"
proof -
  let ?item = "make_item r (cr_priority body) now (request_payload body)"
  obtain za zb where q: "enqueue ops dumps cl key r (cr_priority body) (request_payload body) now z = (Inr 1, za)"
    "dequeue ops loads cl key za = (Inr (Some ?item), zb)" "view zb = Map.empty"
    using enqueued_item [OF assms(1-3)] by blast
  obtain f pool' where reg: "register_request r pool = (f, pool')" by force
  note fresh = register_request_fresh [OF reg]
  have start: "started = Inr (Awaiting r f)" "pool1 = pool'" "z1 = za"
    using assms(9-11) reg q(1) by (auto simp: create_completion_def)
  have known: "known_request pool1 ?item = Some r"
    using assms(6,7) by (simp add: known_request_def item_get_def job_of_request start fresh update_fresh)
  have "(case circuit_breaker pool1 of None \<Rightarrow> (True, None)
      | Some b \<Rightarrow> map_prod id Some (allow_request now' b)) = (True, circuit_breaker pool1)"
    using assms(8) by (auto simp: start fresh allow_request_def Let_def split: option.split)
  moreover have same: "pool'\<lparr>circuit_breaker := circuit_breaker pool\<rparr> = pool'"
    by (simp add: fresh(6) [symmetric])
  ultimately have busy: "pool2 = pool1\<lparr>workers := (workers pool1)[w := Busy r (job_of ?item)]\<rparr>" "z2 = zb"
    using assms(4,12) q(2) known same by (auto simp: worker_poll_def start fresh)
  have pend: "map_of (pending pool2) r = Some f" "f < length (futures pool2)" "futures pool2 ! f = Pending"
    "w < length (workers pool2)" "workers pool2 ! w = Busy r (job_of ?item)"
    using assms(5) by (simp_all add: busy start fresh update_conv')
  then have "futures pool3 ! f = Resolved (text, prompt_tokens, completion_tokens)"
    "r \<notin> set (keys (pending pool3))"
    using assms(13) by (auto simp: worker_finish_def answer_def settle_nth keys_delete)
  then show ?thesis
    using start(1) pend(5) q(3) busy(2) by (simp add: job_of_request waited_of_def finish_completion_def)
qed
section \<open>While the request waits\<close>

text \<open>
  What happens while the request waits, when batching is off: worker \<open>w\<close> polls the queue, its
  inference ends with \<open>res\<close>, and the future it settled is the one awaited.
\<close>

definition worker_answers :: "('z, 'm) zset_ops \<Rightarrow> ('m \<Rightarrow> item result) \<Rightarrow> float \<Rightarrow> nat \<Rightarrow> completion result \<Rightarrow>
    nat \<Rightarrow> ('g, 'kv) serving \<times> 'z \<Rightarrow> waited \<times> ('g, 'kv) serving \<times> 'z" where
  "worker_answers ops loads now w res f = (\<lambda>(s, z).
     case (sv_redis s, sv_pool s) of
       (Some cl, Some p) \<Rightarrow>
         (let (p, z) = worker_poll (dequeue ops loads cl ''inference_queue'') now w p z;
              p = worker_finish res now w p
          in (waited_of (futures p ! f), (s\<lparr>sv_pool := Some p\<rparr>, z)))
     | _ \<Rightarrow> (Timed_out_waiting, (s, z)))"

text \<open>
  With batching on: the worker polls and submits, the collector takes the item, closes the batch
  and forwards it, the model returns \<open>results\<close>, and the worker resumes.
\<close>

fun sched_steps :: "sched_event list \<Rightarrow> scheduler \<Rightarrow> scheduler option" where
  "sched_steps [] s = Some s"
| "sched_steps (e # es) s = (case sched_step e s of None \<Rightarrow> None | Some s \<Rightarrow> sched_steps es s)"

definition batch_answers :: "('z, 'm) zset_ops \<Rightarrow> ('m \<Rightarrow> item result) \<Rightarrow> float \<Rightarrow> nat \<Rightarrow> completion list result \<Rightarrow>
    nat \<Rightarrow> ('g, 'kv) serving \<times> 'z \<Rightarrow> waited \<times> ('g, 'kv) serving \<times> 'z" where
  "batch_answers ops loads now w results f = (\<lambda>(s, z).
     case (sv_redis s, batched_side s) of
       (Some cl, Some b) \<Rightarrow>
         (let (item, z) = dequeue ops loads cl ''inference_queue'' z in
          case batched_poll item now w b of
            None \<Rightarrow> (Timed_out_waiting, (s, z))
          | Some b \<Rightarrow>
              (case sched_steps [First, Close, Process results] (bp_sched b) of
                 None \<Rightarrow> (Timed_out_waiting, (set_batched b s, z))
               | Some sc \<Rightarrow>
                   (case batched_finish now w (b\<lparr>bp_sched := sc\<rparr>) of
                      None \<Rightarrow> (Timed_out_waiting, (set_batched (b\<lparr>bp_sched := sc\<rparr>) s, z))
                    | Some b \<Rightarrow> (waited_of (futures (bp_pool b) ! f), (set_batched b s, z)))))
     | _ \<Rightarrow> (Timed_out_waiting, (s, z)))"

definition request_meanwhile :: "('z, 'm) zset_ops \<Rightarrow> ('m \<Rightarrow> item result) \<Rightarrow> float \<Rightarrow> nat \<Rightarrow> completion \<Rightarrow>
    nat \<Rightarrow> ('g, 'kv) serving \<times> 'z \<Rightarrow> waited \<times> ('g, 'kv) serving \<times> 'z" where
  "request_meanwhile ops loads now w ans f st =
     (case sv_scheduler (fst st) of
        None \<Rightarrow> worker_answers ops loads now w (Inr ans) f st
      | Some sc \<Rightarrow> batch_answers ops loads now w (Inr [ans]) f st)"

text \<open>One item alone in an idle collector comes back with its result.\<close>

lemma lone_batch:
  assumes "bs_running sc" and "bs_phase sc = Waiting" and "bs_queue sc = []"
  shows "\<exists>sc'. sched_steps [First, Close, Process (Inr [ans])] (snd (submit item sc)) = Some sc' \<and>
    bs_futures sc' ! length (bs_futures sc) = Resolved ans"
  using assms
  by (simp add: submit_def create_future_def collect_first_def close_batch_def process_batch_def settle_nth)

lemma worker_poll_result:
  "deq z = (res, z') \<Longrightarrow> worker_poll deq now w p z =
    (fst (worker_poll (\<lambda>z. (res, z)) now w p ()), if running p then z' else z)"
  by (auto simp: worker_poll_def Let_def split: sum.splits option.splits prod.splits)

text \<open>Either way the awaited future is the one that the worker's end settles.\<close>

lemma meanwhile_answers:
  assumes redis: "sv_redis s = Some cl" and pool: "sv_pool s = Some p" "running p"
    and poll: "worker_poll (dequeue ops loads cl ''inference_queue'') now w p z = (p', z')"
    and busy: "w < length (workers p')" "workers p' ! w = Busy r j" and item: "batch_item_of r j = Some item"
    and sched: "\<And>sc. sv_scheduler s = Some sc \<Longrightarrow> bs_running sc \<and> bs_phase sc = Waiting \<and> bs_queue sc = []"
  shows "\<exists>s'. request_meanwhile ops loads now w ans f (s, z) =
      (waited_of (futures (worker_finish (Inr ans) now w p') ! f), (s', z')) \<and>
    sv_pool s' = Some (worker_finish (Inr ans) now w p')"
proof (cases "sv_scheduler s")
  case None
  then show ?thesis
    using redis pool poll by (simp add: request_meanwhile_def worker_answers_def Let_def)
next
  case (Some sc)
  obtain res y where deq: "dequeue ops loads cl ''inference_queue'' z = (res, y)" by force
  have p': "fst (worker_poll (\<lambda>z. (res, z)) now w p ()) = p'" and y: "y = z'"
    using poll worker_poll_result [of "dequeue ops loads cl ''inference_queue''" z res y now w p] deq pool(2) by auto
  let ?b = "\<lparr>bp_pool = p, bp_sched = sc, awaiting = sv_awaiting s\<rparr>"
  let ?N = "length (bs_futures sc)"
  have b: "batched_side s = Some ?b" using pool Some by (simp add: batched_side_def)
  have "batched_poll res now w ?b = Some \<lparr>bp_pool = p', bp_sched = snd (submit item sc),
      awaiting = (sv_awaiting s)(w := Some ?N)\<rparr>"
    using busy(2) item p' by (simp add: batched_poll_def submit_def create_future_def)
  moreover obtain sc' where sc': "sched_steps [First, Close, Process (Inr [ans])] (snd (submit item sc)) = Some sc'"
    "bs_futures sc' ! ?N = Resolved ans"
    using lone_batch sched [OF Some] by blast
  moreover have "batched_finish now w \<lparr>bp_pool = p', bp_sched = sc', awaiting = (sv_awaiting s)(w := Some ?N)\<rparr> =
      Some \<lparr>bp_pool = worker_finish (Inr ans) now w p', bp_sched = sc', awaiting = (sv_awaiting s)(w := None)\<rparr>"
    using sc'(2) by (simp add: batched_finish_def awaited_def)
  ultimately show ?thesis
    using Some redis b deq y
    by (simp del: sched_steps.simps add: request_meanwhile_def batch_answers_def set_batched_def)
qed

lemma create_completion_workers:
  "create_completion loaded admit r enq body p z = (res, p', z') \<Longrightarrow>
    workers p' = workers p \<and> running p' = running p"
  by (auto simp: create_completion_def register_request_def create_future_def Let_def
      split: if_splits prod.splits sum.splits)

lemma consume_fields:
  assumes "consume V k (s, z) = (res, (s', z'))"
  shows "sv_manager s' = sv_manager s" "sv_executor s' = sv_executor s" "sv_redis s' = sv_redis s"
    "sv_pool s' = sv_pool s" "sv_settings s' = sv_settings s" "sv_tracker s' = sv_tracker s"
    "sv_pressure s' = sv_pressure s" "sv_scheduler s' = sv_scheduler s"
  using assms by (auto simp: consume_def Let_def split: option.splits prod.splits)

lemma admission_fields:
  assumes "admission dev loaded s = (a, s')"
  shows "sv_pool s' = sv_pool s" "sv_redis s' = sv_redis s" "sv_scheduler s' = sv_scheduler s"
  using assms by (auto simp: admission_def Let_def split: option.splits prod.splits if_splits)

lemma admission_cong:
  "sv_tracker s' = sv_tracker s \<Longrightarrow> sv_pressure s' = sv_pressure s \<Longrightarrow>
   fst (admission dev loaded s') = fst (admission dev loaded s)"
  by (auto simp: admission_def Let_def split: option.splits prod.splits)

text \<open>The route's part of it: from the handler's call to its answer.\<close>

lemma complete_answers:
  assumes "queue_env (env_zset V) ''inference_queue'' view (env_dumps V) loads" and "view z = Map.empty"
    and "sv_redis s = Some cl" and "redis_open cl" and "sv_pool s = Some pool"
    and "running pool" and "w < length (workers pool)"
    and "env_uuid V \<noteq> ''''" and "env_uuid V \<notin> set (keys (pending pool))"
    and "\<And>b. circuit_breaker pool = Some b \<Longrightarrow> state_property now b = circuit_state.CLOSED"
    and "\<not> cr_stream body" and "fst (admission (env_device V) True s) \<noteq> Some False"
    and "env_meanwhile V = request_meanwhile (env_zset V) loads now w (text, p, c)"
    and "is_loaded m"
    and sched: "\<And>sc. sv_scheduler s = Some sc \<Longrightarrow> bs_running sc \<and> bs_phase sc = Waiting \<and> bs_queue sc = []"
  shows "\<exists>st. complete V body m cl ''inference_queue'' pool name (s, z) =
    (Inr (ok (Completion_body (env_uuid V) name text p c (p + c))), st)"
proof -
  obtain admit s1 where adm: "admission (env_device V) True s = (admit, s1)" by force
  note s1 = admission_fields [OF adm]
  obtain started pool1 z1 where cc: "create_completion True admit (env_uuid V)
      (\<lambda>rid p d. enqueue (env_zset V) (env_dumps V) cl ''inference_queue'' rid p d (env_time V)) body pool z =
      (started, pool1, z1)" by (metis prod_cases3)
  note kept = create_completion_workers [OF cc]
  obtain pool2 z2 where poll: "worker_poll (dequeue (env_zset V) loads cl ''inference_queue'') now w pool1 z1 =
      (pool2, z2)" by force
  have w: "w < length (workers pool2)"
    using poll_running_workers(1) [of w pool1 "dequeue (env_zset V) loads cl ''inference_queue''" now z1]
      assms(7) kept poll by simp
  let ?pool3 = "worker_finish (Inr (text, p, c)) now w pool2"
  have "admit \<noteq> Some False" using assms(12) adm by simp
  from completion_run [OF assms(1,4,2,6-11) this cc poll refl, where model = name and timeout_s = "env_timeout_text V"]
  obtain f where f: "started = Inr (Awaiting (env_uuid V) f)"
    "workers pool2 ! w = Busy (env_uuid V) (job_of (make_item (env_uuid V) 0 0 (request_payload body)))"
    "fst (finish_completion name (env_timeout_text V) (env_uuid V) (waited_of (futures ?pool3 ! f)) ?pool3) =
      ok (Completion_body (env_uuid V) name text p c (p + c))"
    unfolding job_of_request by blast
  obtain pool4 where fin: "finish_completion name (env_timeout_text V) (env_uuid V) (waited_of (futures ?pool3 ! f)) ?pool3 =
      (ok (Completion_body (env_uuid V) name text p c (p + c)), pool4)"
    using f(3) by (metis prod.collapse)
  obtain s3 where "env_meanwhile V f (s1\<lparr>sv_pool := Some pool1\<rparr>, z1) =
      (waited_of (futures ?pool3 ! f), s3, z2)" "sv_pool s3 = Some ?pool3"
    using meanwhile_answers [of "s1\<lparr>sv_pool := Some pool1\<rparr>", OF _ _ _ poll w f(2) routed_item_typed,
        where ans = "(text, p, c)" and f = f]
      assms(3,6,13) s1 sched kept by auto
  then show ?thesis
    using adm cc f(1) fin assms(14) by (simp add: complete_def)
qed

end
