(* ===== verification/Queue_Service.thy ===== *)
theory Queue_Service
  imports Completion
begin

text \<open>
  A worker against the queue: what a worker that keeps polling (\<^verbatim>\<open>core/worker.py\<close>, batching off)
  makes of the requests in Redis (\<^verbatim>\<open>queue/priority_queue.py\<close>).
\<close>

section \<open>Rounds of a worker\<close>

text \<open>A round is a poll, at a time, and the end of the inference if one was started.\<close>

type_synonym 'r round = "float \<times> 'r result \<times> float"

fun worker_rounds :: "('z, 'm) zset_ops \<Rightarrow> ('m \<Rightarrow> item result) \<Rightarrow> redis_client \<Rightarrow> string \<Rightarrow> nat \<Rightarrow>
    'r round list \<Rightarrow> 'r pool \<Rightarrow> 'z \<Rightarrow> 'r pool \<times> 'z" where
  "worker_rounds ops loads cl key w [] p z = (p, z)"
| "worker_rounds ops loads cl key w ((now, res, now') # rounds) p z =
     (let (p, z) = worker_poll (dequeue ops loads cl key) now w p z
      in worker_rounds ops loads cl key w rounds (worker_finish res now' w p) z)"

definition returns_normally :: "'r round \<Rightarrow> bool" where
  "returns_normally x \<longleftrightarrow> (case fst (snd x) of Inl e \<Rightarrow> is_Exception e | Inr r \<Rightarrow> True)"

text \<open>The worker is there, idle, and the pool runs; the registry points to futures that exist.\<close>

definition ready_worker :: "nat \<Rightarrow> 'r pool \<Rightarrow> bool" where
  "ready_worker w p \<longleftrightarrow> running p \<and> w < length (workers p) \<and> workers p ! w = Idle \<and>
     (\<forall>r f. map_of (pending p) r = Some f \<longrightarrow> f < length (futures p))"

text \<open>
  What a step may do to the registry and the futures: requests leave it, and then their futures are
  done.
\<close>

definition serves :: "'r pool \<Rightarrow> 'r pool \<Rightarrow> bool" where
  "serves p p' \<longleftrightarrow> evolves (futures p) (futures p') \<and>
     (\<forall>r f. map_of (pending p) r = Some f \<longrightarrow>
        map_of (pending p') r = Some f \<or> map_of (pending p') r = None \<and> future_done (futures p') f) \<and>
     (\<forall>r. map_of (pending p) r = None \<longrightarrow> map_of (pending p') r = None)"

lemma serves_refl: "serves p p"
  by (simp add: serves_def)

lemma serves_trans: "serves p p' \<Longrightarrow> serves p' p'' \<Longrightarrow> serves p p''"
  unfolding serves_def by (meson evolves_done evolves_trans)

lemma serves_answer:
  assumes "\<forall>r f. map_of (pending p) r = Some f \<longrightarrow> f < length (futures p)" and "out \<noteq> Pending"
  shows "serves p (answer r out p)" and "map_of (pending (answer r out p)) r = None"
  using assms
  by (auto simp: serves_def answer_def evolves_settle settle_settles delete_conv' split: option.splits)

lemma serves_fields:
  "serves p p' \<Longrightarrow> pending q = pending p' \<Longrightarrow> futures q = futures p' \<Longrightarrow> serves p q"
  "serves p p' \<Longrightarrow> pending q = pending p \<Longrightarrow> futures q = futures p \<Longrightarrow> serves q p'"
  by (simp_all add: serves_def)

text \<open>One round on an item.\<close>

lemma worker_round:
  fixes now now' :: float
  assumes ready: "ready_worker w p" and res: "\<And>e. res = Inl e \<Longrightarrow> is_Exception e"
    and deq: "deq z = (Inr (Some d), z')"
  defines "p' \<equiv> worker_finish res now' w (fst (worker_poll deq now w p z))"
  shows "snd (worker_poll deq now w p z) = z'" and "serves p p'"
    and "known_request p d = Some r \<Longrightarrow> map_of (pending p') r = None"
    and "running p' \<and> w < length (workers p') \<and> workers p' ! w = Idle"
proof -
  have run: "running p" "w < length (workers p)" "workers p ! w = Idle"
    and range: "\<forall>r f. map_of (pending p) r = Some f \<longrightarrow> f < length (futures p)"
    using ready by (auto simp: ready_worker_def)
  show "snd (worker_poll deq now w p z) = z'"
    using run(1) deq by (auto simp: worker_poll_def Let_def split: option.splits prod.splits)
  have "serves p p' \<and> (\<forall>r. known_request p d = Some r \<longrightarrow> map_of (pending p') r = None) \<and>
    running p' \<and> w < length (workers p') \<and> workers p' ! w = Idle"
  proof (cases "known_request p d")
    case None
    then have "p' = p" using run deq by (simp add: p'_def worker_poll_def worker_finish_def)
    then show ?thesis using run None by (simp add: serves_refl)
  next
    case (Some r0)
    obtain allowed cb where ask: "(case circuit_breaker p of None \<Rightarrow> (True, None)
        | Some b \<Rightarrow> map_prod id Some (allow_request now b)) = (allowed, cb)" by fastforce
    let ?p = "p\<lparr>circuit_breaker := cb\<rparr>"
    show ?thesis
    proof (cases allowed)
      case False
      then have "fst (worker_poll deq now w p z) = answer r0 (Failed CircuitOpenError) ?p"
        using run(1) deq Some ask by (simp add: worker_poll_def)
      then have "p' = answer r0 (Failed CircuitOpenError) ?p"
        using run(3) by (simp add: p'_def worker_finish_def)
      then show ?thesis
        using serves_answer [of ?p "Failed CircuitOpenError" r0] range run Some serves_fields(2) [of ?p _ p] by auto
    next
      case True
      let ?q = "?p\<lparr>workers := (workers p)[w := Busy r0 (job_of d)]\<rparr>"
      have "fst (worker_poll deq now w p z) = ?q"
        using True run(1) deq Some ask by (simp add: worker_poll_def)
      then obtain q out where q: "p' = answer r0 out q" "out \<noteq> Pending" "pending q = pending p" "futures q = futures p"
        "workers q = (workers p)[w := Idle]" "running q"
        using res run by (cases res) (auto simp: p'_def worker_finish_def)
      then show ?thesis
        using serves_answer [of q out r0] range run Some serves_fields(2) [of q _ p] by auto
    qed
  qed
  then show "serves p p'" "known_request p d = Some r \<Longrightarrow> map_of (pending p') r = None"
    "running p' \<and> w < length (workers p') \<and> workers p' ! w = Idle" by blast+
qed

lemma serves_ready:
  assumes "serves p p'" and "ready_worker w p" and "running p' \<and> w < length (workers p') \<and> workers p' ! w = Idle"
  shows "ready_worker w p'"
proof -
  have "f < length (futures p')" if "map_of (pending p') r = Some f" for r f
    using assms(1,2) that unfolding serves_def ready_worker_def evolves_def
    by (metis not_None_eq option.inject option.distinct(1) less_le_trans)
  then show ?thesis using assms(3) by (auto simp: ready_worker_def)
qed

lemma known_request_iff:
  "known_request p d = Some r \<longleftrightarrow>
     item_get d ''request_id'' JNull = JStr r \<and> r \<noteq> '''' \<and> map_of (pending p) r \<noteq> None"
proof -
  have "r \<in> set (keys (pending p)) \<longleftrightarrow> map_of (pending p) r \<noteq> None" for r
    by (simp only: map_of_eq_None_iff set_map not_not)
  then show ?thesis by (auto simp: known_request_def simp del: set_map split: json.splits)
qed

section \<open>The queue is served\<close>

text \<open>What is to be shown of an item: if its request waits, it is answered.\<close>

definition item_answered :: "'r pool \<Rightarrow> 'r pool \<Rightarrow> item \<Rightarrow> bool" where
  "item_answered p p' d \<longleftrightarrow> (\<forall>r f. known_request p d = Some r \<and> map_of (pending p) r = Some f \<longrightarrow>
     map_of (pending p') r = None \<and> future_done (futures p') f)"

lemma serves_item:
  assumes "serves p p'" and "serves p' p''" and "item_answered p' p'' d"
  shows "item_answered p p'' d"
  unfolding item_answered_def
proof (intro allI impI)
  fix r f assume r: "known_request p d = Some r \<and> map_of (pending p) r = Some f"
  show "map_of (pending p'') r = None \<and> future_done (futures p'') f"
  proof (cases "map_of (pending p') r = Some f")
    case True
    then have "known_request p' d = Some r" using r by (simp add: known_request_iff)
    then show ?thesis using assms(3) True by (auto simp: item_answered_def)
  next
    case False
    then have "map_of (pending p') r = None \<and> future_done (futures p') f" using assms(1) r by (auto simp: serves_def)
    then show ?thesis using assms(2) unfolding serves_def by (meson evolves_done)
  qed
qed

lemma worker_rounds_serve:
  assumes env: "queue_env ops key view dumps loads" and cl: "redis_open cl"
    and "ready_worker w p" and "\<And>m. m \<in> dom (view z) \<Longrightarrow> \<exists>d. m = dumps d"
    and "card (dom (view z)) \<le> length rounds" and "\<forall>x\<in>set rounds. returns_normally x"
    and "worker_rounds ops loads cl key w rounds p z = (p', z')"
  shows "serves p p' \<and> view z' = Map.empty \<and> workers p' ! w = Idle \<and>
    (\<forall>d s. view z (dumps d) = Some s \<longrightarrow> item_answered p p' d)"
  using assms(3-)
proof (induction rounds arbitrary: p z)
  case Nil
  have "finite (dom (view z))" using redis_zset.finite_view [OF queue_env.axioms(1) [OF env]] .
  then have "view z = Map.empty" using Nil.prems(3) by auto
  then show ?case using Nil.prems by (simp add: serves_refl ready_worker_def)
next
  case (Cons x rounds)
  obtain now res now' where x: "x = (now, res, now')" by (cases x)
  have res: "is_Exception e" if "res = Inl e" for e
    using Cons.prems(4) that by (auto simp: x returns_normally_def)
  have w: "running p" "workers p ! w = Idle" using Cons.prems(1) by (auto simp: ready_worker_def)
  show ?case
  proof (cases "view z = Map.empty")
    case True
    obtain z1 where z1: "dequeue ops loads cl key z = (Inr None, z1)" "view z1 = Map.empty"
      using redis_zset.dequeue_empty [OF queue_env.axioms(1) [OF env] cl True] by blast
    then have "worker_rounds ops loads cl key w rounds p z1 = (p', z')"
      using Cons.prems(5) w by (simp add: x worker_poll_def worker_finish_def)
    then show ?thesis
      using Cons.IH [of p z1] Cons.prems(1,4) z1(2) True by simp
  next
    case False
    then obtain m s0 where m: "view z m = Some s0" by fastforce
    then obtain d0 where "view z (dumps d0) = Some s0" using Cons.prems(2) by blast
    from queue_env.dequeue_first [OF env cl this Cons.prems(2)]
    obtain d s z1 where d: "dequeue ops loads cl key z = (Inr (Some d), z1)" "view z (dumps d) = Some s"
      "view z1 = (view z)(dumps d := None)" by metis
    let ?p1 = "worker_finish res now' w (fst (worker_poll (dequeue ops loads cl key) now w p z))"
    note round = worker_round [where deq = "dequeue ops loads cl key" and z = z]
    have poll: "snd (worker_poll (dequeue ops loads cl key) now w p z) = z1"
      by (rule round(1) [OF Cons.prems(1) res d(1)])
    have sv: "serves p ?p1" by (rule round(2) [OF Cons.prems(1) res d(1)])
    have gone: "known_request p d = Some r \<Longrightarrow> map_of (pending ?p1) r = None" for r
      by (rule round(3) [OF Cons.prems(1) res d(1)])
    have ready: "ready_worker w ?p1"
      by (rule serves_ready [OF sv Cons.prems(1) round(4) [OF Cons.prems(1) res d(1)]])
    have rest: "worker_rounds ops loads cl key w rounds ?p1 z1 = (p', z')"
      using Cons.prems(5) poll by (simp add: x case_prod_unfold Let_def)
    have members: "\<exists>d. m = dumps d" if "m \<in> dom (view z1)" for m
      using that d(3) Cons.prems(2) by (auto split: if_splits)
    have "dom (view z1) = dom (view z) - {dumps d}" by (auto simp: d(3))
    moreover have "finite (dom (view z))" using redis_zset.finite_view [OF queue_env.axioms(1) [OF env]] .
    moreover have "dumps d \<in> dom (view z)" using d(2) by blast
    ultimately have "card (dom (view z1)) < card (dom (view z))" by (metis card_Diff1_less)
    then have "card (dom (view z1)) \<le> length rounds" using Cons.prems(3) by simp
    with Cons.IH [OF ready members _ _ rest] Cons.prems(4)
    have post: "serves ?p1 p'" "view z' = Map.empty" "workers p' ! w = Idle"
      "\<And>d s. view z1 (dumps d) = Some s \<Longrightarrow> item_answered ?p1 p' d" by auto
    have "item_answered p p' c" if c: "view z (dumps c) = Some s'" for c s'
    proof (cases "dumps c = dumps d")
      case True
      then have "c = d" using json_codec.dumps_inject [OF queue_env.axioms(2) [OF env]] by simp
      have "item_answered ?p1 p' d"
        unfolding item_answered_def
      proof (intro allI impI)
        fix r f assume r: "known_request ?p1 d = Some r \<and> map_of (pending ?p1) r = Some f"
        then have "known_request p d = Some r"
          using sv by (auto simp: known_request_iff serves_def)
        then show "map_of (pending p') r = None \<and> future_done (futures p') f" using gone r by simp
      qed
      then show ?thesis using serves_item [OF sv post(1)] \<open>c = d\<close> by simp
    next
      case False
      then have "view z1 (dumps c) = Some s'" using c d(3) by simp
      then show ?thesis using serves_item [OF sv post(1)] post(4) by blast
    qed
    then show ?thesis using serves_trans [OF sv post(1)] post(2,3) by blast
  qed
qed

section \<open>Properties\<close>

text \<open>C12: A polling worker answers everyone: whatever order the queue is in, whatever the breaker does
  and whatever the inferences return or raise (any exception but a cancellation), a worker that polls at least as often as there are
  items leaves the queue empty and itself idle, and every waiting request that had an item in the
  queue is out of the registry with its future done; no request that was not waiting appears.\<close>

theorem worker_answers_queue:
  assumes "queue_env ops key view dumps loads" and "redis_open cl" and "pool_reachable cb n p"
    and "running p" and "w < length (workers p)" and "workers p ! w = Idle"
    and "\<And>m. m \<in> dom (view z) \<Longrightarrow> \<exists>d. m = dumps d" and "card (dom (view z)) \<le> length rounds"
    and "\<forall>x\<in>set rounds. returns_normally x"
    and "worker_rounds ops loads cl key w rounds p z = (p', z')"
  shows "view z' = Map.empty \<and> workers p' ! w = Idle \<and>
    (\<forall>d s r f. view z (dumps d) = Some s \<and> known_request p d = Some r \<and> map_of (pending p) r = Some f \<longrightarrow>
      map_of (pending p') r = None \<and> future_done (futures p') f) \<and>
    (\<forall>r. map_of (pending p) r = None \<longrightarrow> map_of (pending p') r = None)"
proof -
  have "f < length (futures p)" if "map_of (pending p) r = Some f" for r f
    using pool_reachable_inv [OF assms(3)] that map_of_SomeD by (fastforce simp: pool_inv_def)
  then have "ready_worker w p" using assms(4-6) by (simp add: ready_worker_def)
  from worker_rounds_serve [OF assms(1,2) this assms(7-10)] show ?thesis
    unfolding item_answered_def serves_def by blast
qed

text \<open>One request in the queue, one worker, and a model call that raises.\<close>

abbreviation "waiting_pool \<equiv> snd (register_request ''r1'' (pool_start 1 (pool_init None :: completion pool)))"
abbreviation "waiting_item \<equiv> [(''request_id'', JStr ''r1'')]"

lemma worker_answers_queue_witness:
  "\<exists>p' z'. worker_rounds ref_zset Inr ((redis_client_init '''')\<lparr>redis_open := True\<rparr>) ''q'' 0
      [(5, Inl (OtherException ''oom''), 6)] waiting_pool (\<lambda>_. [(waiting_item, 1)]) = (p', z') \<and>
    map_of (pending p') ''r1'' = None \<and> future_done (futures p') 0"
proof -
  let ?cl = "(redis_client_init '''')\<lparr>redis_open := True\<rparr>"
  let ?z = "(\<lambda>_. [(waiting_item, 1)]) :: string \<Rightarrow> (item \<times> float) list"
  have reach: "pool_reachable None 1 waiting_pool"
    by (rule pool_reachable.step [OF pool_reachable.init pool_step.register])
  obtain p' z' where run: "worker_rounds ref_zset Inr ?cl ''q'' 0 [(5, Inl (OtherException ''oom''), 6)] waiting_pool ?z = (p', z')"
    by force
  have dom: "dom (map_of (?z ''q'')) = {waiting_item}" by auto
  have "map_of (?z ''q'') (id waiting_item) = Some 1" by simp
  moreover have "known_request waiting_pool waiting_item = Some ''r1''"
    "map_of (pending waiting_pool) ''r1'' = Some 0"
    by (simp_all add: known_request_def item_get_def register_request_def create_future_def pool_start_def pool_init_def)
  moreover have pre: "redis_open ?cl" "running waiting_pool" "0 < length (workers waiting_pool)"
    "workers waiting_pool ! 0 = Idle"
    "\<And>m. m \<in> dom (map_of (?z ''q'')) \<Longrightarrow> \<exists>d. m = id d"
    "card (dom (map_of (?z ''q''))) \<le> length [(5, Inl (OtherException ''oom''), 6)]"
    "\<forall>x\<in>set [(5, Inl (OtherException ''oom''), 6)]. returns_normally x"
    by (simp_all add: dom register_request_def create_future_def pool_start_def pool_init_def
        returns_normally_def is_Exception_def)
  note worker_answers_queue [OF ref_env.queue_env_axioms pre(1) reach pre(2-7) run]
  ultimately show ?thesis using run by blast
qed

end
