(* ===== verification/Spec2Isabelle.thy ===== *)
theory Spec2Isabelle
  imports Circuit_Breaker KV_Cache Request_Queue Rate_Limiter Memory_Profiler Speculative_Decoding
    Batch_Scheduler Worker_Pool Batched_Pool Streaming Lifecycle Api Direct_Routes App_Config Serving
    Service Report Inference_Executor Rate_Limit_Guarantees Executed_Service Progress Completion Queue_Service
begin

text \<open>
  A verification development for the LLM serving platform, the Python package
  \<^verbatim>\<open>src/src/llm_serving\<close>: an HTTP service that puts completion requests into a priority queue in
  Redis, hands them to workers that run a language model, alone or in batches, and protects
  itself with a rate limiter, a load shedder, a circuit breaker and a memory monitor.

  A request passes the parts in this order.  The load shedder reads the queue depth and the
  rate limiter takes a token for the API key (\<^verbatim>\<open>middleware/\<close>, \<^verbatim>\<open>queue/rate_limiter.py\<close>).  The route
  (\<^verbatim>\<open>api/router.py\<close>) asks the pressure handler (\<^verbatim>\<open>profiler/\<close>), registers a future with the worker
  pool and enqueues the payload (\<^verbatim>\<open>queue/priority_queue.py\<close>).  A worker (\<^verbatim>\<open>core/worker.py\<close>) pops
  it, asks the circuit breaker, runs the inference (\<^verbatim>\<open>core/inference.py\<close>) directly or through the
  batch scheduler (\<^verbatim>\<open>core/batcher.py\<close>), records the outcome with the breaker and settles the
  future, which the route turns into a response.  Streaming requests skip the queue
  (\<^verbatim>\<open>core/streaming.py\<close>); speculative decoding (\<^verbatim>\<open>speculative/\<close>) has a route of its own.
  \<^verbatim>\<open>main.py\<close> builds all parts at the start and takes them down at the end.

  \<^bold>\<open>Theories.\<close>  File names are relative to \<^verbatim>\<open>src/src/llm_serving\<close>; definitions have the names of
  the functions they translate unless noted.

  \<^item> \<open>Prelude\<close>: the exceptions of \<^verbatim>\<open>exceptions.py\<close> and the Python ones that handlers tell apart,
    results and actions (a state passed through code that may raise), dictionaries as
    association lists, Python slices.  \<open>Py_Str\<close>: \<^verbatim>\<open>str\<close> of integers and lists, \<^verbatim>\<open>startswith\<close>,
    \<^verbatim>\<open>strip\<close>.  \<open>Float_Arith\<close>: a float is the rational it denotes, and an operation is the exact
    result rounded to 53 bits (\<open>fl64\<close>); Lua's \<^verbatim>\<open>tostring\<close> rounds to 14 digits (\<open>fmt14\<close>); the locale
    \<open>rounding\<close> is what both promise.  \<open>Futures\<close>: asyncio futures, and the guarded write
    \<open>settle\<close> (\<open>write_future\<close>, which raises on a future that is done, behind \<^verbatim>\<open>if not done()\<close>).  \<open>Random_Program\<close>: programs
    that draw, as trees with an expectation.
  \<^item> \<open>Circuit_Breaker\<close> (\<^verbatim>\<open>core/circuit_breaker.py\<close>): the methods as functions on the record
    \<open>breaker\<close>; reachable states and their invariant; \<open>documented_step\<close>, the transition table of the
    module's docstring on the states \<open>spec\<close>, and which calls the methods take differently; the bound on probes, the trip at the threshold, and recovery, which the
    locale \<open>guard_service\<close> states for any guarded service.
  \<^item> \<open>KV_Cache\<close> (\<^verbatim>\<open>core/kv_cache.py\<close>): \<open>kv_get\<close>, \<open>kv_put\<close>, \<open>evict_lru\<close>, \<open>kv_clear\<close>, \<open>kv_stats_of\<close> on the
    record \<open>kv_cache\<close>, whose entries are in least-recently-used order.  \<open>kv_put\<close> returns an
    option: its second loop need not end.  The lemmas: the memory counter is exact, the limits
    hold, \<open>kv_put\<close> evicts exactly the list specification \<open>lru_make_room\<close>, the cache holds the
    most recently used keys.
  \<^item> \<open>Redis_Client\<close>, \<open>Request_Queue\<close> (\<^verbatim>\<open>queue/redis_client.py\<close>, \<^verbatim>\<open>queue/priority_queue.py\<close>): the queue
    over a sorted set; \<open>connect\<close> and \<open>close\<close> with the errors of \<^verbatim>\<open>from_url\<close>, \<^verbatim>\<open>ping\<close> and \<^verbatim>\<open>aclose\<close>.
    The locales \<open>redis_zset\<close> and \<open>json_codec\<close> state the documented behaviour of
    Redis and of \<^verbatim>\<open>json\<close>; both are interpreted on an executable sorted set, on which the witnesses
    run.  The score arithmetic is binary64, so the FIFO order within a tier holds for scores that
    differ and fails for scores that round to the same number.
  \<^item> \<open>Rate_Limiter\<close> (\<^verbatim>\<open>queue/rate_limiter.py\<close>): the Lua script as a function of its two roundings,
    and \<open>try_consume\<close> around it over the locale \<open>script_store\<close>.  The bound on a window and the retry
    time in exact arithmetic; the burst, and runs of calls in which the key expires, in the script's
    own; two theorems show where the roundings and the cached script matter.  \<open>Rate_Limit_Guarantees\<close>: the bound on what a window
    of calls admits and the admission of a client that waits as told, in the script's own
    arithmetic, with the error of every operation accounted for.
  \<^item> \<open>Speculative_Sampler\<close>, \<open>Speculative_Decoding\<close> (\<^verbatim>\<open>speculative/\<close>): rejection sampling, drafting
    with the key-value cache, verification, the generation loop, metrics.  The distribution of
    the output is that of sampling from the target model token by token, when tensor arithmetic
    is exact and the two models satisfy the locale \<open>spec_lms\<close> (a forward pass with the cache
    gives the rows it gives without it).  \<open>generate\<close> runs with \<open>max_new_tokens + 1\<close> rounds of
    fuel; every round adds a token, so \<open>generate_terminates\<close> shows that the fuel is never used up.
  \<^item> \<open>Memory_Profiler\<close> (\<^verbatim>\<open>profiler/\<close>): tracker, watermark monitor with callbacks, pressure handler
    on a KV cache, estimates.  The invariant gives the admission decision as a function of the
    history of levels.
  \<^item> \<open>Inference\<close> (\<^verbatim>\<open>models/loader.py\<close>, \<^verbatim>\<open>core/inference.py\<close>, the padding of \<^verbatim>\<open>core/batcher.py\<close>):
    \<open>inference_generate\<close> is \<^verbatim>\<open>generate\<close>.  The locale \<open>lm_engine\<close> says what a model call promises:
    every row it returns extends the row it was given, all by the same number of at most
    \<^verbatim>\<open>max_new_tokens\<close>.  Requests through the prefix cache (\<open>serve_cached\<close>) are compared with requests
    that forward their prefix each time (\<open>serve_uncached\<close>); that the model treats the state of a prefix
    like the prefix itself is not claimed.  A key-value state is the immutable tuple that the
    annotations name; the cache objects of later versions of the library, which a call extends in
    place, are not modelled.
  \<^item> \<open>Batch_Scheduler\<close> (\<^verbatim>\<open>core/batcher.py\<close>) and \<open>Worker_Pool\<close> (\<^verbatim>\<open>core/worker.py\<close>): the collector and
    each worker are states; what runs between two awaits is one step, and the theorems hold for
    every interleaving of the steps (\<open>sched_reachable\<close>, \<open>pool_reachable\<close>).  \<^verbatim>\<open>register_request\<close>
    overwrites, and so does the model: \<open>pool_history\<close>, like \<open>batched_history\<close> and \<open>serving_history\<close>
    after it, carries the set of the futures whose registry entry a later registration of the same id
    overwrote, and the theorems about waiters say what becomes of these.
  \<^item> \<open>Batched_Pool\<close>: pool and batch scheduler together, as the workers use them when batching is
    on.  The state says which batch future each worker waits for, and the history which items were
    submitted; every step is a step of the
    parts, so their theorems carry over, and the number of workers bounds what the scheduler
    holds.
  \<^item> \<open>Streaming\<close> (\<^verbatim>\<open>core/streaming.py\<close>, \<^verbatim>\<open>_create_streaming_response\<close>): what the client receives for
    what \<^verbatim>\<open>model.generate\<close> does in its thread, text by text with the waits between them until it ends,
    raises or hangs (\<open>stream_run\<close>), and for any timeout or disconnection on the consumer's side
    (\<open>gets_of\<close>).  \<open>Lifecycle\<close> (\<^verbatim>\<open>lifecycle.py\<close>): counting
    and draining.
  \<^item> \<open>Api\<close> (\<^verbatim>\<open>api/\<close>, \<^verbatim>\<open>middleware/\<close>, the middleware order of \<^verbatim>\<open>main.py\<close>): routes as functions to
    responses; \<open>create_completion\<close> is the route up to its wait, \<open>finish_completion\<close> the rest.
    \<open>Direct_Routes\<close>: the routes that do not go through the queue.
  \<^item> \<open>App_Config\<close> (\<^verbatim>\<open>config.py\<close>, \<^verbatim>\<open>logging.py\<close>): the settings with their defaults, the cached
    accessor, the logging set-up.
  \<^item> \<open>Serving\<close> (\<^verbatim>\<open>main.py\<close>): \<open>startup\<close> builds the objects in the order of \<^verbatim>\<open>lifespan\<close> and may fail at
    the settings, the model, the Redis URL or ping, the draft model, the profiler or the signals; \<open>serving_step\<close> is the traffic of the running service; \<open>lifespan_stop\<close> is what comes
    after the \<^verbatim>\<open>yield\<close>, up to the exception that closing Redis may raise.  The lemmas: the invariant of the running service, which rests on the
    reachable states of the parts, what a shutdown releases, what a failed start leaves behind.
  \<^item> \<open>Service\<close>: \<open>serve\<close> takes one request through the middlewares, the dependencies and its route, on
    the state of \<open>Serving\<close> and of Redis.  The lemmas: responses are typed, and requests are steps
    of the running service.
  \<^item> \<open>Inference_Executor\<close>: the thread pool of \<^verbatim>\<open>main.py\<close> under workers, batches and streams, and the
    threads that \<^verbatim>\<open>generate_stream\<close> starts next to it: what bounds the concurrent model calls, and
    what exceeds the bound.  \<open>Executed_Service\<close>: the running service of \<open>Serving\<close> with its calls going
    through that pool; the locale \<open>delaying\<close> says what it is to add nothing but delay, and its
    interpretation carries every reachable state over and gives every step back.  \<open>Progress\<close>: from every state a request in a
    worker's hands can be answered, with and without batching.
  \<^item> \<open>Completion\<close>: one completion through route, queue, worker and, with batching on, collector;
    the definitions that fill the wait of the route.  \<open>Queue_Service\<close>: a worker that keeps polling
    against a queue of any content.
  \<^item> \<open>Report\<close> (\<^verbatim>\<open>src/scripts/generate_metrics_report.py\<close>): Python's \<^verbatim>\<open>float\<close> on a string, number
    formatting, the report.

  The present theory joins the parts for one completion: \<open>completion_end_to_end\<close> follows the route,
  the queue and a worker, \<open>application_answers_completion\<close> the whole application.  \<open>Futures\<close> holds the
  locale \<open>future_owner\<close>, what waiters rely on when a pool or a scheduler stops; it is interpreted on
  the pool and on both sides of the composition.

  \<^bold>\<open>Parameters.\<close>  Redis, the JSON codec, SHA-256, the Hugging Face model and tokenizer, the CUDA
  device, the event loop's signal handlers and the clock are arguments of the definitions that use them; what the
  theorems need of them are the assumptions of the locales above or hypotheses in the statement,
  and every such theorem has a witness on a concrete instance.

  \<^bold>\<open>Not modelled.\<close>  Log calls and what \<^verbatim>\<open>structlog\<close> does with them; infinities, NaN and subnormal
  floats in the service, which the magnitudes of the program exclude (the report has them);
  the wall-clock length of timeouts, which are steps that may happen at any time; preemption
  inside a method, since each runs without an await or under its lock; reading the environment,
  which is pydantic's; parsing and rejecting request bodies, which is FastAPI's.

  \<^bold>\<open>Plan.\<close>  Several polling workers at once against one queue; the threads that a shutdown leaves
  running; the property accessors without a caller (\<^verbatim>\<open>failure_count\<close>, \<^verbatim>\<open>in_flight\<close>, \<^verbatim>\<open>current_level\<close>),
  which only return a field, are the record selectors.
\<close>

section \<open>A completion from request to response\<close>


text \<open>C2: End to end: a valid non-streaming request that finds the model loaded, memory available,
  an empty queue and a closed (or no) breaker, and whose new id is not in the registry, is enqueued and handed to the idle worker that
  polls next with exactly its prompt, limit, temperature and seed; when the inference returns,
  the awaited future has the result, the client gets 200 with the text and consistent token
  counts, the request leaves the registry, and the queue is empty again.\<close>

theorem completion_end_to_end:
  assumes "queue_env ops key view dumps loads" and "redis_open cl" and "view z = Map.empty"
    and "running pool" and "w < length (workers pool)"
    and "r \<noteq> ''''" and "r \<notin> set (keys (pending pool))"
    and "\<And>b. circuit_breaker pool = Some b \<Longrightarrow> state_property now' b = circuit_state.CLOSED"
    and "\<not> cr_stream body" and "admit \<noteq> Some False"
    and "create_completion True admit r (\<lambda>rid p d. enqueue ops dumps cl key rid p d now) body pool z =
      (started, pool1, z1)"
    and "worker_poll (dequeue ops loads cl key) now' w pool1 z1 = (pool2, z2)"
    and "worker_finish (Inr (text, prompt_tokens, completion_tokens)) now'' w pool2 = pool3"
  shows "\<exists>f. started = Inr (Awaiting r f) \<and>
    workers pool2 ! w = Busy r \<lparr>job_prompt = JStr (cr_prompt body), job_max_tokens = JInt (cr_max_tokens body),
      job_temperature = JFloat (cr_temperature body),
      job_seed = (case cr_seed body of None \<Rightarrow> JNull | Some s \<Rightarrow> JInt s)\<rparr> \<and>
    view z2 = Map.empty \<and> r \<notin> set (keys (pending pool3)) \<and>
    fst (finish_completion model timeout_s r (waited_of (futures pool3 ! f)) pool3) =
      ok (Completion_body r model text prompt_tokens completion_tokens (prompt_tokens + completion_tokens))"
  by (rule completion_run [OF assms])

abbreviation "open_redis \<equiv> (redis_client_init '''')\<lparr>redis_open := True\<rparr>"

lemma completion_end_to_end_witness:
  "\<exists>f. fst (create_completion True None ''cmpl-1''
      (\<lambda>rid p d. enqueue ref_zset id open_redis ''q'' rid p d 5) demo_body
      (pool_start 1 (pool_init (Some (breaker_init 5 30 1)))) (\<lambda>_. [])) = Inr (Awaiting ''cmpl-1'' f)"
proof -
  let ?pool = "pool_start 1 (pool_init (Some (breaker_init 5 30 1))) :: completion pool"
  obtain st p1 z1 where c: "create_completion True None ''cmpl-1''
      (\<lambda>rid p d. enqueue ref_zset id open_redis ''q'' rid p d 5) demo_body ?pool (\<lambda>_. []) = (st, p1, z1)"
    by (metis prod_cases3)
  obtain p2 z2 where p: "worker_poll (dequeue ref_zset Inr open_redis ''q'') 6 0 p1 z1 = (p2, z2)" by force
  have "\<exists>f. st = Inr (Awaiting ''cmpl-1'' f)"
    using completion_end_to_end [OF ref_env.queue_env_axioms _ _ _ _ _ _ _ _ _ c p refl,
        of "''text''" 2 3 7 "''model''" "''60.0''"]
    by (simp add: pool_start_def pool_init_def state_property_def breaker_init_def) blast
  then show ?thesis by (simp only: c fst_conv)
qed

section \<open>The same through the whole application\<close>


text \<open>C3: The whole application answers a completion, with batching on or off: on a running service
  whose queue and batch collector are empty, a non-streaming request that the rate limiter allows
  and the pressure handler admits, and that a worker with a closed breaker picks up, directly or as
  a batch of one, comes back through both middlewares with 200, the model's name, the text and the
  token counts of the inference.\<close>

theorem application_answers_completion:
  assumes "serving_reachable L s" and "lib_settings L = Inr cfg" and "sv_pool s = Some pool"
    and "0 < cfg_max_queue_depth cfg"
    and "queue_env (env_zset V) ''inference_queue'' view (env_dumps V) loads"
    and "consume V (extract_api_key auth) (s, z) = (Inr (True, info), (s1, z1))"
    and "view z = Map.empty" and "view z1 = Map.empty"
    and "running pool" and "w < length (workers pool)"
    and "env_uuid V \<noteq> ''''" and "env_uuid V \<notin> set (keys (pending pool))"
    and "\<And>b. circuit_breaker pool = Some b \<Longrightarrow> state_property now b = circuit_state.CLOSED"
    and "\<not> cr_stream body" and "fst (admission (env_device V) True s) \<noteq> Some False"
    and "env_meanwhile V = request_meanwhile (env_zset V) loads now w (text, p, c)"
    and "\<And>sc. sv_scheduler s = Some sc \<Longrightarrow> bs_phase sc = Waiting \<and> bs_queue sc = []"
  shows "\<exists>r st. serve V ''POST'' ''/v1/completions'' auth (Some body) (s, z) = (Some r, st) \<and>
    status r = 200 \<and> content r = Completion_body (env_uuid V) (cfg_model_name cfg) text p c (p + c)"
proof -
  have "objects_ok cfg s" using serving_reachable_ok [OF assms(1)] assms(2) by (auto simp: serving_ok_def)
  then obtain m x where objects: "sv_manager s = Some m" "is_loaded m" "sv_executor s = Some x"
    "sv_redis s = Some \<lparr>redis_url = cfg_redis_url cfg, redis_open = True\<rparr>" "sv_settings s = Some cfg"
    by (auto simp: objects_ok_def)
  let ?cl = "\<lparr>redis_url = cfg_redis_url cfg, redis_open = True\<rparr>"
  note s1 = consume_fields [OF assms(6)]
  have "bs_running sc" if "sv_scheduler s = Some sc" for sc
    using alive_serving [OF assms(1) that] by (simp add: sched_alive_def)
  then have "\<exists>st. complete V body m ?cl ''inference_queue'' pool (cfg_model_name cfg) (s1, z1) =
      (Inr (ok (Completion_body (env_uuid V) (cfg_model_name cfg) text p c (p + c))), st)"
    using objects s1 assms(3,15,17) admission_cong [of s1 s]
    by (intro complete_answers [OF assms(5,8) _ _ _ assms(9-14) _ assms(16)]) auto
  then obtain st where "completion_handler V body (s1, z1) =
      (Inr (ok (Completion_body (env_uuid V) (cfg_model_name cfg) text p c (p + c))), st)"
    using objects s1 assms(3)
    by (auto simp: completion_handler_def bind_def depends_def get_model_manager_def get_inference_executor_def
        get_priority_queue_def get_worker_pool_def model_name_def get_attr_def)
  then have limited: "\<exists>r. rate_limit_middleware (consume V) auth (route V ''POST'' ''/v1/completions'' (Some body)) (s, z) =
      (Inr r, st) \<and> status r = 200 \<and> content r = Completion_body (env_uuid V) (cfg_model_name cfg) text p c (p + c)"
    using assms(6) by (simp add: rate_limit_middleware_def bind_def ret_def route_def set_header_def ok_def)
  have "zcard (env_zset V) ''inference_queue'' z = (Inr 0, z)"
    using redis_zset.zcard [OF queue_env.axioms(1) [OF assms(5)], of z] assms(7) by simp
  then have "bind (depends get_priority_queue) (\<lambda>(qcl, key). on_redis (queue_depth (env_zset V) qcl key)) (s, z) =
      (Inr 0, (s, z))"
    using objects by (simp add: bind_def depends_def get_priority_queue_def get_attr_def on_redis_def queue_depth_def)
  then show ?thesis
    using limited objects(5) assms(4)
    by (auto simp: serve_def app_def load_shedder_def bypass_paths_def ret_def
        bind_def [of "bind (depends get_priority_queue) f" for f])
qed

definition reference_env :: "(unit, unit, string \<Rightarrow> (item \<times> float) list, item) env" where
  "reference_env =
     \<lparr>env_zset = ref_zset, env_dumps = id, env_script_load = ret ''sha'',
      env_evalsha = (\<lambda>sha k n r t. ret (1, 9, 0)), env_ping = ret True, env_time = 5, env_monotonic = 5,
      env_device = None, env_collected = id, env_emptied = id, env_uuid = ''cmpl-1'',
      env_timeout_text = ''60.0'', env_str_exn = (\<lambda>e. ''error''),
      env_unrouted = (\<lambda>h p. \<lparr>status = 404, headers = [], content = Framework_body ''Not Found''\<rparr>),
      env_unprocessable = \<lparr>status = 422, headers = [], content = Framework_body ''invalid''\<rparr>,
      env_torch = exact_torch, env_eos = Some 2, env_draws = first_outcome,
      env_meanwhile = request_meanwhile ref_zset Inr 6 0 (''text'', 2, 3)\<rparr>"

abbreviation "batching_libs \<equiv> demo_libs default_settings (Inl CancelledError)"

lemma batching_service:
  "\<exists>s. serving_reachable batching_libs s \<and>
     sv_pool s = Some (pool_start 1 (pool_init (Some (make_breaker default_settings)))) \<and>
     sv_scheduler s = Some (scheduler_start (scheduler_init (cfg_max_batch_size default_settings))) \<and>
     fst (admission None True s) = Some True \<and>
     (\<exists>info s1. consume reference_env (extract_api_key None) (s, \<lambda>_. []) = (Inr (True, info), (s1, \<lambda>_. [])))"
proof -
  obtain s where st: "startup batching_libs (serving_init demo_log) = (Inr (), s)" using demo_startup by blast
  from startup_Inr [OF st] have s:
    "sv_pool s = Some (pool_start 1 (pool_init (Some (make_breaker default_settings))))"
    "sv_scheduler s = Some (scheduler_start (scheduler_init (cfg_max_batch_size default_settings)))"
    "sv_redis s = Some \<lparr>redis_url = cfg_redis_url default_settings, redis_open = True\<rparr>"
    "sv_limiter s = Some (limiter_init 10 2 ''rate_limit'')"
    "sv_pressure s = Some (pressure_init (monitor_init (fl64 (85 / 100)) (fl64 (95 / 100))) (make_kv_cache default_settings))"
    by (auto simp: demo_libs_def default_mem_config_def) (simp_all add: default_settings_def)
  from startup_Inr [OF st] obtain tr where tr: "tracker_init default_mem_config None = Inr tr" "sv_tracker s = Some tr"
    by (auto simp: demo_libs_def)
  have "0 < fl64 (85 / 100)" "0 < fl64 (95 / 100)"
    using fl64_lower [of "85 / 100"] fl64_lower [of "95 / 100"] by simp_all
  then have "fst (admission None True s) = Some True"
    using s(5) tr unregistered_pressure_is_inert [of "fl64 (85 / 100)" "fl64 (95 / 100)" default_mem_config None tr]
    by (simp add: admission_def default_mem_config_def)
  moreover have "\<exists>info s1. consume reference_env (extract_api_key None) (s, \<lambda>_. []) = (Inr (True, info), (s1, \<lambda>_. []))"
    using s(3,4) by (simp add: consume_def reference_env_def try_consume_def ensure_script_loaded_def
        bind_def ret_def Let_def limiter_init_def)
  ultimately show ?thesis using serving_reachable.init [OF st] s(1,2) by blast
qed

lemma application_answers_completion_witness:
  "\<exists>s r st. serving_reachable batching_libs s \<and> sv_scheduler s \<noteq> None \<and>
     serve reference_env ''POST'' ''/v1/completions'' None (Some demo_body) (s, \<lambda>_. []) = (Some r, st) \<and>
     status r = 200 \<and> content r = Completion_body ''cmpl-1'' (cfg_model_name default_settings) ''text'' 2 3 5"
proof -
  obtain s info s1 where s: "serving_reachable batching_libs s"
    "sv_pool s = Some (pool_start 1 (pool_init (Some (make_breaker default_settings))))"
    "sv_scheduler s = Some (scheduler_start (scheduler_init (cfg_max_batch_size default_settings)))"
    "fst (admission None True s) = Some True"
    "consume reference_env (extract_api_key None) (s, \<lambda>_. []) = (Inr (True, info), (s1, \<lambda>_. []))"
    using batching_service by blast
  have env: "queue_env (env_zset reference_env) ''inference_queue'' (\<lambda>z. map_of (z ''inference_queue'')) (env_dumps reference_env) Inr"
    using ref_env.queue_env_axioms by (simp add: reference_env_def)
  have cfg: "lib_settings batching_libs = Inr default_settings" by (simp add: demo_libs_def)
  have wait: "env_meanwhile reference_env = request_meanwhile (env_zset reference_env) Inr 6 0 (''text'', 2, 3)"
    by (simp add: reference_env_def)
  from application_answers_completion [OF s(1) cfg s(2) _ env s(5) _ _ _ _ _ _ _ _ _ wait, of demo_body]
  have "\<exists>r st. serve reference_env ''POST'' ''/v1/completions'' None (Some demo_body) (s, \<lambda>_. []) = (Some r, st) \<and>
     status r = 200 \<and> content r = Completion_body (env_uuid reference_env) (cfg_model_name default_settings) ''text'' 2 3 (2 + 3)"
    using s(3,4) by (simp add: default_settings_def reference_env_def pool_start_def pool_init_def make_breaker_def
        breaker_init_def state_property_def scheduler_start_def scheduler_init_def)
  then show ?thesis using s(1,3) by (auto simp: reference_env_def)
qed

end
